(* ===== verification/Prelude.thy ===== *)
theory Prelude
  imports Main "HOL-Library.Word" "HOL-Library.Monad_Syntax"
begin

text \<open>
  Prelude of the development: the machine types of the C sources, byte slices
  (the reading and writing side of \<open>memcpy\<close> on a buffer), the little-endian
  integers that lie in the on-disk structures, C strings as byte lists, and the
  lemma collections the component theories extend.
\<close>

unbundle bit_operations_syntax

section \<open>Machine types\<close>

type_synonym u8 = "8 word"
type_synonym u16 = "16 word"
type_synonym u32 = "32 word"
type_synonym u64 = "64 word"
type_synonym bytes = "8 word list"

named_theorems slice_simps \<open>equations of slices and splices of byte buffers\<close>
named_theorems frame_simps \<open>what an operation leaves unchanged\<close>
named_theorems inv_intros \<open>preservation of the invariants\<close>

section \<open>Slices and splices\<close>

text \<open>
  \<open>bslice n off xs\<close> is what \<open>memcpy(dst, xs + off, n)\<close> copies and
  \<open>splice xs off ys\<close> is \<open>xs\<close> after \<open>memcpy(xs + off, ys, length ys)\<close>, both for
  accesses inside the buffer.
\<close>

definition bslice :: "nat \<Rightarrow> nat \<Rightarrow> 'a list \<Rightarrow> 'a list" where
  "bslice n off xs = take n (drop off xs)"

definition splice_at :: "'a list \<Rightarrow> nat \<Rightarrow> 'a list \<Rightarrow> 'a list" where
  "splice_at xs off ys = take off xs @ ys @ drop (off + length ys) xs"

lemma length_bslice [slice_simps]: "length (bslice n off xs) = min n (length xs - off)"
  by (simp add: bslice_def)

lemma length_splice_at [slice_simps]:
  "off + length ys \<le> length xs \<Longrightarrow> length (splice_at xs off ys) = length xs"
  by (simp add: splice_at_def)

lemma nth_splice_at:
  "off + length ys \<le> length xs \<Longrightarrow> i < length xs \<Longrightarrow>
   splice_at xs off ys ! i =
     (if off \<le> i \<and> i < off + length ys then ys ! (i - off) else xs ! i)"
  by (auto simp: splice_at_def nth_append min_def add.commute)

lemma nth_bslice: "i < n \<Longrightarrow> off + i < length xs \<Longrightarrow> bslice n off xs ! i = xs ! (off + i)"
  by (simp add: bslice_def)

lemma bslice_splice_same [slice_simps]:
  "off + length ys \<le> length xs \<Longrightarrow> n = length ys \<Longrightarrow> bslice n off (splice_at xs off ys) = ys"
  by (simp add: bslice_def splice_at_def)

lemma bslice_splice_other [slice_simps]:
  assumes "off + length ys \<le> length xs" and "off' + n \<le> off \<or> off + length ys \<le> off'"
  shows "bslice n off' (splice_at xs off ys) = bslice n off' xs"
proof (rule nth_equalityI)
  show len: "length (bslice n off' (splice_at xs off ys)) = length (bslice n off' xs)"
    using assms by (simp add: slice_simps)
  fix i
  assume "i < length (bslice n off' (splice_at xs off ys))"
  with assms have "i < n" and "off' + i < length xs" by (auto simp: slice_simps)
  with assms show "bslice n off' (splice_at xs off ys) ! i = bslice n off' xs ! i"
    by (auto simp: nth_bslice nth_splice_at slice_simps)
qed

lemma splice_at_all [slice_simps]: "length ys = length xs \<Longrightarrow> splice_at xs 0 ys = ys"
  by (simp add: splice_at_def)

lemma splice_at_Nil [simp]: "splice_at xs off [] = xs"
  by (simp add: splice_at_def)

section \<open>Little-endian integers\<close>

text \<open>
  The machine is little-endian: byte \<open>k\<close> of an integer object holds bits
  \<open>8k .. 8k+7\<close>. \<open>le_enc n w\<close> is the \<open>n\<close>-byte object representation of \<open>w\<close> and
  \<open>le_dec\<close> reads it back.
\<close>

definition le_enc :: "nat \<Rightarrow> 'a::len word \<Rightarrow> bytes" where
  "le_enc n w = map (\<lambda>k. ucast (drop_bit (8 * k) w)) [0..<n]"

fun le_dec :: "bytes \<Rightarrow> 'a::len word" where
  "le_dec [] = 0"
| "le_dec (b # bs) = ucast b OR push_bit 8 (le_dec bs)"

lemma length_le_enc [simp]: "length (le_enc n w) = n"
  by (simp add: le_enc_def)

lemma bit_le_dec:
  "bit (le_dec bs :: 'a::len word) k \<longleftrightarrow>
     k < LENGTH('a) \<and> k div 8 < length bs \<and> bit (bs ! (k div 8)) (k mod 8)"
proof (induction bs arbitrary: k)
  case Nil
  then show ?case by simp
next
  case (Cons b bs)
  show ?case
  proof (cases "k < 8")
    case True
    then show ?thesis by (auto simp: bit_or_iff bit_push_bit_iff bit_ucast_iff)
  next
    case False
    then obtain j where k: "k = j + 8" by (metis add.commute le_add_diff_inverse not_less)
    have "(j + 8) div 8 = Suc (j div 8)" by simp
    moreover have "\<not> bit b (j + 8)" using bit_imp_le_length [of b "j + 8"] by auto
    ultimately show ?thesis
      by (auto simp: k bit_or_iff bit_push_bit_iff bit_ucast_iff Cons.IH dest: bit_imp_le_length)
  qed
qed

lemma le_dec_enc [simp]:
  assumes "LENGTH('a) \<le> 8 * n"
  shows "le_dec (le_enc n w) = (w :: 'a::len word)"
proof (rule bit_word_eqI)
  fix k
  assume k: "k < LENGTH('a)"
  with assms have "k div 8 < n" by (simp add: div_less_iff_less_mult mult.commute)
  with k show "bit (le_dec (le_enc n w) :: 'a word) k = bit w k"
    by (simp add: bit_le_dec le_enc_def bit_ucast_iff bit_drop_bit_eq)
qed

lemma le_dec_zeros [simp]: "le_dec (replicate n 0) = 0"
  by (induction n) auto

section \<open>C strings\<close>

text \<open>
  A C string argument is the list of its bytes before the terminating zero; a
  character buffer is read up to its first zero byte. \<open>bytes_of\<close> turns a literal
  of the source into its bytes.
\<close>

definition bytes_of :: "string \<Rightarrow> bytes" where
  "bytes_of s = map of_char s"

definition cstr :: "bytes \<Rightarrow> bytes" where
  "cstr buf = takeWhile (\<lambda>b. b \<noteq> 0) buf"

lemma cstr_no_zero: "0 \<notin> set (cstr buf)"
  by (auto simp: cstr_def dest: set_takeWhileD)

lemma cstr_id: "0 \<notin> set s \<Longrightarrow> cstr s = s"
  by (auto simp: cstr_def takeWhile_eq_all_conv)

lemma cstr_pad [simp]: "0 \<notin> set s \<Longrightarrow> 0 < n \<Longrightarrow> cstr (s @ replicate n 0) = s"
  by (cases n) (auto simp: cstr_def takeWhile_append2 takeWhile_tail)

lemma set_take_zero: "0 \<notin> set s \<Longrightarrow> 0 \<notin> set (take n s)"
  by (meson in_set_takeD)

section \<open>Decimal numbers\<close>

text \<open>The conversion \<open>%d\<close> of the \<open>printf\<close> family; 48 is the digit 0, 45 the minus sign.\<close>

fun fmt_u :: "nat \<Rightarrow> bytes" where
  "fmt_u n = (if n < 10 then [of_nat (48 + n)] else fmt_u (n div 10) @ [of_nat (48 + n mod 10)])"

declare fmt_u.simps [simp del]

definition fmt_d :: "int \<Rightarrow> bytes" where
  "fmt_d i = (if i < 0 then 45 # fmt_u (nat (- i)) else fmt_u (nat i))"

end
