(* ===== verification/Layout.thy ===== *)
theory Layout
  imports Prelude
begin

text \<open>
  \<open>project3/include/fs.h\<close>: the constants of the on-disk layout, the error codes, the
  structures that lie on the disk with their object representations (x86-64 ABI:
  little-endian, natural alignment), the open-file table and the global state of the
  file system.
\<close>

section \<open>Constants\<close>

abbreviation (input) FS_MAGIC :: u32 where "FS_MAGIC \<equiv> 0xEF53"
abbreviation (input) BLOCK_SIZE :: nat where "BLOCK_SIZE \<equiv> 512"
abbreviation (input) TOTAL_BLOCKS :: nat where "TOTAL_BLOCKS \<equiv> 4611"
abbreviation (input) BLK_SUPER :: nat where "BLK_SUPER \<equiv> 1"
abbreviation (input) BLK_GDESC :: nat where "BLK_GDESC \<equiv> 2"
abbreviation (input) BLK_BMAP :: nat where "BLK_BMAP \<equiv> 3"
abbreviation (input) BLK_IMAP :: nat where "BLK_IMAP \<equiv> 4"
abbreviation (input) BLK_ITBL_START :: nat where "BLK_ITBL_START \<equiv> 5"
abbreviation (input) BLK_DATA_START :: nat where "BLK_DATA_START \<equiv> 69"
abbreviation (input) MAX_INODES :: nat where "MAX_INODES \<equiv> 256"
abbreviation (input) INODE_SIZE :: nat where "INODE_SIZE \<equiv> 128"
abbreviation (input) DIRENT_SIZE :: nat where "DIRENT_SIZE \<equiv> 64"
abbreviation (input) NDIRECT :: nat where "NDIRECT \<equiv> 10"
abbreviation (input) NAME_MAX_LEN :: nat where "NAME_MAX_LEN \<equiv> 56"
abbreviation (input) MAX_OPEN :: nat where "MAX_OPEN \<equiv> 64"
abbreviation (input) MAX_USER_LEN :: nat where "MAX_USER_LEN \<equiv> 16"
abbreviation (input) FT_REG :: u8 where "FT_REG \<equiv> 1"
abbreviation (input) FT_DIR :: u8 where "FT_DIR \<equiv> 2"

text \<open>The octal literals: 0100644, 0040755, and the mask 0170000 of the type bits.\<close>

abbreviation (input) MODE_FILE :: u16 where "MODE_FILE \<equiv> 0x81A4"
abbreviation (input) MODE_DIR :: u16 where "MODE_DIR \<equiv> 0x41ED"
abbreviation (input) MODE_MASK :: u16 where "MODE_MASK \<equiv> 0xF000"
abbreviation (input) MODE_ISDIR :: u16 where "MODE_ISDIR \<equiv> 0x4000"

abbreviation (input) FS_OK :: int where "FS_OK \<equiv> 0"
abbreviation (input) FS_ERR :: int where "FS_ERR \<equiv> - 1"
abbreviation (input) FS_ENOENT :: int where "FS_ENOENT \<equiv> - 2"
abbreviation (input) FS_EEXIST :: int where "FS_EEXIST \<equiv> - 3"
abbreviation (input) FS_ENOSPC :: int where "FS_ENOSPC \<equiv> - 4"
abbreviation (input) FS_ENOTDIR :: int where "FS_ENOTDIR \<equiv> - 5"
abbreviation (input) FS_EISDIR :: int where "FS_EISDIR \<equiv> - 6"
abbreviation (input) FS_EPERM :: int where "FS_EPERM \<equiv> - 7"
abbreviation (input) FS_EBADF :: int where "FS_EBADF \<equiv> - 8"

section \<open>Structures\<close>

record superblock =
  magic :: u32
  block_size :: u32
  blocks_count :: u32
  inodes_count :: u32
  free_blocks :: u32
  free_inodes :: u32
  first_data_block :: u32
  inode_table_start :: u32
  block_bitmap_blk :: u32
  inode_bitmap_blk :: u32
  root_ino :: u32
  mount_time :: u64
  write_time :: u64

record group_desc =
  block_bitmap :: u32
  inode_bitmap :: u32
  inode_table :: u32
  free_blocks_count :: u32
  free_inodes_count :: u32

record inode =
  i_mode :: u16
  i_uid :: u16
  i_size :: u32
  i_atime :: u32
  i_mtime :: u32
  i_ctime :: u32
  i_gid :: u16
  i_links :: u16
  i_blocks :: u32
  i_direct :: "u32 list"
  i_indirect1 :: u32
  i_reserve :: bytes

record dirent =
  de_ino :: u32
  de_reclen :: u16
  de_file_type :: u8
  de_name :: bytes

text \<open>\<open>ofile_t\<close>: the two \<open>int\<close> flags only ever hold 0 and 1.\<close>

record ofile =
  of_used :: bool
  of_ino :: u32
  of_offset :: u32
  of_writable :: bool

definition wf_inode :: "inode \<Rightarrow> bool" where
  "wf_inode i \<longleftrightarrow> length (i_direct i) = NDIRECT \<and> length (i_reserve i) = 56"

definition wf_dirent :: "dirent \<Rightarrow> bool" where
  "wf_dirent d \<longleftrightarrow> length (de_name d) = NAME_MAX_LEN"

text \<open>\<open>(inode_t){0}\<close> and \<open>(dirent_t){0}\<close>.\<close>

definition zero_inode :: inode where
  "zero_inode = \<lparr>i_mode = 0, i_uid = 0, i_size = 0, i_atime = 0, i_mtime = 0, i_ctime = 0,
     i_gid = 0, i_links = 0, i_blocks = 0, i_direct = replicate NDIRECT 0, i_indirect1 = 0,
     i_reserve = replicate 56 0\<rparr>"

lemma wf_zero_inode [simp]: "wf_inode zero_inode"
  by (simp add: wf_inode_def zero_inode_def)

definition is_dir_mode :: "u16 \<Rightarrow> bool" where
  "is_dir_mode m \<longleftrightarrow> m AND MODE_MASK = MODE_ISDIR"

section \<open>Object representations\<close>

text \<open>An array of 32-bit words, such as \<open>uint32_t tbl[BLOCK_SIZE/4]\<close>.\<close>

definition enc_u32s :: "u32 list \<Rightarrow> bytes" where
  "enc_u32s ws = concat (map (le_enc 4) ws)"

definition dec_u32s :: "nat \<Rightarrow> bytes \<Rightarrow> u32 list" where
  "dec_u32s n bs = map (\<lambda>k. le_dec (bslice 4 (4 * k) bs)) [0..<n]"

lemma length_enc_u32s [simp]: "length (enc_u32s ws) = 4 * length ws"
  by (induction ws) (simp_all add: enc_u32s_def)

lemma length_dec_u32s [simp]: "length (dec_u32s n bs) = n"
  by (simp add: dec_u32s_def)

lemma bslice_enc_u32s: "k < length ws \<Longrightarrow> bslice 4 (4 * k) (enc_u32s ws) = le_enc 4 (ws ! k)"
proof (induction ws arbitrary: k)
  case Nil
  then show ?case by simp
next
  case (Cons w ws)
  then show ?case by (cases k) (auto simp: enc_u32s_def bslice_def)
qed

lemma dec_enc_u32s [simp]: "dec_u32s (length ws) (enc_u32s ws) = ws"
  by (rule nth_equalityI) (simp_all add: dec_u32s_def bslice_enc_u32s)

lemma dec_enc_u32s_len: "length ws = n \<Longrightarrow> dec_u32s n (enc_u32s ws) = ws"
  by auto

text \<open>
  The offsets are the ABI's: four bytes of padding before the 64-bit times of the
  superblock (64 bytes in all), 20 bytes for the group descriptor, 128 bytes for an
  inode, 63 bytes and one of padding for a directory entry.
\<close>

definition enc_sb :: "superblock \<Rightarrow> bytes" where
  "enc_sb b = enc_u32s [magic b, block_size b, blocks_count b, inodes_count b, free_blocks b,
       free_inodes b, first_data_block b, inode_table_start b, block_bitmap_blk b,
       inode_bitmap_blk b, root_ino b, 0] @ le_enc 8 (mount_time b) @ le_enc 8 (write_time b)"

definition dec_sb :: "bytes \<Rightarrow> superblock" where
  "dec_sb bs = (let w = dec_u32s 11 bs in
     \<lparr>magic = w ! 0, block_size = w ! 1, blocks_count = w ! 2, inodes_count = w ! 3,
      free_blocks = w ! 4, free_inodes = w ! 5, first_data_block = w ! 6,
      inode_table_start = w ! 7, block_bitmap_blk = w ! 8, inode_bitmap_blk = w ! 9,
      root_ino = w ! 10, mount_time = le_dec (bslice 8 48 bs),
      write_time = le_dec (bslice 8 56 bs)\<rparr>)"

definition enc_gd :: "group_desc \<Rightarrow> bytes" where
  "enc_gd g = enc_u32s [block_bitmap g, inode_bitmap g, inode_table g, free_blocks_count g,
       free_inodes_count g]"

definition dec_gd :: "bytes \<Rightarrow> group_desc" where
  "dec_gd bs = (let w = dec_u32s 5 bs in
     \<lparr>block_bitmap = w ! 0, inode_bitmap = w ! 1, inode_table = w ! 2,
      free_blocks_count = w ! 3, free_inodes_count = w ! 4\<rparr>)"

definition enc_inode :: "inode \<Rightarrow> bytes" where
  "enc_inode i = le_enc 2 (i_mode i) @ le_enc 2 (i_uid i) @ le_enc 4 (i_size i) @
     le_enc 4 (i_atime i) @ le_enc 4 (i_mtime i) @ le_enc 4 (i_ctime i) @ le_enc 2 (i_gid i) @
     le_enc 2 (i_links i) @ le_enc 4 (i_blocks i) @ enc_u32s (i_direct i) @
     le_enc 4 (i_indirect1 i) @ i_reserve i"

definition dec_inode :: "bytes \<Rightarrow> inode" where
  "dec_inode bs = \<lparr>i_mode = le_dec (bslice 2 0 bs), i_uid = le_dec (bslice 2 2 bs),
     i_size = le_dec (bslice 4 4 bs), i_atime = le_dec (bslice 4 8 bs),
     i_mtime = le_dec (bslice 4 12 bs), i_ctime = le_dec (bslice 4 16 bs),
     i_gid = le_dec (bslice 2 20 bs), i_links = le_dec (bslice 2 22 bs),
     i_blocks = le_dec (bslice 4 24 bs), i_direct = dec_u32s 10 (bslice 40 28 bs),
     i_indirect1 = le_dec (bslice 4 68 bs), i_reserve = bslice 56 72 bs\<rparr>"

definition enc_dirent :: "dirent \<Rightarrow> bytes" where
  "enc_dirent d = le_enc 4 (de_ino d) @ le_enc 2 (de_reclen d) @ [de_file_type d] @ de_name d @ [0]"

definition dec_dirent :: "bytes \<Rightarrow> dirent" where
  "dec_dirent bs = \<lparr>de_ino = le_dec (bslice 4 0 bs), de_reclen = le_dec (bslice 2 4 bs),
     de_file_type = bs ! 6, de_name = bslice 56 7 bs\<rparr>"

lemma length_enc_sb [simp]: "length (enc_sb b) = 64"
  by (simp add: enc_sb_def)

lemma length_enc_gd [simp]: "length (enc_gd g) = 20"
  by (simp add: enc_gd_def)

lemma length_enc_inode [simp]: "wf_inode i \<Longrightarrow> length (enc_inode i) = INODE_SIZE"
  by (simp add: enc_inode_def wf_inode_def)

lemma length_enc_dirent [simp]: "wf_dirent d \<Longrightarrow> length (enc_dirent d) = DIRENT_SIZE"
  by (simp add: enc_dirent_def wf_dirent_def)

lemma dec_enc_inode [simp]: "wf_inode i \<Longrightarrow> dec_inode (enc_inode i) = i"
  by (simp add: dec_inode_def enc_inode_def wf_inode_def bslice_def dec_enc_u32s_len)

lemma dec_enc_dirent [simp]: "wf_dirent d \<Longrightarrow> dec_dirent (enc_dirent d) = d"
  by (simp add: dec_dirent_def enc_dirent_def wf_dirent_def bslice_def nth_append)

lemma dec_u32s_prefix:
  assumes "length ws = n"
  shows "dec_u32s n (enc_u32s (ws @ zs) @ rest) = ws"
proof (rule nth_equalityI)
  show "length (dec_u32s n (enc_u32s (ws @ zs) @ rest)) = length ws" using assms by simp
  fix k
  assume "k < length (dec_u32s n (enc_u32s (ws @ zs) @ rest))"
  then have k: "k < n" by simp
  then have "bslice 4 (4 * k) (enc_u32s (ws @ zs) @ rest) = bslice 4 (4 * k) (enc_u32s (ws @ zs))"
    using assms by (simp add: bslice_def)
  with k assms show "dec_u32s n (enc_u32s (ws @ zs) @ rest) ! k = ws ! k"
    using bslice_enc_u32s [of k "ws @ zs"] by (simp add: dec_u32s_def nth_append)
qed

lemma dec_enc_gd [simp]: "dec_gd (enc_gd g @ rest) = g"
  using dec_u32s_prefix [of "[block_bitmap g, inode_bitmap g, inode_table g, free_blocks_count g,
       free_inodes_count g]" 5 "[]" rest]
  by (simp add: dec_gd_def enc_gd_def Let_def)

lemma dec_enc_sb [simp]: "dec_sb (enc_sb b @ rest) = b"
  using dec_u32s_prefix [of "[magic b, block_size b, blocks_count b, inodes_count b, free_blocks b,
       free_inodes b, first_data_block b, inode_table_start b, block_bitmap_blk b,
       inode_bitmap_blk b, root_ino b]" 11 "[0]" "le_enc 8 (mount_time b) @ le_enc 8 (write_time b) @ rest"]
  by (simp add: dec_sb_def enc_sb_def Let_def bslice_def)

lemma wf_dec_inode [simp]: "length bs = INODE_SIZE \<Longrightarrow> wf_inode (dec_inode bs)"
  by (simp add: wf_inode_def dec_inode_def bslice_def)

lemma wf_dec_dirent [simp]: "length bs = DIRENT_SIZE \<Longrightarrow> wf_dirent (dec_dirent bs)"
  by (simp add: wf_dirent_def dec_dirent_def bslice_def)

lemma dec_dirent_zero: "de_ino (dec_dirent (replicate 64 0)) = 0"
  by (simp add: dec_dirent_def bslice_def)

section \<open>The global state\<close>

text \<open>
  A host file (\<open>disk.img\<close>) is its length in bytes and its contents, kept by 512-byte
  blocks because every access of the device layer is one whole block at a multiple of
  512; the blocks past the end are those a hole reads as.
\<close>

record image =
  im_len :: nat
  im_blk :: "nat \<Rightarrow> bytes"

text \<open>
  The globals of \<open>dev.c\<close>, with the files of the host and the paths it refuses to open. \<open>g_dev\<close> is the path of the open host file. \<open>sb_slack\<close> and
  \<open>gd_slack\<close> are the 448 and 492 bytes that follow \<open>g_sb\<close> and \<open>g_gd\<close> in memory: the code
  transfers whole 512-byte blocks from and to these smaller objects, and the model gives
  the bytes past their ends a place of their own. \<open>clock\<close> answers the calls of
  \<open>time(NULL)\<close>, the \<open>tick\<close>-th call with \<open>clock tick\<close>.
\<close>

record fs =
  host :: "bytes \<Rightarrow> image option"
  denied :: "bytes \<Rightarrow> bool"
  g_dev :: "bytes option"
  g_sb :: superblock
  sb_slack :: bytes
  g_gd :: group_desc
  gd_slack :: bytes
  g_ofile :: "ofile list"
  g_cwd :: u32
  g_uid :: int
  g_user :: bytes
  clock :: "nat \<Rightarrow> u32"
  tick :: nat

text \<open>\<open>ts_now(&t)\<close> of \<open>util.c\<close>: the value stored and the state after the call.\<close>

definition ts_now :: "fs \<Rightarrow> u32 \<times> fs" where
  "ts_now s = (clock s (tick s), s\<lparr>tick := Suc (tick s)\<rparr>)"

end
