(* ===== verification/Device.thy ===== *)
theory Device
  imports Layout
begin

text \<open>
  \<open>project3/src/dev.c\<close>: opening and closing the disk image and the transfer of single
  blocks. A buffer the code would find uninitialised after a failed read is no value:
  \<open>dev_read_block\<close> returns \<open>None\<close> for \<open>FS_ERR\<close> and \<open>Some buf\<close> for \<open>FS_OK\<close>. The interface
  \<open>block_device\<close> is what the layers above rely on.
\<close>

section \<open>Host files\<close>

definition empty_image :: image where
  "empty_image = \<lparr>im_len = 0, im_blk = (\<lambda>_. replicate BLOCK_SIZE 0)\<rparr>"

text \<open>
  \<open>fopen\<close> in the two modes the code uses: \<open>"wb+"\<close> truncates or creates, \<open>"rb+"\<close> needs
  the file to exist. Either fails on a path the host refuses.
\<close>

definition host_fopen :: "bytes \<Rightarrow> bytes \<Rightarrow> fs \<Rightarrow> (bytes option) \<times> fs" where
  "host_fopen path m s =
     (if denied s path then (None, s)
      else if m = bytes_of ''wb+'' then (Some path, s\<lparr>host := (host s)(path \<mapsto> empty_image)\<rparr>)
      else if m = bytes_of ''rb+'' \<and> host s path \<noteq> None then (Some path, s)
      else (None, s))"

text \<open>\<open>fseek\<close> to block \<open>b\<close>, then \<open>fread\<close> of 512 bytes: a short count is a failure.\<close>

definition host_pread :: "image \<Rightarrow> nat \<Rightarrow> bytes option" where
  "host_pread im b = (if (b + 1) * BLOCK_SIZE \<le> im_len im then Some (im_blk im b) else None)"

definition host_pwrite :: "image \<Rightarrow> nat \<Rightarrow> bytes \<Rightarrow> image" where
  "host_pwrite im b buf =
     im\<lparr>im_len := max (im_len im) ((b + 1) * BLOCK_SIZE), im_blk := (im_blk im)(b := buf)\<rparr>"

section \<open>The operations of dev.c\<close>

definition dev_open :: "bytes \<Rightarrow> bytes \<Rightarrow> fs \<Rightarrow> int \<times> fs" where
  "dev_open path m s =
     (if g_dev s \<noteq> None then (FS_OK, s)
      else case host_fopen path m s of (d, s1) \<Rightarrow>
        (if d \<noteq> None then FS_OK else FS_ERR, s1\<lparr>g_dev := d\<rparr>))"

definition dev_close :: "fs \<Rightarrow> int \<times> fs" where
  "dev_close s = (if g_dev s = None then (FS_OK, s) else (FS_OK, s\<lparr>g_dev := None\<rparr>))"

definition dev_read_block :: "nat \<Rightarrow> fs \<Rightarrow> bytes option" where
  "dev_read_block b s =
     (case g_dev s of
        None \<Rightarrow> None
      | Some p \<Rightarrow>
          if b \<ge> TOTAL_BLOCKS then None
          else case host s p of None \<Rightarrow> None | Some im \<Rightarrow> host_pread im b)"

definition dev_write_block :: "bytes \<Rightarrow> nat \<Rightarrow> fs \<Rightarrow> int \<times> fs" where
  "dev_write_block buf b s =
     (case g_dev s of
        None \<Rightarrow> (FS_ERR, s)
      | Some p \<Rightarrow>
          if b \<ge> TOTAL_BLOCKS then (FS_ERR, s)
          else case host s p of
                 None \<Rightarrow> (FS_ERR, s)
               | Some im \<Rightarrow> (FS_OK, s\<lparr>host := (host s)(p \<mapsto> host_pwrite im b buf)\<rparr>))"

section \<open>A whole device\<close>

text \<open>An open image of full size: what \<open>fs_format\<close> leaves and \<open>fs_mount\<close> finds.\<close>

definition im_ok :: "image \<Rightarrow> bool" where
  "im_ok im \<longleftrightarrow> TOTAL_BLOCKS * BLOCK_SIZE \<le> im_len im \<and> (\<forall>b. length (im_blk im b) = BLOCK_SIZE)"

definition dev_ok :: "fs \<Rightarrow> bool" where
  "dev_ok s \<longleftrightarrow> (\<exists>p im. g_dev s = Some p \<and> host s p = Some im \<and> im_ok im)"

definition blk :: "fs \<Rightarrow> nat \<Rightarrow> bytes" where
  "blk s b = (case dev_read_block b s of Some buf \<Rightarrow> buf | None \<Rightarrow> [])"

definition put_blk :: "nat \<Rightarrow> bytes \<Rightarrow> fs \<Rightarrow> fs" where
  "put_blk b buf s = snd (dev_write_block buf b s)"

lemma dev_read_ok: "dev_ok s \<Longrightarrow> b < TOTAL_BLOCKS \<Longrightarrow> dev_read_block b s = Some (blk s b)"
  by (auto simp: dev_ok_def blk_def dev_read_block_def host_pread_def im_ok_def)

lemma length_blk [simp]: "dev_ok s \<Longrightarrow> b < TOTAL_BLOCKS \<Longrightarrow> length (blk s b) = BLOCK_SIZE"
  by (auto simp: dev_ok_def blk_def dev_read_block_def host_pread_def im_ok_def)

lemma dev_write_ok: "dev_ok s \<Longrightarrow> b < TOTAL_BLOCKS \<Longrightarrow> dev_write_block buf b s = (FS_OK, put_blk b buf s)"
  by (auto simp: dev_ok_def put_blk_def dev_write_block_def)

lemma dev_write_snd: "snd (dev_write_block buf b s) = put_blk b buf s"
  by (simp add: put_blk_def)

lemma dev_ok_put_blk [simp]:
  "dev_ok s \<Longrightarrow> length buf = BLOCK_SIZE \<Longrightarrow> dev_ok (put_blk b buf s)"
  by (auto simp: dev_ok_def put_blk_def dev_write_block_def im_ok_def host_pwrite_def)

lemma blk_put_blk [simp]:
  "dev_ok s \<Longrightarrow> b < TOTAL_BLOCKS \<Longrightarrow> b' < TOTAL_BLOCKS \<Longrightarrow>
   blk (put_blk b buf s) b' = (if b' = b then buf else blk s b')"
  by (auto simp: dev_ok_def put_blk_def dev_write_block_def im_ok_def host_pwrite_def blk_def
      dev_read_block_def host_pread_def)

text \<open>A block write touches nothing of the state but the image.\<close>

lemma put_blk_frame [simp, frame_simps]:
  "g_dev (put_blk b buf s) = g_dev s" "g_sb (put_blk b buf s) = g_sb s"
  "sb_slack (put_blk b buf s) = sb_slack s" "g_gd (put_blk b buf s) = g_gd s"
  "gd_slack (put_blk b buf s) = gd_slack s" "g_ofile (put_blk b buf s) = g_ofile s"
  "g_cwd (put_blk b buf s) = g_cwd s" "g_uid (put_blk b buf s) = g_uid s"
  "g_user (put_blk b buf s) = g_user s" "clock (put_blk b buf s) = clock s"
  "tick (put_blk b buf s) = tick s"
  by (auto simp: put_blk_def dev_write_block_def split: option.split)

text \<open>Updates of the other globals leave the device alone.\<close>

lemma dev_ok_update [simp, frame_simps]:
  "dev_ok (g_sb_update f1 s) = dev_ok s" "dev_ok (g_gd_update f2 s) = dev_ok s"
  "dev_ok (sb_slack_update f3 s) = dev_ok s" "dev_ok (gd_slack_update f4 s) = dev_ok s"
  "dev_ok (g_ofile_update f5 s) = dev_ok s" "dev_ok (g_cwd_update f6 s) = dev_ok s"
  "dev_ok (g_uid_update f7 s) = dev_ok s" "dev_ok (g_user_update f8 s) = dev_ok s"
  "dev_ok (tick_update f9 s) = dev_ok s" "dev_ok (clock_update f10 s) = dev_ok s"
  by (simp_all add: dev_ok_def)

lemma blk_update [simp, frame_simps]:
  "blk (g_sb_update f1 s) = blk s" "blk (g_gd_update f2 s) = blk s"
  "blk (sb_slack_update f3 s) = blk s" "blk (gd_slack_update f4 s) = blk s"
  "blk (g_ofile_update f5 s) = blk s" "blk (g_cwd_update f6 s) = blk s"
  "blk (g_uid_update f7 s) = blk s" "blk (g_user_update f8 s) = blk s"
  "blk (tick_update f9 s) = blk s" "blk (clock_update f10 s) = blk s"
  by (simp_all add: fun_eq_iff blk_def dev_read_block_def split: option.split)

section \<open>The interface of the device layer\<close>

text \<open>
  The contract of a block device: a good state answers every read of a block below
  \<open>nblk\<close> with a whole block, a write of a whole block succeeds, is read back, disturbs no
  other block and leaves the state good. Its client here is the read-modify-write of part
  of a block, by which inodes, bitmaps and directory entries are stored.
\<close>

locale block_device =
  fixes rd :: "nat \<Rightarrow> 's \<Rightarrow> bytes option"
    and wr :: "bytes \<Rightarrow> nat \<Rightarrow> 's \<Rightarrow> int \<times> 's"
    and good :: "'s \<Rightarrow> bool"
    and nblk :: nat
  assumes rd_total: "good s \<Longrightarrow> b < nblk \<Longrightarrow> \<exists>buf. rd b s = Some buf \<and> length buf = BLOCK_SIZE"
    and wr_total: "good s \<Longrightarrow> b < nblk \<Longrightarrow> length buf = BLOCK_SIZE \<Longrightarrow>
          \<exists>s'. wr buf b s = (FS_OK, s') \<and> good s'"
    and rd_wr: "good s \<Longrightarrow> b < nblk \<Longrightarrow> c < nblk \<Longrightarrow> length buf = BLOCK_SIZE \<Longrightarrow>
          wr buf b s = (r, s') \<Longrightarrow> rd c s' = (if c = b then Some buf else rd c s)"
begin

lemma rmw_step:
  assumes "good s" and "b < nblk" and "rd b s = Some old" and "off + length d \<le> BLOCK_SIZE"
  obtains s' where "wr (splice_at old off d) b s = (FS_OK, s')" and "good s'"
    and "rd b s' = Some (splice_at old off d)"
    and "\<And>c. c < nblk \<Longrightarrow> c \<noteq> b \<Longrightarrow> rd c s' = rd c s"
proof -
  have "length old = BLOCK_SIZE" using rd_total [OF assms(1,2)] assms(3) by auto
  with assms(4) have len: "length (splice_at old off d) = BLOCK_SIZE" by (simp add: slice_simps)
  from wr_total [OF assms(1,2) len] obtain s'
    where s': "wr (splice_at old off d) b s = (FS_OK, s')" "good s'" by blast
  show thesis
    by (rule that [OF s']) (use rd_wr [OF assms(1,2) _ len s'(1)] assms(2) in auto)
qed

lemma rmw_slice:
  assumes "good s" and "b < nblk" and "rd b s = Some old" and "off + length d \<le> BLOCK_SIZE"
    and "wr (splice_at old off d) b s = (r, s')"
  shows "r = FS_OK" and "map_option (bslice (length d) off) (rd b s') = Some d"
    and "off' + n \<le> off \<or> off + length d \<le> off' \<Longrightarrow>
         map_option (bslice n off') (rd b s') = map_option (bslice n off') (rd b s)"
proof -
  have lo: "length old = BLOCK_SIZE" using rd_total [OF assms(1,2)] assms(3) by auto
  obtain t where t: "wr (splice_at old off d) b s = (FS_OK, t)" "rd b t = Some (splice_at old off d)"
    using rmw_step [OF assms(1-4)] by metis
  with assms(5) have [simp]: "r = FS_OK" "s' = t" by auto
  show "r = FS_OK" by simp
  show "map_option (bslice (length d) off) (rd b s') = Some d"
    using t lo assms(4) by (simp add: slice_simps)
  show "off' + n \<le> off \<or> off + length d \<le> off' \<Longrightarrow>
         map_option (bslice n off') (rd b s') = map_option (bslice n off') (rd b s)"
    using t lo assms(3,4) by (simp add: slice_simps)
qed

end

interpretation disk: block_device dev_read_block dev_write_block dev_ok TOTAL_BLOCKS
proof unfold_locales
  show "dev_ok s \<Longrightarrow> b < TOTAL_BLOCKS \<Longrightarrow> \<exists>buf. dev_read_block b s = Some buf \<and> length buf = BLOCK_SIZE" for s b
    by (simp add: dev_read_ok)
  show "dev_ok s \<Longrightarrow> b < TOTAL_BLOCKS \<Longrightarrow> length buf = BLOCK_SIZE \<Longrightarrow>
          \<exists>s'. dev_write_block buf b s = (FS_OK, s') \<and> dev_ok s'" for s b buf
    by (simp add: dev_write_ok)
  show "dev_ok s \<Longrightarrow> b < TOTAL_BLOCKS \<Longrightarrow> c < TOTAL_BLOCKS \<Longrightarrow> length buf = BLOCK_SIZE \<Longrightarrow>
          dev_write_block buf b s = (r, s') \<Longrightarrow>
          dev_read_block c s' = (if c = b then Some buf else dev_read_block c s)" for s b c buf r s'
    by (auto simp: dev_write_ok dev_read_ok)
qed

end
