(* ===== verification/Bitmap.thy ===== *)
theory Bitmap
  imports Device
begin

text \<open>
  \<open>project3/src/bitmap.c\<close>: the block and inode bitmaps, allocation and release. An
  operation returns \<open>None\<close> where the outcome is not determined by the source: an access
  outside a 512-byte bitmap buffer, or the use of a buffer whose read failed. The block
  bitmap is one block, 4096 bits, while block numbers run to 4610, so such accesses are
  part of the code's behaviour.
\<close>

section \<open>Bit operations on one bitmap block\<close>

text \<open>\<open>bitop(bm, idx, set, val)\<close>: the returned \<open>int\<close> and the buffer afterwards.\<close>

definition bitop :: "bytes \<Rightarrow> nat \<Rightarrow> bool \<Rightarrow> bool \<Rightarrow> (int \<times> bytes) option" where
  "bitop bm idx set_it val =
     (let byte = idx div 8; b = idx mod 8 in
      if byte \<ge> length bm then None
      else if set_it
        then if val then Some (0, bm[byte := (bm ! byte) OR push_bit b 1])
             else Some (0, bm[byte := (bm ! byte) AND NOT (push_bit b 1)])
        else Some (uint (drop_bit b (bm ! byte) AND 1), bm))"

definition bm_bit :: "bytes \<Rightarrow> nat \<Rightarrow> bool" where
  "bm_bit bm i \<longleftrightarrow> i div 8 < length bm \<and> bit (bm ! (i div 8)) (i mod 8)"

lemma byte_test: "uint (drop_bit b (w :: u8) AND 1) = of_bool (bit w b)"
  by (simp add: and_one_eq odd_iff_mod_2_eq_one bit_iff_odd_drop_bit)

lemma bitop_test_eq: "i div 8 < length bm \<Longrightarrow> bitop bm i False v = Some (of_bool (bm_bit bm i), bm)"
  by (simp add: bitop_def bm_bit_def byte_test)

lemma div_mod_8_eq: "j div 8 = i div 8 \<Longrightarrow> j mod 8 = i mod 8 \<Longrightarrow> j = (i::nat)"
  by (metis div_mult_mod_eq)

lemma bm_bit_set:
  assumes "i div 8 < length bm"
  shows "bm_bit (bm[i div 8 := (bm ! (i div 8)) OR push_bit (i mod 8) 1]) j \<longleftrightarrow> j = i \<or> bm_bit bm j"
  using assms
  by (auto simp: bm_bit_def nth_list_update bit_or_iff bit_exp_iff possible_bit_word dest: div_mod_8_eq)

lemma bm_bit_clear:
  assumes "i div 8 < length bm"
  shows "bm_bit (bm[i div 8 := (bm ! (i div 8)) AND NOT (push_bit (i mod 8) 1)]) j \<longleftrightarrow> j \<noteq> i \<and> bm_bit bm j"
  using assms
  by (auto simp: bm_bit_def nth_list_update bit_and_iff bit_not_iff bit_exp_iff possible_bit_word
      dest: div_mod_8_eq bit_imp_le_length)

section \<open>The operations of bitmap.c\<close>

definition bmap_blk :: "bool \<Rightarrow> fs \<Rightarrow> nat" where
  "bmap_blk is_block s = unat (if is_block then block_bitmap_blk (g_sb s) else inode_bitmap_blk (g_sb s))"

definition bmap_test :: "nat \<Rightarrow> bool \<Rightarrow> fs \<Rightarrow> int option" where
  "bmap_test idx is_block s = do {
     buf \<leftarrow> dev_read_block (bmap_blk is_block s) s;
     (r, _) \<leftarrow> bitop buf idx False False;
     Some r }"

definition bmap_set :: "nat \<Rightarrow> bool \<Rightarrow> bool \<Rightarrow> fs \<Rightarrow> (int \<times> fs) option" where
  "bmap_set idx is_block val s = do {
     buf \<leftarrow> dev_read_block (bmap_blk is_block s) s;
     (_, buf') \<leftarrow> bitop buf idx True val;
     Some (dev_write_block buf' (bmap_blk is_block s) s) }"

text \<open>
  The scan of both allocators, from \<open>i\<close> up to \<open>lim\<close> exclusive, for a clear bit:
  \<open>Some (Some i)\<close> is the first one, \<open>Some None\<close> none, \<open>None\<close> a read past the buffer.
\<close>

function find_clear :: "bytes \<Rightarrow> nat \<Rightarrow> nat \<Rightarrow> nat option option" where
  "find_clear bm i lim =
     (if i \<ge> lim then Some None
      else if i div 8 \<ge> length bm then None
      else if drop_bit (i mod 8) (bm ! (i div 8)) AND 1 = 0 then Some (Some i)
      else find_clear bm (Suc i) lim)"
  by pat_completeness auto
termination
  by (relation "measure (\<lambda>(bm, i, lim). lim - i)") auto

declare find_clear.simps [simp del]

text \<open>
  \<open>dev_write_block(&g_sb, BLK_SUPER)\<close> and \<open>dev_write_block(&g_gd, BLK_GDESC)\<close>: 512 bytes
  starting at the object, with the return value ignored.
\<close>

definition sync_sb :: "fs \<Rightarrow> fs" where
  "sync_sb s = snd (dev_write_block (enc_sb (g_sb s) @ sb_slack s) BLK_SUPER s)"

definition sync_gd :: "fs \<Rightarrow> fs" where
  "sync_gd s = snd (dev_write_block (enc_gd (g_gd s) @ gd_slack s) BLK_GDESC s)"

definition set_free_blocks :: "(u32 \<Rightarrow> u32) \<Rightarrow> fs \<Rightarrow> fs" where
  "set_free_blocks f s =
     (let s1 = sync_sb (s\<lparr>g_sb := (g_sb s)\<lparr>free_blocks := f (free_blocks (g_sb s))\<rparr>\<rparr>) in
      sync_gd (s1\<lparr>g_gd := (g_gd s1)\<lparr>free_blocks_count := f (free_blocks_count (g_gd s1))\<rparr>\<rparr>))"

definition set_free_inodes :: "(u32 \<Rightarrow> u32) \<Rightarrow> fs \<Rightarrow> fs" where
  "set_free_inodes f s =
     (let s1 = sync_sb (s\<lparr>g_sb := (g_sb s)\<lparr>free_inodes := f (free_inodes (g_sb s))\<rparr>\<rparr>) in
      sync_gd (s1\<lparr>g_gd := (g_gd s1)\<lparr>free_inodes_count := f (free_inodes_count (g_gd s1))\<rparr>\<rparr>))"

definition alloc_block :: "fs \<Rightarrow> (int \<times> fs) option" where
  "alloc_block s =
     (case dev_read_block (bmap_blk True s) s of
        None \<Rightarrow> Some (FS_ERR, s)
      | Some bm \<Rightarrow> do {
          r \<leftarrow> find_clear bm BLK_DATA_START TOTAL_BLOCKS;
          case r of
            None \<Rightarrow> Some (FS_ENOSPC, s)
          | Some i \<Rightarrow>
              let (rc, s1) = dev_write_block (bm[i div 8 := (bm ! (i div 8)) OR push_bit (i mod 8) 1])
                               (bmap_blk True s) s in
              if rc \<noteq> FS_OK then Some (FS_ERR, s1)
              else Some (int i, set_free_blocks (\<lambda>n. n - 1) s1) })"

definition free_block :: "nat \<Rightarrow> fs \<Rightarrow> fs option" where
  "free_block b s =
     (if b < BLK_DATA_START \<or> b \<ge> TOTAL_BLOCKS then Some s
      else do {
        t \<leftarrow> bmap_test b True s;
        if t = 0 then Some s
        else do {
          (_, s1) \<leftarrow> bmap_set b True False s;
          Some (set_free_blocks (\<lambda>n. n + 1) s1) } })"

definition alloc_inode :: "fs \<Rightarrow> (int \<times> fs) option" where
  "alloc_inode s =
     (case dev_read_block (bmap_blk False s) s of
        None \<Rightarrow> Some (FS_ERR, s)
      | Some bm \<Rightarrow> do {
          r \<leftarrow> find_clear bm 1 (MAX_INODES + 1);
          case r of
            None \<Rightarrow> Some (FS_ENOSPC, s)
          | Some i \<Rightarrow>
              let (rc, s1) = dev_write_block (bm[i div 8 := (bm ! (i div 8)) OR push_bit (i mod 8) 1])
                               (bmap_blk False s) s in
              if rc \<noteq> FS_OK then Some (FS_ERR, s1)
              else Some (int i, set_free_inodes (\<lambda>n. n - 1) s1) })"

definition free_inode :: "nat \<Rightarrow> fs \<Rightarrow> fs option" where
  "free_inode ino s =
     (if ino = 0 \<or> ino > MAX_INODES then Some s
      else do {
        t \<leftarrow> bmap_test ino False s;
        if t = 0 then Some s
        else do {
          (_, s1) \<leftarrow> bmap_set ino False False s;
          Some (set_free_inodes (\<lambda>n. n + 1) s1) } })"

section \<open>The mounted volume\<close>

text \<open>
  What \<open>fs_format\<close> writes and \<open>fs_mount\<close> loads of the superblock, on a whole device.
\<close>

definition vol_ok :: "fs \<Rightarrow> bool" where
  "vol_ok s \<longleftrightarrow> dev_ok s \<and> length (sb_slack s) = 448 \<and> length (gd_slack s) = 492 \<and>
     block_bitmap_blk (g_sb s) = 3 \<and> inode_bitmap_blk (g_sb s) = 4 \<and>
     inode_table_start (g_sb s) = 5 \<and> root_ino (g_sb s) = 1 \<and>
     magic (g_sb s) = FS_MAGIC \<and> block_size (g_sb s) = of_nat BLOCK_SIZE"

definition blk_used :: "fs \<Rightarrow> nat \<Rightarrow> bool" where
  "blk_used s i = bm_bit (blk s BLK_BMAP) i"

definition ino_used :: "fs \<Rightarrow> nat \<Rightarrow> bool" where
  "ino_used s i = bm_bit (blk s BLK_IMAP) i"

text \<open>Everything but the image, the counters and the clock's position is as before.\<close>

definition same_session :: "fs \<Rightarrow> fs \<Rightarrow> bool" where
  "same_session s t \<longleftrightarrow> g_ofile t = g_ofile s \<and> g_cwd t = g_cwd s \<and> g_uid t = g_uid s \<and>
     g_user t = g_user s \<and> clock t = clock s \<and> g_dev t = g_dev s"

lemma same_session_refl [simp]: "same_session s s"
  by (simp add: same_session_def)

lemma same_session_trans [trans]: "same_session s t \<Longrightarrow> same_session t u \<Longrightarrow> same_session s u"
  by (simp add: same_session_def)

lemma same_session_put_blk [simp]:
  "same_session s (put_blk b buf t) = same_session s t" "same_session (put_blk b buf s) t = same_session s t"
  "same_session s (g_sb_update f1 t) = same_session s t" "same_session s (g_gd_update f2 t) = same_session s t"
  "same_session s (tick_update f3 t) = same_session s t"
  by (simp_all add: same_session_def)

lemma vol_okD:
  assumes "vol_ok s"
  shows "dev_ok s" "length (sb_slack s) = 448" "length (gd_slack s) = 492"
    "block_bitmap_blk (g_sb s) = 3" "inode_bitmap_blk (g_sb s) = 4" "inode_table_start (g_sb s) = 5"
    "root_ino (g_sb s) = 1" "bmap_blk True s = BLK_BMAP" "bmap_blk False s = BLK_IMAP"
    "magic (g_sb s) = FS_MAGIC" "block_size (g_sb s) = of_nat BLOCK_SIZE"
  using assms by (simp_all add: vol_ok_def bmap_blk_def)

lemma vol_ok_update [simp, frame_simps]:
  "vol_ok (g_ofile_update f1 s) = vol_ok s" "vol_ok (g_cwd_update f2 s) = vol_ok s"
  "vol_ok (g_uid_update f3 s) = vol_ok s" "vol_ok (g_user_update f4 s) = vol_ok s"
  "vol_ok (tick_update f5 s) = vol_ok s"
  by (simp_all add: vol_ok_def)

lemma vol_ok_put_blk [simp]: "vol_ok s \<Longrightarrow> length buf = BLOCK_SIZE \<Longrightarrow> vol_ok (put_blk b buf s)"
  by (simp add: vol_ok_def)

lemma used_frame [simp, frame_simps]:
  "blk_used (g_ofile_update f1 s) = blk_used s" "ino_used (g_ofile_update f1 s) = ino_used s"
  "blk_used (tick_update f2 s) = blk_used s" "ino_used (tick_update f2 s) = ino_used s"
  "blk_used (g_uid_update f3 s) = blk_used s" "ino_used (g_uid_update f3 s) = ino_used s"
  "blk_used (g_user_update f4 s) = blk_used s" "ino_used (g_user_update f4 s) = ino_used s"
  "blk_used (g_cwd_update f5 s) = blk_used s" "ino_used (g_cwd_update f5 s) = ino_used s"
  by (simp_all add: fun_eq_iff blk_used_def ino_used_def)

text \<open>The counters live in blocks 1 and 2 and nowhere else.\<close>

lemma set_free_blocks_props:
  assumes "vol_ok s"
  shows "vol_ok (set_free_blocks f s)"
    "b < TOTAL_BLOCKS \<Longrightarrow> b \<noteq> BLK_SUPER \<Longrightarrow> b \<noteq> BLK_GDESC \<Longrightarrow> blk (set_free_blocks f s) b = blk s b"
    "same_session s (set_free_blocks f s)" "tick (set_free_blocks f s) = tick s"
    "g_sb (set_free_blocks f s) = (g_sb s)\<lparr>free_blocks := f (free_blocks (g_sb s))\<rparr>"
    "g_gd (set_free_blocks f s) = (g_gd s)\<lparr>free_blocks_count := f (free_blocks_count (g_gd s))\<rparr>"
  using assms
  by (simp_all add: set_free_blocks_def sync_sb_def sync_gd_def Let_def dev_write_snd vol_ok_def)

lemma set_free_inodes_props:
  assumes "vol_ok s"
  shows "vol_ok (set_free_inodes f s)"
    "b < TOTAL_BLOCKS \<Longrightarrow> b \<noteq> BLK_SUPER \<Longrightarrow> b \<noteq> BLK_GDESC \<Longrightarrow> blk (set_free_inodes f s) b = blk s b"
    "same_session s (set_free_inodes f s)" "tick (set_free_inodes f s) = tick s"
    "g_sb (set_free_inodes f s) = (g_sb s)\<lparr>free_inodes := f (free_inodes (g_sb s))\<rparr>"
    "g_gd (set_free_inodes f s) = (g_gd s)\<lparr>free_inodes_count := f (free_inodes_count (g_gd s))\<rparr>"
  using assms
  by (simp_all add: set_free_inodes_def sync_sb_def sync_gd_def Let_def dev_write_snd vol_ok_def)

section \<open>The scan\<close>

lemma find_clear_Some:
  "find_clear bm i lim = Some (Some j) \<Longrightarrow>
   i \<le> j \<and> j < lim \<and> j div 8 < length bm \<and> \<not> bm_bit bm j \<and> (\<forall>k. i \<le> k \<and> k < j \<longrightarrow> bm_bit bm k)"
proof (induction bm i lim rule: find_clear.induct)
  case (1 bm i lim)
  show ?case
  proof (cases "i < lim \<and> i div 8 < length bm \<and> bm_bit bm i")
    case True
    then have n: "drop_bit (i mod 8) (bm ! (i div 8)) AND 1 \<noteq> 0"
      using byte_test [of "i mod 8" "bm ! (i div 8)"] by (auto simp: bm_bit_def)
    with True "1.prems" have rec: "find_clear bm (Suc i) lim = Some (Some j)"
      by (subst (asm) find_clear.simps) auto
    with True n have "Suc i \<le> j \<and> j < lim \<and> j div 8 < length bm \<and> \<not> bm_bit bm j \<and>
        (\<forall>k. Suc i \<le> k \<and> k < j \<longrightarrow> bm_bit bm k)"
      by (intro "1.IH") auto
    with True show ?thesis by (metis Suc_leD Suc_leI le_neq_implies_less)
  next
    case False
    with "1.prems" have "i < lim \<and> i div 8 < length bm \<and> \<not> bm_bit bm i"
      by (subst (asm) find_clear.simps) (auto split: if_splits)
    moreover from this have "drop_bit (i mod 8) (bm ! (i div 8)) AND 1 = 0"
      using byte_test [of "i mod 8" "bm ! (i div 8)"]
      by (metis bm_bit_def of_bool_eq(1) uint_0_iff)
    ultimately show ?thesis using "1.prems" by (subst (asm) find_clear.simps) auto
  qed
qed

lemma find_clear_skip:
  "i < lim \<Longrightarrow> bm_bit bm i \<Longrightarrow> find_clear bm i lim = find_clear bm (Suc i) lim"
  using byte_test [of "i mod 8" "bm ! (i div 8)"]
  by (subst find_clear.simps) (auto simp: bm_bit_def)

lemma find_clear_hit:
  assumes "i < lim" and "i div 8 < length bm" and "\<not> bm_bit bm i"
  shows "find_clear bm i lim = Some (Some i)"
proof -
  have "uint (drop_bit (i mod 8) (bm ! (i div 8)) AND 1) = 0"
    using assms by (simp add: byte_test bm_bit_def)
  then have "drop_bit (i mod 8) (bm ! (i div 8)) AND 1 = 0" by (simp add: uint_0_iff)
  with assms show ?thesis by (subst find_clear.simps) simp
qed

lemma find_clear_run:
  assumes "i \<le> j" and "j \<le> lim" and "\<And>k. i \<le> k \<Longrightarrow> k < j \<Longrightarrow> bm_bit bm k"
  shows "find_clear bm i lim = find_clear bm j lim"
  using assms
proof (induction "j - i" arbitrary: i)
  case 0
  then show ?case by simp
next
  case (Suc n)
  then have "find_clear bm i lim = find_clear bm (Suc i) lim" by (intro find_clear_skip) auto
  also have "\<dots> = find_clear bm j lim" using Suc by (intro Suc.hyps(1)) auto
  finally show ?case .
qed

text \<open>The first clear bit is found, wherever it is.\<close>

lemma find_clear_first:
  assumes "i \<le> j" and "j < lim" and "j div 8 < length bm" and "\<not> bm_bit bm j"
    and "\<And>k. i \<le> k \<Longrightarrow> k < j \<Longrightarrow> bm_bit bm k"
  shows "find_clear bm i lim = Some (Some j)"
  using find_clear_run [of i j lim bm] find_clear_hit [of j lim bm] assms by simp

lemma find_clear_full:
  assumes "i \<le> lim" and "\<And>k. i \<le> k \<Longrightarrow> k < lim \<Longrightarrow> bm_bit bm k"
  shows "find_clear bm i lim = Some None"
  using find_clear_run [of i lim lim bm] assms by (simp add: find_clear.simps [of bm lim lim])

lemma find_clear_overrun:
  assumes "i \<le> 8 * length bm" and "8 * length bm < lim"
    and "\<And>k. i \<le> k \<Longrightarrow> k < 8 * length bm \<Longrightarrow> bm_bit bm k"
  shows "find_clear bm i lim = None"
  using find_clear_run [of i "8 * length bm" lim bm] assms
  by (simp add: find_clear.simps [of bm "8 * length bm" lim])

section \<open>What the operations do on a mounted volume\<close>

text \<open>
  \<open>bit_step u v i x s t\<close>: the volume went from \<open>s\<close> to \<open>t\<close> by making bit \<open>i\<close> of the
  bitmap \<open>u\<close> equal to \<open>x\<close>; the other bitmap \<open>v\<close>, every block that is neither a bitmap nor
  a counter block, and the session are as before, and the counters on the disk are those
  in memory.
\<close>

definition meta_synced :: "fs \<Rightarrow> bool" where
  "meta_synced s \<longleftrightarrow> blk s BLK_SUPER = enc_sb (g_sb s) @ sb_slack s \<and>
     blk s BLK_GDESC = enc_gd (g_gd s) @ gd_slack s"

definition bit_step :: "(fs \<Rightarrow> nat \<Rightarrow> bool) \<Rightarrow> (fs \<Rightarrow> nat \<Rightarrow> bool) \<Rightarrow> nat \<Rightarrow> bool \<Rightarrow> fs \<Rightarrow> fs \<Rightarrow> bool" where
  "bit_step u v i x s t \<longleftrightarrow> vol_ok t \<and> u t = (u s)(i := x) \<and> v t = v s \<and> same_session s t \<and>
     tick t = tick s \<and> meta_synced t \<and>
     (\<forall>b. BLK_IMAP < b \<and> b < TOTAL_BLOCKS \<longrightarrow> blk t b = blk s b)"

lemma bit_stepD:
  assumes "bit_step u v i x s t"
  shows "vol_ok t" "u t = (u s)(i := x)" "v t = v s" "same_session s t" "tick t = tick s"
    "meta_synced t" "\<And>b. BLK_IMAP < b \<Longrightarrow> b < TOTAL_BLOCKS \<Longrightarrow> blk t b = blk s b"
  using assms by (simp_all add: bit_step_def)

lemma set_free_blocks_synced: "vol_ok s \<Longrightarrow> meta_synced (set_free_blocks f s)"
  by (simp add: meta_synced_def set_free_blocks_def sync_sb_def sync_gd_def Let_def dev_write_snd vol_ok_def)

lemma set_free_inodes_synced: "vol_ok s \<Longrightarrow> meta_synced (set_free_inodes f s)"
  by (simp add: meta_synced_def set_free_inodes_def sync_sb_def sync_gd_def Let_def dev_write_snd vol_ok_def)

text \<open>Writing back a bitmap with one changed byte and adjusting the counters.\<close>

lemma write_bmap_step:
  assumes "vol_ok s" and "length bm' = BLOCK_SIZE"
    and "\<And>j. bm_bit bm' j = (if j = i then x else bm_bit (blk s BLK_BMAP) j)"
  shows "bit_step blk_used ino_used i x s (set_free_blocks f (put_blk BLK_BMAP bm' s))"
proof -
  have v: "vol_ok (put_blk BLK_BMAP bm' s)" using assms(1,2) by simp
  note p = set_free_blocks_props [OF v, where f = f]
  show ?thesis
    using assms p set_free_blocks_synced [OF v, of f] vol_okD(1) [OF assms(1)]
    by (auto simp: bit_step_def blk_used_def ino_used_def fun_eq_iff)
qed

lemma write_imap_step:
  assumes "vol_ok s" and "length bm' = BLOCK_SIZE"
    and "\<And>j. bm_bit bm' j = (if j = i then x else bm_bit (blk s BLK_IMAP) j)"
  shows "bit_step ino_used blk_used i x s (set_free_inodes f (put_blk BLK_IMAP bm' s))"
proof -
  have v: "vol_ok (put_blk BLK_IMAP bm' s)" using assms(1,2) by simp
  note p = set_free_inodes_props [OF v, where f = f]
  show ?thesis
    using assms p set_free_inodes_synced [OF v, of f] vol_okD(1) [OF assms(1)]
    by (auto simp: bit_step_def blk_used_def ino_used_def fun_eq_iff)
qed

lemma bmap_test_ok:
  assumes "vol_ok s" and "i < 4096"
  shows "bmap_test i True s = Some (of_bool (blk_used s i))"
    "bmap_test i False s = Some (of_bool (ino_used s i))"
  using assms vol_okD [OF assms(1)]
  by (simp_all add: bmap_test_def dev_read_ok bitop_test_eq blk_used_def ino_used_def
      div_less_iff_less_mult)

lemma bmap_test_overrun: "vol_ok s \<Longrightarrow> 4096 \<le> i \<Longrightarrow> bmap_test i True s = None"
  using div_le_mono [of 4096 i 8]
  by (simp add: bmap_test_def vol_okD dev_read_ok bitop_def Let_def)

text \<open>Allocation takes the first free number; with none below 4096 it runs off the bitmap.\<close>

lemma alloc_block_takes:
  assumes v: "vol_ok s" and i: "BLK_DATA_START \<le> i" "i < 4096" and free: "\<not> blk_used s i"
    and least: "\<And>k. BLK_DATA_START \<le> k \<Longrightarrow> k < i \<Longrightarrow> blk_used s k"
  obtains t where "alloc_block s = Some (int i, t)" and "bit_step blk_used ino_used i True s t"
    and "g_sb t = (g_sb s)\<lparr>free_blocks := free_blocks (g_sb s) - 1\<rparr>"
    and "g_gd t = (g_gd s)\<lparr>free_blocks_count := free_blocks_count (g_gd s) - 1\<rparr>"
proof -
  let ?bm = "blk s BLK_BMAP"
  let ?bm' = "?bm[i div 8 := (?bm ! (i div 8)) OR push_bit (i mod 8) 1]"
  have len: "i div 8 < length ?bm" using v i by (simp add: vol_okD div_less_iff_less_mult)
  have scan: "find_clear ?bm BLK_DATA_START TOTAL_BLOCKS = Some (Some i)"
    using i len free least by (intro find_clear_first) (auto simp: blk_used_def)
  have v': "vol_ok (put_blk BLK_BMAP ?bm' s)" using v by (simp add: vol_okD)
  show thesis
  proof
    show "alloc_block s = Some (int i, set_free_blocks (\<lambda>n. n - 1) (put_blk BLK_BMAP ?bm' s))"
      using v scan by (simp add: alloc_block_def vol_okD dev_read_ok dev_write_ok)
    show "bit_step blk_used ino_used i True s (set_free_blocks (\<lambda>n. n - 1) (put_blk BLK_BMAP ?bm' s))"
      using v len bm_bit_set [OF len] by (intro write_bmap_step) (auto simp: vol_okD)
  qed (use set_free_blocks_props(5,6) [OF v'] in auto)
qed

lemma alloc_block_full:
  assumes "vol_ok s" and "\<And>k. BLK_DATA_START \<le> k \<Longrightarrow> k < 4096 \<Longrightarrow> blk_used s k"
  shows "alloc_block s = None"
proof -
  have "find_clear (blk s BLK_BMAP) BLK_DATA_START TOTAL_BLOCKS = None"
    using assms by (intro find_clear_overrun) (auto simp: vol_okD blk_used_def)
  with assms show ?thesis by (simp add: alloc_block_def vol_okD dev_read_ok)
qed

lemma least_free:
  assumes "(lo::nat) \<le> i" and "\<not> P i"
  obtains j where "lo \<le> j" "j \<le> i" "\<not> P j" "\<And>k. lo \<le> k \<Longrightarrow> k < j \<Longrightarrow> P k"
proof
  let ?j = "LEAST j. lo \<le> j \<and> \<not> P j"
  have "lo \<le> ?j \<and> \<not> P ?j" using assms LeastI [of "\<lambda>j. lo \<le> j \<and> \<not> P j" i] by simp
  then show "lo \<le> ?j" "\<not> P ?j" by auto
  show "?j \<le> i" using assms Least_le [of "\<lambda>j. lo \<le> j \<and> \<not> P j" i] by simp
  show "P k" if "lo \<le> k" "k < ?j" for k using not_less_Least [OF that(2)] that(1) by auto
qed

lemma alloc_block_cases:
  assumes v: "vol_ok s" and a: "alloc_block s = Some (r, t)"
  obtains i where "r = int i" "BLK_DATA_START \<le> i" "i < 4096" "\<not> blk_used s i"
    "bit_step blk_used ino_used i True s t"
    "\<And>k. BLK_DATA_START \<le> k \<Longrightarrow> k < i \<Longrightarrow> blk_used s k"
    "g_sb t = (g_sb s)\<lparr>free_blocks := free_blocks (g_sb s) - 1\<rparr>"
    "g_gd t = (g_gd s)\<lparr>free_blocks_count := free_blocks_count (g_gd s) - 1\<rparr>"
proof -
  obtain i where i: "BLK_DATA_START \<le> i" "i < 4096" "\<not> blk_used s i"
    using alloc_block_full [OF v] a by (metis not_Some_eq)
  obtain j where j: "BLK_DATA_START \<le> j" "j \<le> i" "\<not> blk_used s j"
    "\<And>k. BLK_DATA_START \<le> k \<Longrightarrow> k < j \<Longrightarrow> blk_used s k"
    by (rule least_free [OF i(1), of "blk_used s", OF i(3)]) blast
  obtain t' where "alloc_block s = Some (int j, t')" "bit_step blk_used ino_used j True s t'"
    "g_sb t' = (g_sb s)\<lparr>free_blocks := free_blocks (g_sb s) - 1\<rparr>"
    "g_gd t' = (g_gd s)\<lparr>free_blocks_count := free_blocks_count (g_gd s) - 1\<rparr>"
    by (rule alloc_block_takes [OF v j(1) _ j(3,4)]) (use i(2) j(2) in auto)
  with a j i(2) show thesis by (intro that [of j]) auto
qed

lemma alloc_inode_takes:
  assumes v: "vol_ok s" and i: "1 \<le> i" "i \<le> MAX_INODES" and free: "\<not> ino_used s i"
    and least: "\<And>k. 1 \<le> k \<Longrightarrow> k < i \<Longrightarrow> ino_used s k"
  obtains t where "alloc_inode s = Some (int i, t)" and "bit_step ino_used blk_used i True s t"
    and "g_sb t = (g_sb s)\<lparr>free_inodes := free_inodes (g_sb s) - 1\<rparr>"
    and "g_gd t = (g_gd s)\<lparr>free_inodes_count := free_inodes_count (g_gd s) - 1\<rparr>"
proof -
  let ?bm = "blk s BLK_IMAP"
  let ?bm' = "?bm[i div 8 := (?bm ! (i div 8)) OR push_bit (i mod 8) 1]"
  have len: "i div 8 < length ?bm" using v i by (simp add: vol_okD div_less_iff_less_mult)
  have scan: "find_clear ?bm 1 (MAX_INODES + 1) = Some (Some i)"
    using i len free least by (intro find_clear_first) (auto simp: ino_used_def)
  have v': "vol_ok (put_blk BLK_IMAP ?bm' s)" using v by (simp add: vol_okD)
  show thesis
  proof
    show "alloc_inode s = Some (int i, set_free_inodes (\<lambda>n. n - 1) (put_blk BLK_IMAP ?bm' s))"
      using v scan by (simp add: alloc_inode_def vol_okD dev_read_ok dev_write_ok)
    show "bit_step ino_used blk_used i True s (set_free_inodes (\<lambda>n. n - 1) (put_blk BLK_IMAP ?bm' s))"
      using v len bm_bit_set [OF len] by (intro write_imap_step) (auto simp: vol_okD)
  qed (use set_free_inodes_props(5,6) [OF v'] in auto)
qed

lemma alloc_inode_full:
  assumes "vol_ok s" and "\<And>k. 1 \<le> k \<Longrightarrow> k \<le> MAX_INODES \<Longrightarrow> ino_used s k"
  shows "alloc_inode s = Some (FS_ENOSPC, s)"
proof -
  have "find_clear (blk s BLK_IMAP) 1 (MAX_INODES + 1) = Some None"
    using assms by (intro find_clear_full) (auto simp: ino_used_def)
  with assms show ?thesis by (simp add: alloc_inode_def vol_okD dev_read_ok)
qed

lemma alloc_inode_total:
  assumes v: "vol_ok s"
  shows "(alloc_inode s = Some (FS_ENOSPC, s) \<and> (\<forall>k. 1 \<le> k \<and> k \<le> MAX_INODES \<longrightarrow> ino_used s k)) \<or>
    (\<exists>i t. alloc_inode s = Some (int i, t) \<and> 1 \<le> i \<and> i \<le> MAX_INODES \<and> \<not> ino_used s i \<and>
       bit_step ino_used blk_used i True s t \<and>
       g_sb t = (g_sb s)\<lparr>free_inodes := free_inodes (g_sb s) - 1\<rparr> \<and>
       g_gd t = (g_gd s)\<lparr>free_inodes_count := free_inodes_count (g_gd s) - 1\<rparr>)"
proof (cases "\<forall>k. 1 \<le> k \<and> k \<le> MAX_INODES \<longrightarrow> ino_used s k")
  case True
  with alloc_inode_full [OF v] show ?thesis by auto
next
  case False
  then obtain i where i: "1 \<le> i" "i \<le> MAX_INODES" "\<not> ino_used s i" by auto
  obtain j where j: "1 \<le> j" "j \<le> i" "\<not> ino_used s j" "\<And>k. 1 \<le> k \<Longrightarrow> k < j \<Longrightarrow> ino_used s k"
    by (rule least_free [OF i(1), of "ino_used s", OF i(3)]) blast
  obtain t where "alloc_inode s = Some (int j, t)" "bit_step ino_used blk_used j True s t"
    "g_sb t = (g_sb s)\<lparr>free_inodes := free_inodes (g_sb s) - 1\<rparr>"
    "g_gd t = (g_gd s)\<lparr>free_inodes_count := free_inodes_count (g_gd s) - 1\<rparr>"
    by (rule alloc_inode_takes [OF v j(1) _ j(3,4)]) (use i(2) j(2) in auto)
  with i j show ?thesis by (intro disjI2 exI [of _ j] exI [of _ t]) auto
qed

text \<open>Release clears the bit of a number in use and does nothing otherwise.\<close>

lemma free_block_noop:
  "b < BLK_DATA_START \<or> TOTAL_BLOCKS \<le> b \<Longrightarrow> free_block b s = Some s"
  by (auto simp: free_block_def)

lemma free_block_unused: "vol_ok s \<Longrightarrow> b < 4096 \<Longrightarrow> \<not> blk_used s b \<Longrightarrow> free_block b s = Some s"
  by (auto simp: free_block_def bmap_test_ok)

lemma free_block_used:
  assumes v: "vol_ok s" and b: "BLK_DATA_START \<le> b" "b < 4096" and u: "blk_used s b"
  obtains t where "free_block b s = Some t" and "bit_step blk_used ino_used b False s t"
    and "g_sb t = (g_sb s)\<lparr>free_blocks := free_blocks (g_sb s) + 1\<rparr>"
    and "g_gd t = (g_gd s)\<lparr>free_blocks_count := free_blocks_count (g_gd s) + 1\<rparr>"
proof -
  let ?bm = "blk s BLK_BMAP"
  let ?bm' = "?bm[b div 8 := (?bm ! (b div 8)) AND NOT (push_bit (b mod 8) 1)]"
  have len: "b div 8 < length ?bm" using v b by (simp add: vol_okD div_less_iff_less_mult)
  have v': "vol_ok (put_blk BLK_BMAP ?bm' s)" using v by (simp add: vol_okD)
  have set: "bmap_set b True False s = Some (FS_OK, put_blk BLK_BMAP ?bm' s)"
    using v len by (simp add: bmap_set_def vol_okD dev_read_ok dev_write_ok bitop_def Let_def)
  show thesis
  proof
    show "free_block b s = Some (set_free_blocks (\<lambda>n. n + 1) (put_blk BLK_BMAP ?bm' s))"
      using v b u set by (simp add: free_block_def bmap_test_ok)
    show "bit_step blk_used ino_used b False s (set_free_blocks (\<lambda>n. n + 1) (put_blk BLK_BMAP ?bm' s))"
      using v len bm_bit_clear [OF len] by (intro write_bmap_step) (auto simp: vol_okD)
  qed (use set_free_blocks_props(5,6) [OF v'] in auto)
qed

lemma free_inode_noop: "i = 0 \<or> MAX_INODES < i \<Longrightarrow> free_inode i s = Some s"
  by (auto simp: free_inode_def)

lemma free_inode_unused: "vol_ok s \<Longrightarrow> \<not> ino_used s i \<Longrightarrow> free_inode i s = Some s"
  by (auto simp: free_inode_def bmap_test_ok)

lemma free_inode_used:
  assumes v: "vol_ok s" and i: "1 \<le> i" "i \<le> MAX_INODES" and u: "ino_used s i"
  obtains t where "free_inode i s = Some t" and "bit_step ino_used blk_used i False s t"
    and "g_sb t = (g_sb s)\<lparr>free_inodes := free_inodes (g_sb s) + 1\<rparr>"
    and "g_gd t = (g_gd s)\<lparr>free_inodes_count := free_inodes_count (g_gd s) + 1\<rparr>"
proof -
  let ?bm = "blk s BLK_IMAP"
  let ?bm' = "?bm[i div 8 := (?bm ! (i div 8)) AND NOT (push_bit (i mod 8) 1)]"
  have len: "i div 8 < length ?bm" using v i by (simp add: vol_okD div_less_iff_less_mult)
  have v': "vol_ok (put_blk BLK_IMAP ?bm' s)" using v by (simp add: vol_okD)
  have set: "bmap_set i False False s = Some (FS_OK, put_blk BLK_IMAP ?bm' s)"
    using v len by (simp add: bmap_set_def vol_okD dev_read_ok dev_write_ok bitop_def Let_def)
  show thesis
  proof
    show "free_inode i s = Some (set_free_inodes (\<lambda>n. n + 1) (put_blk BLK_IMAP ?bm' s))"
      using v i u set by (simp add: free_inode_def bmap_test_ok)
    show "bit_step ino_used blk_used i False s (set_free_inodes (\<lambda>n. n + 1) (put_blk BLK_IMAP ?bm' s))"
      using v len bm_bit_clear [OF len] by (intro write_imap_step) (auto simp: vol_okD)
  qed (use set_free_inodes_props(5,6) [OF v'] in auto)
qed

end
