(* ===== verification/Allocator.thy ===== *)
theory Allocator
  imports Bitmap
begin

text \<open>
  The contract of an allocator of numbered objects and its two instances, the blocks and
  the inodes of \<open>bitmap.c\<close>; the free counters of the superblock and the group
  descriptor against the bitmaps they summarise.
\<close>

section \<open>The interface\<close>

text \<open>
  \<open>take_n alloc n s\<close> is \<open>n\<close> successive calls of an allocator, \<open>None\<close> when one of them fails
  or its outcome is not determined.
\<close>

fun take_n :: "('s \<Rightarrow> (int \<times> 's) option) \<Rightarrow> nat \<Rightarrow> 's \<Rightarrow> (nat list \<times> 's) option" where
  "take_n alloc 0 s = Some ([], s)"
| "take_n alloc (Suc n) s =
     (case alloc s of
        Some (r, t) \<Rightarrow> if r < 0 then None else map_option (apfst ((#) (nat r))) (take_n alloc n t)
      | None \<Rightarrow> None)"

definition n_free :: "('s \<Rightarrow> nat \<Rightarrow> bool) \<Rightarrow> nat \<Rightarrow> nat \<Rightarrow> 's \<Rightarrow> nat" where
  "n_free taken lo hi s = card {i \<in> {lo..<hi}. \<not> taken s i}"

lemma n_free_take:
  assumes "lo \<le> i" and "i < hi" and "\<not> taken s i" and "taken t = (taken s)(i := True)"
  shows "n_free taken lo hi s = Suc (n_free taken lo hi t)"
proof -
  have "{i \<in> {lo..<hi}. \<not> taken s i} = insert i {i \<in> {lo..<hi}. \<not> taken t i}"
    using assms by auto
  then show ?thesis using assms(4) by (simp add: n_free_def)
qed

lemma n_free_release:
  assumes "lo \<le> i" and "i < hi" and "taken s i" and "taken t = (taken s)(i := False)"
  shows "n_free taken lo hi t = Suc (n_free taken lo hi s)"
proof -
  have "{i \<in> {lo..<hi}. \<not> taken t i} = insert i {i \<in> {lo..<hi}. \<not> taken s i}"
    using assms by auto
  then show ?thesis using assms(3) by (simp add: n_free_def)
qed

locale allocator =
  fixes taken :: "'s \<Rightarrow> nat \<Rightarrow> bool"
    and alloc :: "'s \<Rightarrow> (int \<times> 's) option"
    and release :: "nat \<Rightarrow> 's \<Rightarrow> 's option"
    and good :: "'s \<Rightarrow> bool"
    and lo :: nat
    and hi :: nat
  assumes alloc_sound: "good s \<Longrightarrow> alloc s = Some (r, t) \<Longrightarrow> 0 \<le> r \<Longrightarrow>
      lo \<le> nat r \<and> nat r < hi \<and> \<not> taken s (nat r) \<and> good t \<and> taken t = (taken s)(nat r := True)"
    and alloc_complete: "good s \<Longrightarrow> lo \<le> i \<Longrightarrow> i < hi \<Longrightarrow> \<not> taken s i \<Longrightarrow>
      \<exists>r t. alloc s = Some (r, t) \<and> 0 \<le> r"
    and release_ok: "good s \<Longrightarrow> lo \<le> i \<Longrightarrow> i < hi \<Longrightarrow>
      \<exists>t. release i s = Some t \<and> good t \<and> taken t = (taken s)(i := False)"
begin

lemma alloc_twice_distinct:
  assumes "good s" and "alloc s = Some (r, t)" and "alloc t = Some (r', u)" and "0 \<le> r" and "0 \<le> r'"
  shows "r \<noteq> r'"
  using alloc_sound [OF assms(1,2,4)] alloc_sound [of t r' u] assms(3,5) by (metis fun_upd_same)

lemma alloc_release_inverse:
  assumes "good s" and "alloc s = Some (r, t)" and "0 \<le> r"
  obtains u where "release (nat r) t = Some u" and "good u" and "taken u = taken s"
proof -
  from alloc_sound [OF assms] have p: "lo \<le> nat r" "nat r < hi" "\<not> taken s (nat r)" "good t"
    "taken t = (taken s)(nat r := True)" by auto
  obtain u where "release (nat r) t = Some u" "good u" "taken u = (taken t)(nat r := False)"
    using release_ok [OF p(4,1,2)] by blast
  with p(3,5) show thesis by (intro that [of u]) (auto simp: fun_eq_iff)
qed

lemma n_free_positive: "n_free taken lo hi s = Suc m \<Longrightarrow> \<exists>i. lo \<le> i \<and> i < hi \<and> \<not> taken s i"
proof (rule ccontr)
  assume "n_free taken lo hi s = Suc m" and "\<nexists>i. lo \<le> i \<and> i < hi \<and> \<not> taken s i"
  then have "{i \<in> {lo..<hi}. \<not> taken s i} = {}" by auto
  with \<open>n_free taken lo hi s = Suc m\<close> show False by (simp only: n_free_def card.empty)
qed

lemma take_n_free:
  assumes "good s" and "n \<le> n_free taken lo hi s"
  shows "\<exists>xs t. take_n alloc n s = Some (xs, t) \<and> good t \<and> length xs = n \<and> distinct xs \<and>
     (\<forall>x \<in> set xs. lo \<le> x \<and> x < hi \<and> \<not> taken s x) \<and>
     (\<forall>i. taken t i \<longleftrightarrow> taken s i \<or> i \<in> set xs) \<and> n_free taken lo hi t = n_free taken lo hi s - n"
  using assms
proof (induction n arbitrary: s)
  case 0
  then show ?case by simp
next
  case (Suc n)
  then obtain i where "lo \<le> i" "i < hi" "\<not> taken s i"
    using n_free_positive by (metis Suc_le_D)
  with alloc_complete [OF Suc.prems(1)] obtain r t where a: "alloc s = Some (r, t)" "0 \<le> r" by blast
  note p = alloc_sound [OF Suc.prems(1) a]
  then have nf: "n_free taken lo hi s = Suc (n_free taken lo hi t)" by (intro n_free_take) auto
  with Suc p obtain xs u where u: "take_n alloc n t = Some (xs, u)" "good u" "length xs = n" "distinct xs"
    "\<forall>x \<in> set xs. lo \<le> x \<and> x < hi \<and> \<not> taken t x" "\<forall>i. taken u i \<longleftrightarrow> taken t i \<or> i \<in> set xs"
    "n_free taken lo hi u = n_free taken lo hi t - n"
    by (metis Suc_le_mono)
  show ?case
    by (rule exI [of _ "nat r # xs"], rule exI [of _ u]) (use a p u nf in \<open>auto split: if_splits\<close>)
qed

end

section \<open>Blocks and inodes\<close>

text \<open>
  Blocks are allocated from 69 up; only those below 4096 have a bit in the bitmap block.
  Inodes are numbered from 1 to 256.
\<close>

interpretation blocks: allocator blk_used alloc_block free_block vol_ok BLK_DATA_START 4096
proof unfold_locales
  show "BLK_DATA_START \<le> nat r \<and> nat r < 4096 \<and> \<not> blk_used s (nat r) \<and> vol_ok t \<and>
      blk_used t = (blk_used s)(nat r := True)"
    if "vol_ok s" "alloc_block s = Some (r, t)" "0 \<le> r" for s r t
    by (rule alloc_block_cases [OF that(1,2)]) (auto simp: bit_stepD(1) fun_eq_iff dest!: bit_stepD(2))
  show "\<exists>r t. alloc_block s = Some (r, t) \<and> 0 \<le> r"
    if "vol_ok s" "BLK_DATA_START \<le> i" "i < 4096" "\<not> blk_used s i" for s i
  proof -
    note h = that
    obtain j where j: "BLK_DATA_START \<le> j" "j \<le> i" "\<not> blk_used s j"
      "\<And>k. BLK_DATA_START \<le> k \<Longrightarrow> k < j \<Longrightarrow> blk_used s k"
      by (rule least_free [OF h(2), of "blk_used s", OF h(4)]) blast
    have "j < 4096" using j(2) h(3) by simp
    then show ?thesis by (rule alloc_block_takes [OF h(1) j(1) _ j(3,4)]) auto
  qed
  show "\<exists>t. free_block i s = Some t \<and> vol_ok t \<and> blk_used t = (blk_used s)(i := False)"
    if "vol_ok s" "BLK_DATA_START \<le> i" "i < 4096" for s i
  proof (cases "blk_used s i")
    case True
    with free_block_used [OF that] show ?thesis by (metis bit_stepD(1,2))
  next
    case False
    with free_block_unused [OF that(1,3)] that show ?thesis by (auto simp: fun_eq_iff)
  qed
qed

interpretation inodes: allocator ino_used alloc_inode free_inode vol_ok 1 "MAX_INODES + 1"
proof unfold_locales
  show "1 \<le> nat r \<and> nat r < MAX_INODES + 1 \<and> \<not> ino_used s (nat r) \<and> vol_ok t \<and>
      ino_used t = (ino_used s)(nat r := True)"
    if "vol_ok s" "alloc_inode s = Some (r, t)" "0 \<le> r" for s r t
    using alloc_inode_total [OF that(1)] that(2,3) by (auto simp: bit_stepD(1,2))
  show "\<exists>r t. alloc_inode s = Some (r, t) \<and> 0 \<le> r"
    if "vol_ok s" "1 \<le> i" "i < MAX_INODES + 1" "\<not> ino_used s i" for s i
    using alloc_inode_total [OF that(1)] that(2-) by (metis Suc_eq_plus1 less_Suc_eq_le of_nat_0_le_iff)
  show "\<exists>t. free_inode i s = Some t \<and> vol_ok t \<and> ino_used t = (ino_used s)(i := False)"
    if "vol_ok s" "1 \<le> i" "i < MAX_INODES + 1" for s i
  proof (cases "ino_used s i")
    case True
    have "i \<le> MAX_INODES" using that(3) by simp
    from free_inode_used [OF that(1,2) this True] show ?thesis by (metis bit_stepD(1,2))
  next
    case False
    with free_inode_unused [OF that(1)] that show ?thesis by (auto simp: fun_eq_iff)
  qed
qed

section \<open>The free counters\<close>

text \<open>
  \<open>free_blocks\<close> starts as 4611 less the 69 metadata blocks, but only 4096 - 69 blocks have
  a bit, so it exceeds what can be allocated by 515.
\<close>

definition nfree_blocks :: "fs \<Rightarrow> nat" where
  "nfree_blocks s = n_free blk_used BLK_DATA_START 4096 s"

definition nfree_inodes :: "fs \<Rightarrow> nat" where
  "nfree_inodes s = n_free ino_used 1 (MAX_INODES + 1) s"

definition counters_ok :: "fs \<Rightarrow> bool" where
  "counters_ok s \<longleftrightarrow> free_blocks (g_sb s) = of_nat (nfree_blocks s) + 515 \<and>
     free_blocks_count (g_gd s) = of_nat (nfree_blocks s) + 515 \<and>
     free_inodes (g_sb s) = of_nat (nfree_inodes s) \<and>
     free_inodes_count (g_gd s) = of_nat (nfree_inodes s) \<and> meta_synced s"

lemma nfree_cong:
  "blk_used t = blk_used s \<Longrightarrow> nfree_blocks t = nfree_blocks s"
  "ino_used t = ino_used s \<Longrightarrow> nfree_inodes t = nfree_inodes s"
  by (simp_all add: nfree_blocks_def nfree_inodes_def n_free_def)

lemma counters_ok_update [simp, frame_simps]:
  "counters_ok (g_ofile_update f1 s) = counters_ok s" "counters_ok (tick_update f2 s) = counters_ok s"
  by (simp_all add: counters_ok_def nfree_blocks_def nfree_inodes_def n_free_def meta_synced_def)

lemma meta_synced_put_blk:
  "dev_ok s \<Longrightarrow> BLK_GDESC < b \<Longrightarrow> b < TOTAL_BLOCKS \<Longrightarrow> meta_synced (put_blk b buf s) = meta_synced s"
  by (simp add: meta_synced_def)

lemma alloc_block_nfree:
  assumes "vol_ok s" and "alloc_block s = Some (r, t)"
  shows "nfree_blocks s = Suc (nfree_blocks t)"
proof -
  obtain i where i: "BLK_DATA_START \<le> i" "i < 4096" "\<not> blk_used s i" "bit_step blk_used ino_used i True s t"
    by (rule alloc_block_cases [OF assms])
  then show ?thesis
    unfolding nfree_blocks_def by (intro n_free_take [of BLK_DATA_START i]) (use bit_stepD(2) [OF i(4)] in auto)
qed

lemma alloc_block_counters:
  assumes "vol_ok s" and "counters_ok s" and "alloc_block s = Some (r, t)"
  shows "counters_ok t"
proof -
  obtain i where i: "BLK_DATA_START \<le> i" "i < 4096" "\<not> blk_used s i" "bit_step blk_used ino_used i True s t"
    "g_sb t = (g_sb s)\<lparr>free_blocks := free_blocks (g_sb s) - 1\<rparr>"
    "g_gd t = (g_gd s)\<lparr>free_blocks_count := free_blocks_count (g_gd s) - 1\<rparr>"
    by (rule alloc_block_cases [OF assms(1,3)])
  have "nfree_blocks s = Suc (nfree_blocks t)" by (rule alloc_block_nfree [OF assms(1,3)])
  then show ?thesis
    using assms(2) i(5,6) nfree_cong(2) [OF bit_stepD(3) [OF i(4)]] bit_stepD(6) [OF i(4)] by (simp add: counters_ok_def)
qed

lemma alloc_inode_counters:
  assumes "vol_ok s" and "counters_ok s" and "alloc_inode s = Some (r, t)"
  shows "counters_ok t"
proof (cases "0 \<le> r")
  case True
  then obtain i where i: "1 \<le> i" "i < MAX_INODES + 1" "\<not> ino_used s i" "bit_step ino_used blk_used i True s t"
    "g_sb t = (g_sb s)\<lparr>free_inodes := free_inodes (g_sb s) - 1\<rparr>"
    "g_gd t = (g_gd s)\<lparr>free_inodes_count := free_inodes_count (g_gd s) - 1\<rparr>"
    using alloc_inode_total [OF assms(1)] assms(3) by fastforce
  have "nfree_inodes s = Suc (nfree_inodes t)"
    unfolding nfree_inodes_def by (rule n_free_take) (use i bit_stepD(2) [OF i(4)] in auto)
  then show ?thesis
    using assms(2) i(5,6) nfree_cong(1) [OF bit_stepD(3) [OF i(4)]] bit_stepD(6) [OF i(4)] by (simp add: counters_ok_def)
next
  case False
  then have "t = s" using alloc_inode_total [OF assms(1)] assms(3) by auto
  with assms(2) show ?thesis by simp
qed

lemma free_block_counters:
  assumes v: "vol_ok s" and c: "counters_ok s" and f: "free_block b s = Some t"
  shows "counters_ok t"
proof (cases "BLK_DATA_START \<le> b \<and> b < 4096 \<and> blk_used s b")
  case True
  then obtain t' where t: "free_block b s = Some t'" "bit_step blk_used ino_used b False s t'"
    "g_sb t' = (g_sb s)\<lparr>free_blocks := free_blocks (g_sb s) + 1\<rparr>"
    "g_gd t' = (g_gd s)\<lparr>free_blocks_count := free_blocks_count (g_gd s) + 1\<rparr>"
    using free_block_used [OF v] by metis
  have "nfree_blocks t' = Suc (nfree_blocks s)"
    unfolding nfree_blocks_def
    by (rule n_free_release) (use True bit_stepD(2) [OF t(2)] in auto)
  then show ?thesis
    using c f t nfree_cong(2) [OF bit_stepD(3) [OF t(2)]] bit_stepD(6) [OF t(2)]
    by (simp add: counters_ok_def add.commute)
next
  case False
  then have "t = s"
    using f free_block_noop [of b s] free_block_unused [OF v, of b] bmap_test_overrun [OF v, of b]
    by (cases "b < 4096"; cases "b < TOTAL_BLOCKS") (auto simp: free_block_def)
  with c show ?thesis by simp
qed

lemma free_inode_counters:
  assumes v: "vol_ok s" and c: "counters_ok s" and f: "free_inode i s = Some t"
  shows "counters_ok t"
proof (cases "1 \<le> i \<and> i \<le> MAX_INODES \<and> ino_used s i")
  case True
  then obtain t' where t: "free_inode i s = Some t'" "bit_step ino_used blk_used i False s t'"
    "g_sb t' = (g_sb s)\<lparr>free_inodes := free_inodes (g_sb s) + 1\<rparr>"
    "g_gd t' = (g_gd s)\<lparr>free_inodes_count := free_inodes_count (g_gd s) + 1\<rparr>"
    using free_inode_used [OF v] by metis
  have "nfree_inodes t' = Suc (nfree_inodes s)"
    unfolding nfree_inodes_def
    by (rule n_free_release) (use True bit_stepD(2) [OF t(2)] in auto)
  then show ?thesis
    using c f t nfree_cong(1) [OF bit_stepD(3) [OF t(2)]] bit_stepD(6) [OF t(2)]
    by (simp add: counters_ok_def add.commute)
next
  case False
  then have "t = s" using f free_inode_noop [of i s] free_inode_unused [OF v, of i] by fastforce
  with c show ?thesis by simp
qed

end
