(* ===== verification/Inode.thy ===== *)
theory Inode
  imports Allocator
begin

text \<open>
  \<open>project3/src/inode.c\<close>: the inode table, four 128-byte inodes to a block from block 5
  on, and the truncation of a file. \<open>inode_at\<close> reads the table as a function from inode
  numbers to inodes, which \<open>write_inode\<close> updates at one point.
\<close>

section \<open>The operations of inode.c\<close>

text \<open>\<open>inode_pos\<close>: block and offset of an inode, \<open>None\<close> for \<open>FS_ERR\<close>.\<close>

definition inode_pos :: "nat \<Rightarrow> fs \<Rightarrow> (nat \<times> nat) option" where
  "inode_pos ino s =
     (if ino = 0 \<or> ino > MAX_INODES then None
      else let idx = (ino - 1) * INODE_SIZE in
           Some (unat (inode_table_start (g_sb s) + of_nat (idx div BLOCK_SIZE)), idx mod BLOCK_SIZE))"

definition read_inode :: "nat \<Rightarrow> fs \<Rightarrow> inode option" where
  "read_inode ino s = do {
     (b, off) \<leftarrow> inode_pos ino s;
     buf \<leftarrow> dev_read_block b s;
     Some (dec_inode (bslice INODE_SIZE off buf)) }"

definition write_inode :: "nat \<Rightarrow> inode \<Rightarrow> fs \<Rightarrow> int \<times> fs" where
  "write_inode ino i s =
     (case inode_pos ino s of
        None \<Rightarrow> (FS_ERR, s)
      | Some (b, off) \<Rightarrow>
          (case dev_read_block b s of
             None \<Rightarrow> (FS_ERR, s)
           | Some buf \<Rightarrow> dev_write_block (splice_at buf off (enc_inode i)) b s))"

text \<open>The loops of \<open>inode_truncate\<close>: every nonzero pointer of an array is released.\<close>

fun free_each :: "u32 list \<Rightarrow> fs \<Rightarrow> fs option" where
  "free_each [] s = Some s"
| "free_each (p # ps) s =
     (if p = 0 then free_each ps s
      else do { s1 \<leftarrow> free_block (unat p) s; free_each ps s1 })"

text \<open>The pointers of the inode and of its indirect block, then the indirect block itself.\<close>

definition release_blocks :: "inode \<Rightarrow> fs \<Rightarrow> fs option" where
  "release_blocks i s = do {
     s1 \<leftarrow> free_each (i_direct i) s;
     if i_indirect1 i = 0 then Some s1
     else do {
       s2 \<leftarrow> (case dev_read_block (unat (i_indirect1 i)) s1 of
                Some tbl \<Rightarrow> free_each (dec_u32s 128 tbl) s1
              | None \<Rightarrow> Some s1);
       free_block (unat (i_indirect1 i)) s2 } }"

definition inode_truncate :: "nat \<Rightarrow> fs \<Rightarrow> (int \<times> fs) option" where
  "inode_truncate ino s =
     (case read_inode ino s of
        None \<Rightarrow> Some (FS_ERR, s)
      | Some i \<Rightarrow> do {
          s1 \<leftarrow> release_blocks i s;
          let (mt, s2) = ts_now s1; (ct, s3) = ts_now s2 in
          Some (write_inode ino
            (i\<lparr>i_direct := map (\<lambda>_. 0) (i_direct i), i_indirect1 := 0, i_size := 0, i_blocks := 0,
               i_mtime := mt, i_ctime := ct\<rparr>) s3) })"

section \<open>The inode table as a function\<close>

definition itbl_blk :: "nat \<Rightarrow> nat" where
  "itbl_blk ino = BLK_ITBL_START + (ino - 1) div 4"

definition itbl_off :: "nat \<Rightarrow> nat" where
  "itbl_off ino = (ino - 1) mod 4 * INODE_SIZE"

definition inode_at :: "fs \<Rightarrow> nat \<Rightarrow> inode" where
  "inode_at s ino = dec_inode (bslice INODE_SIZE (itbl_off ino) (blk s (itbl_blk ino)))"

abbreviation (input) valid_ino :: "nat \<Rightarrow> bool" where
  "valid_ino ino \<equiv> 1 \<le> ino \<and> ino \<le> MAX_INODES"

lemma itbl_range: "valid_ino ino \<Longrightarrow> BLK_ITBL_START \<le> itbl_blk ino \<and> itbl_blk ino < BLK_DATA_START"
  by (auto simp: itbl_blk_def)

lemma itbl_off_bound: "itbl_off ino + INODE_SIZE \<le> BLOCK_SIZE"
  using mod_less_divisor [of 4 "ino - 1"] by (simp add: itbl_off_def)

lemma itbl_apart:
  assumes "valid_ino i" and "valid_ino j" and "i \<noteq> j" and "itbl_blk i = itbl_blk j"
  shows "itbl_off i + INODE_SIZE \<le> itbl_off j \<or> itbl_off j + INODE_SIZE \<le> itbl_off i"
proof -
  have "(i - 1) div 4 = (j - 1) div 4" using assms(4) by (simp add: itbl_blk_def)
  moreover have "i - 1 \<noteq> j - 1" using assms(1-3) by auto
  ultimately have "(i - 1) mod 4 \<noteq> (j - 1) mod 4" by (metis div_mult_mod_eq)
  then have "(i - 1) mod 4 < (j - 1) mod 4 \<or> (j - 1) mod 4 < (i - 1) mod 4" by arith
  then show ?thesis by (auto simp: itbl_off_def)
qed

lemma inode_pos_ok:
  assumes "vol_ok s" and "valid_ino ino"
  shows "inode_pos ino s = Some (itbl_blk ino, itbl_off ino)"
proof -
  have "(ino - 1) * INODE_SIZE div BLOCK_SIZE = (ino - 1) div 4" by (simp add: div_mult2_eq [symmetric])
  moreover have "(ino - 1) * INODE_SIZE mod BLOCK_SIZE = itbl_off ino"
    using mult_mod_left [of "ino - 1" 4 INODE_SIZE] by (simp add: itbl_off_def)
  moreover have "unat (5 + of_nat ((ino - 1) div 4) :: u32) = itbl_blk ino"
  proof -
    have "5 + (of_nat ((ino - 1) div 4) :: u32) = of_nat (itbl_blk ino)" by (simp add: itbl_blk_def)
    moreover have "itbl_blk ino < 2 ^ 32" using itbl_range [OF assms(2)] by simp
    ultimately show ?thesis by (simp only: unat_of_nat) simp
  qed
  ultimately show ?thesis using assms by (auto simp: inode_pos_def vol_okD Let_def)
qed

lemma wf_inode_at [simp]: "vol_ok s \<Longrightarrow> valid_ino ino \<Longrightarrow> wf_inode (inode_at s ino)"
  using itbl_range [of ino] itbl_off_bound [of ino]
  by (auto simp: inode_at_def vol_okD slice_simps intro!: wf_dec_inode)

lemma read_inode_ok: "vol_ok s \<Longrightarrow> valid_ino ino \<Longrightarrow> read_inode ino s = Some (inode_at s ino)"
  using itbl_range [of ino]
  by (auto simp: read_inode_def inode_pos_ok vol_okD dev_read_ok inode_at_def)

lemma read_inode_bad: "\<not> valid_ino ino \<Longrightarrow> read_inode ino s = None"
  by (auto simp: read_inode_def inode_pos_def)

lemma write_inode_bad: "\<not> valid_ino ino \<Longrightarrow> write_inode ino i s = (FS_ERR, s)"
  by (auto simp: write_inode_def inode_pos_def)

definition put_inode :: "nat \<Rightarrow> inode \<Rightarrow> fs \<Rightarrow> fs" where
  "put_inode ino i s = snd (write_inode ino i s)"

lemma put_inode_eq:
  assumes "vol_ok s" and "valid_ino ino"
  shows "write_inode ino i s = (FS_OK, put_inode ino i s)"
    and "put_inode ino i s = put_blk (itbl_blk ino) (splice_at (blk s (itbl_blk ino)) (itbl_off ino) (enc_inode i)) s"
  using assms itbl_range [OF assms(2)]
  by (auto simp: put_inode_def write_inode_def inode_pos_ok vol_okD dev_read_ok dev_write_ok)

lemma put_inode_frame [simp, frame_simps]:
  "g_dev (put_inode n i s) = g_dev s" "g_sb (put_inode n i s) = g_sb s"
  "g_gd (put_inode n i s) = g_gd s" "g_ofile (put_inode n i s) = g_ofile s"
  "g_cwd (put_inode n i s) = g_cwd s" "g_uid (put_inode n i s) = g_uid s"
  "g_user (put_inode n i s) = g_user s" "clock (put_inode n i s) = clock s"
  "tick (put_inode n i s) = tick s" "sb_slack (put_inode n i s) = sb_slack s"
  "gd_slack (put_inode n i s) = gd_slack s"
  by (auto simp: put_inode_def write_inode_def dev_write_snd split: option.split)

lemma same_session_put_inode [simp]:
  "same_session s (put_inode n i t) = same_session s t" "same_session (put_inode n i s) t = same_session s t"
  by (simp_all add: same_session_def)

text \<open>Writing an inode: a read-modify-write of its quarter of a table block.\<close>

lemma put_inode_ok:
  assumes v: "vol_ok s" and ino: "valid_ino ino" and w: "wf_inode i"
  shows "vol_ok (put_inode ino i s)"
    and "\<And>b. b < TOTAL_BLOCKS \<Longrightarrow> b \<noteq> itbl_blk ino \<Longrightarrow> blk (put_inode ino i s) b = blk s b"
    and "inode_at (put_inode ino i s) ino = i"
    and "\<And>j. valid_ino j \<Longrightarrow> j \<noteq> ino \<Longrightarrow> inode_at (put_inode ino i s) j = inode_at s j"
proof -
  let ?b = "itbl_blk ino" and ?off = "itbl_off ino"
  let ?old = "blk s ?b"
  have b: "?b < TOTAL_BLOCKS" using itbl_range [OF ino] by simp
  have d: "dev_ok s" using v by (rule vol_okD(1))
  have fits: "?off + length (enc_inode i) \<le> length ?old" using d b w itbl_off_bound [of ino] by simp
  note eq = put_inode_eq [OF v ino, of i]
  show "vol_ok (put_inode ino i s)" using v fits d b by (simp add: eq slice_simps)
  show "blk (put_inode ino i s) b' = blk s b'" if "b' < TOTAL_BLOCKS" "b' \<noteq> ?b" for b'
    using d b that by (simp add: eq)
  show "inode_at (put_inode ino i s) ino = i"
    using d b fits w by (simp add: eq inode_at_def slice_simps)
  show "inode_at (put_inode ino i s) j = inode_at s j" if j: "valid_ino j" "j \<noteq> ino" for j
  proof (cases "itbl_blk j = ?b")
    case True
    have "bslice INODE_SIZE (itbl_off j) (splice_at ?old ?off (enc_inode i)) = bslice INODE_SIZE (itbl_off j) ?old"
      using fits w itbl_apart [OF j(1) ino j(2) True] by (intro bslice_splice_other) auto
    with True d b show ?thesis by (simp add: eq inode_at_def)
  next
    case False
    with d b itbl_range [OF j(1)] show ?thesis by (simp add: eq inode_at_def)
  qed
qed

lemma put_inode_used:
  assumes "vol_ok s" and "valid_ino ino" and "wf_inode i"
  shows "blk_used (put_inode ino i s) = blk_used s" "ino_used (put_inode ino i s) = ino_used s"
  using put_inode_ok(2) [OF assms] itbl_range [OF assms(2)]
  by (simp_all add: blk_used_def ino_used_def fun_eq_iff)

lemma put_inode_data:
  assumes "vol_ok s" and "valid_ino ino" and "wf_inode i" and "BLK_DATA_START \<le> b" and "b < TOTAL_BLOCKS"
  shows "blk (put_inode ino i s) b = blk s b"
  using put_inode_ok(2) [OF assms(1-3)] itbl_range [OF assms(2)] assms(4,5) by auto

lemma put_inode_counters:
  assumes "vol_ok s" and "valid_ino ino" and "wf_inode i"
  shows "counters_ok (put_inode ino i s) = counters_ok s"
proof -
  have "meta_synced (put_inode ino i s) = meta_synced s"
    unfolding put_inode_eq(2) [OF assms(1,2)]
    using itbl_range [OF assms(2)] vol_okD(1) [OF assms(1)] by (intro meta_synced_put_blk) simp_all
  then show ?thesis
    using nfree_cong [of "put_inode ino i s" s] put_inode_used [OF assms] by (simp add: counters_ok_def)
qed

lemma inode_at_cong:
  assumes "valid_ino ino" and "\<And>b. BLK_ITBL_START \<le> b \<Longrightarrow> b < BLK_DATA_START \<Longrightarrow> blk t b = blk s b"
  shows "inode_at t ino = inode_at s ino"
  using assms(2) itbl_range [OF assms(1)] by (simp add: inode_at_def)

lemma inode_at_update [simp, frame_simps]:
  "inode_at (g_ofile_update f1 s) = inode_at s" "inode_at (tick_update f2 s) = inode_at s"
  "inode_at (g_uid_update f3 s) = inode_at s" "inode_at (g_cwd_update f4 s) = inode_at s"
  "inode_at (g_user_update f5 s) = inode_at s"
  by (simp_all add: fun_eq_iff inode_at_def)

section \<open>The blocks of a file\<close>

text \<open>
  The physical blocks an inode owns: its direct blocks, its indirect block and the blocks
  listed there. \<open>own_ok\<close> says they are distinct allocated data blocks.
\<close>

definition ptr_list :: "fs \<Rightarrow> inode \<Rightarrow> u32 list" where
  "ptr_list s i = i_direct i @ i_indirect1 i #
     (if i_indirect1 i = 0 then [] else dec_u32s 128 (blk s (unat (i_indirect1 i))))"

definition owned :: "fs \<Rightarrow> inode \<Rightarrow> nat list" where
  "owned s i = map unat (filter (\<lambda>p. p \<noteq> 0) (ptr_list s i))"

definition own_ok :: "fs \<Rightarrow> inode \<Rightarrow> bool" where
  "own_ok s i \<longleftrightarrow> wf_inode i \<and> distinct (owned s i) \<and>
     (\<forall>b \<in> set (owned s i). BLK_DATA_START \<le> b \<and> b < 4096 \<and> blk_used s b)"

lemma free_each_ok:
  assumes "vol_ok s" and "\<And>p. p \<in> set ps \<Longrightarrow> p \<noteq> 0 \<Longrightarrow> BLK_DATA_START \<le> unat p \<and> unat p < 4096"
  shows "\<exists>t. free_each ps s = Some t \<and> vol_ok t \<and> ino_used t = ino_used s \<and> same_session s t \<and>
     tick t = tick s \<and> (counters_ok s \<longrightarrow> counters_ok t) \<and>
     (\<forall>b. blk_used t b \<longleftrightarrow> blk_used s b \<and> b \<notin> unat ` (set ps - {0})) \<and>
     (\<forall>b. BLK_IMAP < b \<and> b < TOTAL_BLOCKS \<longrightarrow> blk t b = blk s b)"
  using assms
proof (induction ps arbitrary: s)
  case Nil
  then show ?case by simp
next
  case (Cons p ps)
  show ?case
  proof (cases "p = 0")
    case True
    with Cons.IH [OF Cons.prems(1)] Cons.prems(2) show ?thesis by simp
  next
    case False
    then have p: "BLK_DATA_START \<le> unat p" "unat p < 4096" using Cons.prems(2) by auto
    obtain u where u: "free_block (unat p) s = Some u" "vol_ok u" "ino_used u = ino_used s"
      "same_session s u" "tick u = tick s" "\<forall>b. blk_used u b \<longleftrightarrow> blk_used s b \<and> b \<noteq> unat p"
      "\<forall>b. BLK_IMAP < b \<and> b < TOTAL_BLOCKS \<longrightarrow> blk u b = blk s b"
    proof (cases "blk_used s (unat p)")
      case True
      from free_block_used [OF Cons.prems(1) p True] obtain u
        where "free_block (unat p) s = Some u" "bit_step blk_used ino_used (unat p) False s u" by metis
      then show thesis by (intro that [of u]) (auto simp: bit_step_def)
    next
      case False
      with free_block_unused [OF Cons.prems(1) p(2)] Cons.prems(1) show thesis
        by (intro that [of s]) auto
    qed
    obtain t where t: "free_each ps u = Some t" "vol_ok t" "ino_used t = ino_used u" "same_session u t"
      "tick t = tick u" "counters_ok u \<longrightarrow> counters_ok t"
      "\<forall>b. blk_used t b \<longleftrightarrow> blk_used u b \<and> b \<notin> unat ` (set ps - {0})"
      "\<forall>b. BLK_IMAP < b \<and> b < TOTAL_BLOCKS \<longrightarrow> blk t b = blk u b"
      using Cons.IH [OF u(2)] Cons.prems(2) by auto
    have "counters_ok s \<longrightarrow> counters_ok t"
      using free_block_counters [OF Cons.prems(1) _ u(1)] t(6) by blast
    with u t False show ?thesis
      by (intro exI [of _ t]) (auto intro: same_session_trans)
  qed
qed

lemma own_okD:
  assumes "own_ok s i"
  shows "wf_inode i" "distinct (owned s i)"
    "\<And>p. p \<in> set (ptr_list s i) \<Longrightarrow> p \<noteq> 0 \<Longrightarrow>
       BLK_DATA_START \<le> unat p \<and> unat p < 4096 \<and> blk_used s (unat p)"
  using assms by (auto simp: own_ok_def owned_def)

lemma set_owned: "set (owned s i) = unat ` (set (ptr_list s i) - {0})"
  by (auto simp: owned_def)

text \<open>The inode that truncation writes back.\<close>

definition truncated :: "inode \<Rightarrow> u32 \<Rightarrow> u32 \<Rightarrow> inode" where
  "truncated i mt ct = i\<lparr>i_direct := map (\<lambda>_. 0) (i_direct i), i_indirect1 := 0, i_size := 0,
     i_blocks := 0, i_mtime := mt, i_ctime := ct\<rparr>"

lemma wf_truncated [simp]: "wf_inode i \<Longrightarrow> wf_inode (truncated i mt ct)"
  by (simp add: wf_inode_def truncated_def)

text \<open>The two releasing loops together give back exactly the blocks the inode owns.\<close>

lemma truncate_frees:
  assumes v: "vol_ok s" and o: "own_ok s i"
  obtains t where "vol_ok t" "ino_used t = ino_used s" "same_session s t" "tick t = tick s"
    "counters_ok s \<Longrightarrow> counters_ok t"
    "\<And>b. blk_used t b \<longleftrightarrow> blk_used s b \<and> b \<notin> set (owned s i)"
    "\<And>b. BLK_IMAP < b \<Longrightarrow> b < TOTAL_BLOCKS \<Longrightarrow> blk t b = blk s b"
    "release_blocks i s = Some t"
proof -
  let ?d = "i_direct i" and ?n = "i_indirect1 i"
  let ?tbl = "dec_u32s 128 (blk s (unat ?n))"
  have d: "\<And>p. p \<in> set ?d \<Longrightarrow> p \<noteq> 0 \<Longrightarrow> BLK_DATA_START \<le> unat p \<and> unat p < 4096"
    using own_okD(3) [OF o] by (auto simp: ptr_list_def)
  obtain s1 where s1: "free_each ?d s = Some s1" "vol_ok s1" "ino_used s1 = ino_used s"
    "same_session s s1" "tick s1 = tick s" "counters_ok s \<longrightarrow> counters_ok s1"
    "\<forall>b. blk_used s1 b \<longleftrightarrow> blk_used s b \<and> b \<notin> unat ` (set ?d - {0})"
    "\<forall>b. BLK_IMAP < b \<and> b < TOTAL_BLOCKS \<longrightarrow> blk s1 b = blk s b"
    using free_each_ok [OF v, of ?d] d by metis
  show thesis
  proof (cases "?n = 0")
    case True
    then show thesis
      using s1 by (intro that [of s1]) (auto simp: set_owned ptr_list_def release_blocks_def)
  next
    case False
    then have n: "BLK_DATA_START \<le> unat ?n" "unat ?n < 4096"
      using own_okD(3) [OF o, of ?n] by (auto simp: ptr_list_def)
    have tb: "\<And>p. p \<in> set (?tbl @ [?n]) \<Longrightarrow> p \<noteq> 0 \<Longrightarrow> BLK_DATA_START \<le> unat p \<and> unat p < 4096"
      using own_okD(3) [OF o] False by (auto simp: ptr_list_def)
    obtain t where t: "free_each (?tbl @ [?n]) s1 = Some t" "vol_ok t" "ino_used t = ino_used s1"
      "same_session s1 t" "tick t = tick s1" "counters_ok s1 \<longrightarrow> counters_ok t"
      "\<forall>b. blk_used t b \<longleftrightarrow> blk_used s1 b \<and> b \<notin> unat ` (set (?tbl @ [?n]) - {0})"
      "\<forall>b. BLK_IMAP < b \<and> b < TOTAL_BLOCKS \<longrightarrow> blk t b = blk s1 b"
      using free_each_ok [OF s1(2), of "?tbl @ [?n]"] tb by metis
    have split: "free_each (ps @ qs) u = Option.bind (free_each ps u) (free_each qs)" for ps qs u
      by (induction ps arbitrary: u) (auto intro: Option.bind_cong)
    have rd: "dev_read_block (unat ?n) s1 = Some (blk s (unat ?n))"
      using s1(2,8) n by (simp add: vol_okD dev_read_ok)
    show thesis
    proof (rule that [of t])
      show "release_blocks i s = Some t"
        using s1(1) t(1) rd False by (auto simp: release_blocks_def split Option.bind_eq_Some_conv)
      show "blk_used t b \<longleftrightarrow> blk_used s b \<and> b \<notin> set (owned s i)" for b
        using s1(7) t(7) False by (auto simp: set_owned ptr_list_def)
    qed (use s1 t in \<open>auto intro: same_session_trans\<close>)
  qed
qed

lemma inode_truncate_ok:
  assumes v: "vol_ok s" and ino: "valid_ino ino" and o: "own_ok s (inode_at s ino)"
  obtains t mt ct where "inode_truncate ino s = Some (FS_OK, t)" "vol_ok t" "same_session s t"
    "counters_ok s \<Longrightarrow> counters_ok t" "ino_used t = ino_used s"
    "\<And>b. blk_used t b \<longleftrightarrow> blk_used s b \<and> b \<notin> set (owned s (inode_at s ino))"
    "inode_at t ino = truncated (inode_at s ino) mt ct"
    "\<And>j. valid_ino j \<Longrightarrow> j \<noteq> ino \<Longrightarrow> inode_at t j = inode_at s j"
    "\<And>b. BLK_DATA_START \<le> b \<Longrightarrow> b < TOTAL_BLOCKS \<Longrightarrow> blk t b = blk s b"
proof -
  let ?i = "inode_at s ino"
  obtain u where u: "vol_ok u" "ino_used u = ino_used s" "same_session s u" "tick u = tick s"
    "counters_ok s \<Longrightarrow> counters_ok u"
    "\<And>b. blk_used u b \<longleftrightarrow> blk_used s b \<and> b \<notin> set (owned s ?i)"
    "\<And>b. BLK_IMAP < b \<Longrightarrow> b < TOTAL_BLOCKS \<Longrightarrow> blk u b = blk s b"
    "release_blocks ?i s = Some u"
    using truncate_frees [OF v o] by blast
  define w where "w = u\<lparr>tick := Suc (Suc (tick u))\<rparr>"
  let ?j = "truncated ?i (clock u (tick u)) (clock u (Suc (tick u)))"
  have w: "vol_ok w" "wf_inode ?j" using u(1) v ino by (simp_all add: w_def)
  note p = put_inode_ok [OF w(1) ino w(2)] put_inode_used [OF w(1) ino w(2)]
    put_inode_data [OF w(1) ino w(2)] put_inode_counters [OF w(1) ino w(2)]
  have old: "inode_at w j = inode_at s j" if "valid_ino j" for j
    using inode_at_cong [OF that, of u s] u(7) by (simp add: w_def)
  show thesis
  proof (rule that [of "put_inode ino ?j w"])
    show "inode_truncate ino s = Some (FS_OK, put_inode ino ?j w)"
      using v ino u(8) put_inode_eq(1) [OF w(1) ino, of ?j]
      by (simp add: inode_truncate_def read_inode_ok ts_now_def truncated_def w_def)
    show "inode_at (put_inode ino ?j w) ino = ?j" by (rule p(3))
  qed (use p old u in \<open>auto simp: w_def\<close>)
qed

end
