(* ===== verification/Volume.thy ===== *)
theory Volume
  imports Inode
begin

text \<open>
  The invariant of the mounted volume: every inode in use owns distinct, allocated data
  blocks, no two inodes share a block, and the free counters agree with the bitmaps. It is
  stated for a \<^emph>\<open>view\<close> of the inode table, because the code edits a copy of an inode in
  memory (\<open>inode_t in\<close>) while it allocates blocks and writes the copy back at the end.
\<close>

section \<open>The invariant\<close>

definition live :: "fs \<Rightarrow> nat \<Rightarrow> bool" where
  "live s i \<longleftrightarrow> valid_ino i \<and> ino_used s i"

definition view_inv :: "fs \<Rightarrow> (nat \<Rightarrow> inode) \<Rightarrow> bool" where
  "view_inv s f \<longleftrightarrow> vol_ok s \<and> counters_ok s \<and> (\<forall>i. live s i \<longrightarrow> own_ok s (f i)) \<and>
     (\<forall>i j. live s i \<and> live s j \<and> i \<noteq> j \<longrightarrow> set (owned s (f i)) \<inter> set (owned s (f j)) = {})"

definition vol_inv :: "fs \<Rightarrow> bool" where
  "vol_inv s \<longleftrightarrow> view_inv s (inode_at s)"

definition unowned :: "fs \<Rightarrow> (nat \<Rightarrow> inode) \<Rightarrow> nat \<Rightarrow> bool" where
  "unowned s f b \<longleftrightarrow> (\<forall>i. live s i \<longrightarrow> b \<notin> set (owned s (f i)))"

lemma view_invD:
  assumes "view_inv s f"
  shows "vol_ok s" "counters_ok s" "dev_ok s" "\<And>i. live s i \<Longrightarrow> own_ok s (f i)"
    "\<And>i. live s i \<Longrightarrow> wf_inode (f i)"
    "\<And>i j. live s i \<Longrightarrow> live s j \<Longrightarrow> i \<noteq> j \<Longrightarrow> set (owned s (f i)) \<inter> set (owned s (f j)) = {}"
    "\<And>i b. live s i \<Longrightarrow> b \<in> set (owned s (f i)) \<Longrightarrow> BLK_DATA_START \<le> b \<and> b < 4096 \<and> blk_used s b"
  using assms by (auto simp: view_inv_def vol_okD own_ok_def)

lemma live_valid: "live s i \<Longrightarrow> valid_ino i"
  by (simp add: live_def)

lemma view_inv_cong:
  "view_inv s f \<Longrightarrow> (\<And>i. live s i \<Longrightarrow> g i = f i) \<Longrightarrow> view_inv s g"
  by (auto simp: view_inv_def)

section \<open>Pointers\<close>

lemma ptr_list_cong:
  "(i_indirect1 i \<noteq> 0 \<Longrightarrow> blk t (unat (i_indirect1 i)) = blk s (unat (i_indirect1 i))) \<Longrightarrow>
   ptr_list t i = ptr_list s i"
  by (simp add: ptr_list_def)

lemma owned_cong: "ptr_list t i = ptr_list s j \<Longrightarrow> owned t i = owned s j"
  by (simp add: owned_def)

lemma indirect_owned: "i_indirect1 i \<noteq> 0 \<Longrightarrow> unat (i_indirect1 i) \<in> set (owned s i)"
  by (simp add: set_owned ptr_list_def)

lemma direct_owned: "p \<in> set (i_direct i) \<Longrightarrow> p \<noteq> 0 \<Longrightarrow> unat p \<in> set (owned s i)"
  by (simp add: set_owned ptr_list_def)

text \<open>Only the pointer fields matter for ownership.\<close>

definition same_ptrs :: "inode \<Rightarrow> inode \<Rightarrow> bool" where
  "same_ptrs i j \<longleftrightarrow> i_direct i = i_direct j \<and> i_indirect1 i = i_indirect1 j \<and>
     length (i_reserve i) = length (i_reserve j)"

lemma same_ptrs_refl [simp]: "same_ptrs i i"
  by (simp add: same_ptrs_def)

lemma same_ptrs_own: "same_ptrs i j \<Longrightarrow> owned s i = owned s j \<and> own_ok s i = own_ok s j \<and> wf_inode i = wf_inode j"
  by (simp add: same_ptrs_def owned_def ptr_list_def own_ok_def wf_inode_def)

lemma view_inv_same_ptrs: "view_inv s f \<Longrightarrow> same_ptrs i (f ino) \<Longrightarrow> view_inv s (f(ino := i))"
  using same_ptrs_own [of i "f ino" s] by (auto simp: view_inv_def)

section \<open>Changes of the disk under a view\<close>

text \<open>
  A change of the volume that leaves every live inode's indirect block, and so its pointers,
  in place keeps the view's invariant.
\<close>

lemma view_inv_transport:
  assumes inv: "view_inv s f" and t: "vol_ok t" "counters_ok t" "ino_used t = ino_used s"
    and u: "\<And>b. blk_used s b \<Longrightarrow> blk_used t b"
    and same: "\<And>i. live s i \<Longrightarrow> i_indirect1 (f i) \<noteq> 0 \<Longrightarrow>
       blk t (unat (i_indirect1 (f i))) = blk s (unat (i_indirect1 (f i)))"
  shows "view_inv t f" and "\<And>i. live s i \<Longrightarrow> ptr_list t (f i) = ptr_list s (f i)"
proof -
  show ptr: "ptr_list t (f i) = ptr_list s (f i)" if "live s i" for i
    by (rule ptr_list_cong) (rule same [OF that])
  have l: "live t = live s" by (simp add: fun_eq_iff live_def t(3))
  have own: "owned t (f i) = owned s (f i)" if "live s i" for i
    by (rule owned_cong) (rule ptr [OF that])
  show "view_inv t f"
    using inv t u own by (auto simp: view_inv_def l own_ok_def)
qed

text \<open>
  The same with one inode of the view replaced by one that owns at most one more block, a
  block nobody owned.
\<close>

lemma view_inv_replace:
  assumes inv: "view_inv s f" and t: "vol_ok t" "counters_ok t" "ino_used t = ino_used s"
    and u: "\<And>b. blk_used s b \<Longrightarrow> blk_used t b"
    and own: "own_ok t i'" and sub: "set (owned t i') \<subseteq> insert b (set (owned s (f ino)))"
    and b: "unowned s f b" and ino: "live s ino"
    and same: "\<And>i. live s i \<Longrightarrow> i \<noteq> ino \<Longrightarrow> i_indirect1 (f i) \<noteq> 0 \<Longrightarrow>
       blk t (unat (i_indirect1 (f i))) = blk s (unat (i_indirect1 (f i)))"
  shows "view_inv t (f(ino := i'))"
proof -
  have l: "live t = live s" by (simp add: fun_eq_iff live_def t(3))
  have o: "owned t (f i) = owned s (f i)" if "live s i" "i \<noteq> ino" for i
    by (rule owned_cong, rule ptr_list_cong) (rule same [OF that])
  have ok: "own_ok t (f i)" if "live s i" "i \<noteq> ino" for i
    using view_invD(4) [OF inv that(1)] o [OF that] u by (auto simp: own_ok_def)
  have dis: "set (owned t i') \<inter> set (owned s (f i)) = {}" if "live s i" "i \<noteq> ino" for i
    using sub view_invD(6) [OF inv ino that(1)] that b by (auto simp: unowned_def)
  show ?thesis
    unfolding view_inv_def l
    using t own ok o dis view_invD(6) [OF inv] by (auto simp: Int_commute)
qed

text \<open>Allocation: the new block is nobody's, and all owned blocks are as they were.\<close>

lemma view_inv_alloc:
  assumes inv: "view_inv s f" and a: "alloc_block s = Some (r, t)"
  obtains b where "r = int b" "BLK_DATA_START \<le> b" "b < 4096" "view_inv t f" "unowned s f b" "unowned t f b"
    "blk_used t b" "\<not> blk_used s b" "ino_used t = ino_used s" "same_session s t" "tick t = tick s"
    "\<And>c. blk_used s c \<Longrightarrow> blk_used t c"
    "\<And>c. BLK_IMAP < c \<Longrightarrow> c < TOTAL_BLOCKS \<Longrightarrow> blk t c = blk s c"
    "\<And>i. live s i \<Longrightarrow> ptr_list t (f i) = ptr_list s (f i)"
proof -
  note v = view_invD(1) [OF inv]
  obtain b where b: "r = int b" "BLK_DATA_START \<le> b" "b < 4096" "\<not> blk_used s b"
    "bit_step blk_used ino_used b True s t"
    by (rule alloc_block_cases [OF v a])
  note d = bit_stepD [OF b(5)]
  have c: "counters_ok t" by (rule alloc_block_counters [OF v view_invD(2) [OF inv] a])
  have up: "\<And>c. blk_used s c \<Longrightarrow> blk_used t c" using d(2) by simp
  have same: "blk t (unat (i_indirect1 (f i))) = blk s (unat (i_indirect1 (f i)))"
    if "live s i" "i_indirect1 (f i) \<noteq> 0" for i
    using view_invD(7) [OF inv that(1) indirect_owned [OF that(2)]] by (intro d(7)) auto
  have tr: "view_inv t f" "\<And>i. live s i \<Longrightarrow> ptr_list t (f i) = ptr_list s (f i)"
    by (blast intro: view_inv_transport [OF inv d(1) c d(3)] up same)+
  have un: "unowned s f b" using b(4) view_invD(7) [OF inv] by (auto simp: unowned_def)
  have "owned t (f i) = owned s (f i)" if "live s i" for i by (rule owned_cong) (rule tr(2) [OF that])
  then have "unowned t f b" using un d(3) by (auto simp: unowned_def live_def)
  then show thesis using b d tr un up by (intro that [of b]) auto
qed

text \<open>Writing a data block that holds no pointers of any inode.\<close>

lemma view_inv_put_blk:
  assumes inv: "view_inv s f" and b: "BLK_DATA_START \<le> b" "b < TOTAL_BLOCKS" and len: "length buf = BLOCK_SIZE"
    and no: "\<And>i. live s i \<Longrightarrow> i_indirect1 (f i) \<noteq> 0 \<Longrightarrow> unat (i_indirect1 (f i)) \<noteq> b"
  shows "view_inv (put_blk b buf s) f" and "blk_used (put_blk b buf s) = blk_used s"
    and "ino_used (put_blk b buf s) = ino_used s" and "live (put_blk b buf s) = live s"
    and "\<And>i. live s i \<Longrightarrow> ptr_list (put_blk b buf s) (f i) = ptr_list s (f i)"
    and "inode_at (put_blk b buf s) j = inode_at s j \<or> \<not> valid_ino j"
    and "unowned (put_blk b buf s) f = unowned s f"
proof -
  note d = view_invD(3) [OF inv]
  show u: "blk_used (put_blk b buf s) = blk_used s" and iu: "ino_used (put_blk b buf s) = ino_used s"
    using d b by (simp_all add: fun_eq_iff blk_used_def ino_used_def)
  then show l: "live (put_blk b buf s) = live s" by (simp add: fun_eq_iff live_def)
  have v: "vol_ok (put_blk b buf s)" using view_invD(1) [OF inv] len by simp
  have c: "counters_ok (put_blk b buf s)"
    using view_invD(2) [OF inv] nfree_cong [of "put_blk b buf s" s] u iu b
      meta_synced_put_blk [OF view_invD(3) [OF inv], of b buf] by (simp add: counters_ok_def)
  have same: "blk (put_blk b buf s) (unat (i_indirect1 (f i))) = blk s (unat (i_indirect1 (f i)))"
    if "live s i" "i_indirect1 (f i) \<noteq> 0" for i
    using view_invD(7) [OF inv that(1) indirect_owned [OF that(2)]] no [OF that] d b by auto
  note tr = view_inv_transport [OF inv v c iu _ same]
  show "view_inv (put_blk b buf s) f" using tr(1) u by simp
  show p: "\<And>i. live s i \<Longrightarrow> ptr_list (put_blk b buf s) (f i) = ptr_list s (f i)" using tr(2) u by simp
  show "inode_at (put_blk b buf s) j = inode_at s j \<or> \<not> valid_ino j"
    using inode_at_cong [of j "put_blk b buf s" s] d b by auto
  show "unowned (put_blk b buf s) f = unowned s f"
    using owned_cong [OF p] by (simp add: fun_eq_iff unowned_def l)
qed

section \<open>Giving a block to an inode\<close>

lemma distinct_nonzero_update:
  assumes "distinct (filter (\<lambda>p. p \<noteq> 0) xs)" and "k < length xs" and "xs ! k = 0" and "p \<notin> set xs"
  shows "distinct (filter (\<lambda>p. p \<noteq> 0) (xs[k := p]))"
proof -
  have "xs = take k xs @ 0 # drop (Suc k) xs" using assms(2,3) by (metis id_take_nth_drop)
  then have d: "distinct (filter (\<lambda>p. p \<noteq> 0) (take k xs @ drop (Suc k) xs))"
    using assms(1) by (metis (mono_tags, lifting) filter.simps(2) filter_append)
  have "p \<notin> set (take k xs @ drop (Suc k) xs)" using assms(4) by (auto dest: in_set_takeD in_set_dropD)
  then show ?thesis using d assms(2) by (auto simp: upd_conv_take_nth_drop)
qed

lemma owned_distinct: "distinct (owned s i) \<longleftrightarrow> distinct (filter (\<lambda>p. p \<noteq> 0) (ptr_list s i))"
  by (auto simp: owned_def distinct_map inj_on_def simp flip: word_unat_eq_iff)

text \<open>
  A pointer array that gains one block number in an empty slot: ownership stays sound and
  grows by that block.
\<close>

lemma own_ok_attach:
  assumes own: "own_ok s i" and w: "wf_inode i'" and k: "k < length (ptr_list s i)" "ptr_list s i ! k = 0"
    and p: "ptr_list t i' = (ptr_list s i)[k := of_nat b]"
    and b: "BLK_DATA_START \<le> b" "b < 4096" "blk_used t b" "b \<notin> set (owned s i)"
    and u: "\<And>c. blk_used s c \<Longrightarrow> blk_used t c"
  shows "own_ok t i'" and "set (owned t i') = insert b (set (owned s i))"
proof -
  have ub: "unat (of_nat b :: u32) = b" using b(2) by (simp add: unat_of_nat)
  have nz: "(of_nat b :: u32) \<noteq> 0" using ub b(1) by (metis not_numeral_le_zero unat_0)
  have ni: "of_nat b \<notin> set (ptr_list s i)"
  proof
    assume "of_nat b \<in> set (ptr_list s i)"
    then have "b \<in> set (owned s i)" using nz ub by (force simp: set_owned)
    with b(4) show False by simp
  qed
  have "set ((ptr_list s i)[k := of_nat b]) - {0} = insert (of_nat b) (set (ptr_list s i) - {0})"
  proof (rule set_eqI)
    fix x
    show "x \<in> set ((ptr_list s i)[k := of_nat b]) - {0} \<longleftrightarrow> x \<in> insert (of_nat b) (set (ptr_list s i) - {0})"
      using k nz by (auto simp: in_set_conv_nth nth_list_update)
  qed
  then show s: "set (owned t i') = insert b (set (owned s i))" using ub by (simp add: set_owned p)
  have "distinct (owned t i')"
    using distinct_nonzero_update [OF _ k ni] own by (simp add: owned_distinct own_ok_def p)
  then show "own_ok t i'" using own b u w s by (auto simp: own_ok_def)
qed

lemma view_inv_attach_direct:
  assumes inv: "view_inv s f" and ino: "live s ino" and bn: "bn < NDIRECT" "i_direct (f ino) ! bn = 0"
    and b: "BLK_DATA_START \<le> b" "b < 4096" "blk_used s b" "unowned s f b"
    and i': "i_direct i' = (i_direct (f ino))[bn := of_nat b]" "i_indirect1 i' = i_indirect1 (f ino)"
      "i_reserve i' = i_reserve (f ino)"
  shows "view_inv s (f(ino := i'))" and "set (owned s i') = insert b (set (owned s (f ino)))"
proof -
  note own = view_invD(4) [OF inv ino]
  have len: "length (i_direct (f ino)) = NDIRECT" using own_okD(1) [OF own] by (simp add: wf_inode_def)
  have w: "wf_inode i'" using own_okD(1) [OF own] i' by (simp add: wf_inode_def)
  have p: "ptr_list s i' = (ptr_list s (f ino))[bn := of_nat b]"
    using bn len i' by (simp add: ptr_list_def list_update_append)
  have k: "bn < length (ptr_list s (f ino))" "ptr_list s (f ino) ! bn = 0"
    using bn len by (simp_all add: ptr_list_def nth_append)
  have nb: "b \<notin> set (owned s (f ino))" using b(4) ino by (simp add: unowned_def)
  note oa = own_ok_attach [OF own w k p b(1-3) nb]
  show "set (owned s i') = insert b (set (owned s (f ino)))" by (rule oa(2)) simp
  show "view_inv s (f(ino := i'))"
    using view_invD(1,2) [OF inv] oa b(4) ino by (intro view_inv_replace [OF inv, where b = b]) auto
qed

lemma view_inv_attach_indirect:
  assumes inv: "view_inv s f" and ino: "live s ino" and z: "i_indirect1 (f ino) = 0"
    and b: "BLK_DATA_START \<le> b" "b < 4096" "blk_used s b" "unowned s f b"
    and zero: "blk s b = replicate BLOCK_SIZE 0"
    and i': "i_direct i' = i_direct (f ino)" "i_indirect1 i' = of_nat b" "i_reserve i' = i_reserve (f ino)"
  shows "view_inv s (f(ino := i'))" and "set (owned s i') = insert b (set (owned s (f ino)))"
    and "dec_u32s 128 (blk s b) = replicate 128 0"
proof -
  note own = view_invD(4) [OF inv ino]
  have ub: "unat (of_nat b :: u32) = b" using b(2) by (simp add: unat_of_nat)
  have nz: "(of_nat b :: u32) \<noteq> 0" using ub b(1) by (metis not_numeral_le_zero unat_0)
  have len: "length (i_direct (f ino)) = NDIRECT" using own_okD(1) [OF own] by (simp add: wf_inode_def)
  show tz: "dec_u32s 128 (blk s b) = replicate 128 0"
    by (rule nth_equalityI) (simp_all add: zero dec_u32s_def bslice_def min_def)
  have w: "wf_inode i'" using own_okD(1) [OF own] i' by (simp add: wf_inode_def)
  have nb: "b \<notin> set (owned s (f ino))" using b(4) ino by (simp add: unowned_def)
  let ?q = "i_direct (f ino) @ [of_nat b]"
  have flt: "filter (\<lambda>p. p \<noteq> 0) (ptr_list s i') = filter (\<lambda>p. p \<noteq> 0) (i_direct (f ino)) @ [of_nat b]"
    using i' nz tz ub by (simp add: ptr_list_def)
  have flt0: "filter (\<lambda>p. p \<noteq> 0) (ptr_list s (f ino)) = filter (\<lambda>p. p \<noteq> 0) (i_direct (f ino))"
    using z by (simp add: ptr_list_def)
  have o: "owned s i' = owned s (f ino) @ [b]" by (simp add: owned_def flt flt0 ub)
  then show s: "set (owned s i') = insert b (set (owned s (f ino)))" by simp
  have "own_ok s i'" using own nb b w o by (auto simp: own_ok_def)
  then show "view_inv s (f(ino := i'))"
    using view_invD(1,2) [OF inv] s b(4) ino by (intro view_inv_replace [OF inv, where b = b]) auto
qed

lemma view_inv_attach_table:
  assumes inv: "view_inv s f" and ino: "live s ino" and n: "n = i_indirect1 (f ino)" "n \<noteq> 0"
    and tbl: "tbl = dec_u32s 128 (blk s (unat n))" and idx: "idx < 128" "tbl ! idx = 0"
    and b: "BLK_DATA_START \<le> b" "b < 4096" "blk_used s b" "unowned s f b"
  shows "view_inv (put_blk (unat n) (enc_u32s (tbl[idx := of_nat b])) s) f"
    and "set (owned (put_blk (unat n) (enc_u32s (tbl[idx := of_nat b])) s) (f ino)) = insert b (set (owned s (f ino)))"
    and "dec_u32s 128 (blk (put_blk (unat n) (enc_u32s (tbl[idx := of_nat b])) s) (unat n)) = tbl[idx := of_nat b]"
    and "blk_used (put_blk (unat n) (enc_u32s (tbl[idx := of_nat b])) s) = blk_used s"
    and "live (put_blk (unat n) (enc_u32s (tbl[idx := of_nat b])) s) = live s"
proof -
  let ?buf = "enc_u32s (tbl[idx := of_nat b])"
  let ?t = "put_blk (unat n) ?buf s"
  note own = view_invD(4) [OF inv ino]
  note d = view_invD(3) [OF inv]
  have len: "length (i_direct (f ino)) = NDIRECT" using own_okD(1) [OF own] by (simp add: wf_inode_def)
  have nr: "BLK_DATA_START \<le> unat n" "unat n < 4096"
    using view_invD(7) [OF inv ino indirect_owned] n by auto
  have blen: "length ?buf = BLOCK_SIZE" by (simp add: tbl)
  show dec: "dec_u32s 128 (blk ?t (unat n)) = tbl[idx := of_nat b]"
    using d nr by (simp add: dec_enc_u32s_len tbl)
  show u: "blk_used ?t = blk_used s" using d nr by (simp add: fun_eq_iff blk_used_def)
  have iu: "ino_used ?t = ino_used s" using d nr by (simp add: fun_eq_iff ino_used_def)
  then show "live ?t = live s" by (simp add: fun_eq_iff live_def)
  have v: "vol_ok ?t" using view_invD(1) [OF inv] blen by simp
  have c: "counters_ok ?t"
    using view_invD(2) [OF inv] nfree_cong [of ?t s] u iu nr meta_synced_put_blk [OF d, of "unat n" ?buf]
    by (simp add: counters_ok_def)
  let ?k = "11 + idx"
  have p: "ptr_list ?t (f ino) = (ptr_list s (f ino))[?k := of_nat b]"
    using n tbl dec len by (simp add: ptr_list_def list_update_append)
  have k: "?k < length (ptr_list s (f ino))" "ptr_list s (f ino) ! ?k = 0"
    using n tbl idx len by (simp_all add: ptr_list_def nth_append)
  have nb: "b \<notin> set (owned s (f ino))" using b(4) ino by (simp add: unowned_def)
  note oa = own_ok_attach [OF own own_okD(1) [OF own] k p b(1,2) _ nb]
  show s: "set (owned ?t (f ino)) = insert b (set (owned s (f ino)))" using oa(2) b(3) u by simp
  have ok: "own_ok ?t (f ino)" using oa(1) b(3) u by simp
  have "blk ?t (unat (i_indirect1 (f i))) = blk s (unat (i_indirect1 (f i)))"
    if "live s i" "i \<noteq> ino" "i_indirect1 (f i) \<noteq> 0" for i
  proof -
    have m: "unat (i_indirect1 (f i)) \<in> set (owned s (f i))" "unat n \<in> set (owned s (f ino))"
      using indirect_owned that(3) n by simp_all
    with view_invD(6) [OF inv that(1) ino that(2)] have "unat (i_indirect1 (f i)) \<noteq> unat n" by auto
    with view_invD(7) [OF inv that(1) m(1)] d nr show ?thesis by auto
  qed
  then have "view_inv ?t (f(ino := f ino))"
    using v c iu u ok s b(4) ino by (intro view_inv_replace [OF inv, where b = b]) auto
  then show "view_inv ?t f" by simp
qed

section \<open>Writing the inode back\<close>

lemma view_inv_put_inode:
  assumes inv: "view_inv s (f(ino := i))" and ino: "valid_ino ino" "wf_inode i"
    and f: "\<And>j. live s j \<Longrightarrow> j \<noteq> ino \<Longrightarrow> f j = inode_at s j"
  shows "vol_inv (put_inode ino i s)"
proof -
  note v = view_invD(1) [OF inv]
  note p = put_inode_ok [OF v ino] put_inode_used [OF v ino]
  have "view_inv (put_inode ino i s) (f(ino := i))"
  proof (rule view_inv_transport(1) [OF inv p(1)])
    show "counters_ok (put_inode ino i s)" using view_invD(2) [OF inv] put_inode_counters [OF v ino] by simp
    show "ino_used (put_inode ino i s) = ino_used s" by (rule p(6))
    show "blk_used s b \<Longrightarrow> blk_used (put_inode ino i s) b" for b by (simp add: p(5))
    fix j
    assume "live s j" "i_indirect1 ((f(ino := i)) j) \<noteq> 0"
    with view_invD(7) [OF inv _ indirect_owned]
    have "BLK_DATA_START \<le> unat (i_indirect1 ((f(ino := i)) j)) \<and> unat (i_indirect1 ((f(ino := i)) j)) < TOTAL_BLOCKS"
      by fastforce
    then show "blk (put_inode ino i s) (unat (i_indirect1 ((f(ino := i)) j))) = blk s (unat (i_indirect1 ((f(ino := i)) j)))"
      by (intro put_inode_data [OF v ino]) auto
  qed
  then show ?thesis
    unfolding vol_inv_def by (rule view_inv_cong) (use p f in \<open>auto simp: live_def\<close>)
qed

section \<open>A fresh, zeroed block\<close>

text \<open>
  \<open>alloc_block\<close> followed by writing a block of zeros, as every caller does: the block was
  free, nobody owns it, and no block in use has changed.
\<close>

lemma view_inv_fresh:
  assumes inv: "view_inv s f" and a: "alloc_block s = Some (r, s1)"
  obtains b t where "r = int b" "t = put_blk b (replicate BLOCK_SIZE 0) s1"
    "BLK_DATA_START \<le> b" "b < 4096" "\<not> blk_used s b" "view_inv t f" "unowned t f b" "blk_used t b"
    "blk t b = replicate BLOCK_SIZE 0" "ino_used t = ino_used s" "live t = live s"
    "same_session s t" "tick t = tick s" "\<And>c. blk_used s c \<Longrightarrow> blk_used t c"
    "\<And>c. BLK_IMAP < c \<Longrightarrow> c < TOTAL_BLOCKS \<Longrightarrow> c \<noteq> b \<Longrightarrow> blk t c = blk s c"
    "\<And>i. live s i \<Longrightarrow> ptr_list t (f i) = ptr_list s (f i)"
proof -
  obtain b where b: "r = int b" "BLK_DATA_START \<le> b" "b < 4096" "view_inv s1 f" "unowned s f b"
    "unowned s1 f b" "blk_used s1 b" "\<not> blk_used s b" "ino_used s1 = ino_used s" "same_session s s1"
    "tick s1 = tick s" "\<And>c. blk_used s c \<Longrightarrow> blk_used s1 c"
    "\<And>c. BLK_IMAP < c \<Longrightarrow> c < TOTAL_BLOCKS \<Longrightarrow> blk s1 c = blk s c"
    "\<And>i. live s i \<Longrightarrow> ptr_list s1 (f i) = ptr_list s (f i)"
    by (rule view_inv_alloc [OF inv a]) blast
  let ?t = "put_blk b (replicate BLOCK_SIZE 0) s1"
  have l1: "live s1 = live s" by (simp add: fun_eq_iff live_def b(9))
  have no: "unat (i_indirect1 (f i)) \<noteq> b" if "live s1 i" "i_indirect1 (f i) \<noteq> 0" for i
    using b(6) that indirect_owned [OF that(2), of s1] by (auto simp: unowned_def)
  have bt: "b < TOTAL_BLOCKS" "length (replicate BLOCK_SIZE (0::u8)) = BLOCK_SIZE" using b(3) by simp_all
  note p = view_inv_put_blk [OF b(4,2) bt no]
  note d = view_invD(3) [OF b(4)]
  show thesis
  proof (rule that [of b ?t])
    show "view_inv ?t f" by (rule p(1)) assumption+
    show "live ?t = live s" using p(4) l1 by simp
    show "unowned ?t f b" using p(7) b(6) by simp
    show "ptr_list ?t (f i) = ptr_list s (f i)" if "live s i" for i
      using p(5) [of i] b(14) [OF that] that l1 by simp
    show "ino_used ?t = ino_used s" using p(3) b(9) by simp
    show "blk_used ?t b" "\<And>c. blk_used s c \<Longrightarrow> blk_used ?t c" using p(2) b(7,12) by simp_all
    show "blk ?t b = replicate BLOCK_SIZE 0" using d b(3) by simp
    show "blk ?t c = blk s c" if "BLK_IMAP < c" "c < TOTAL_BLOCKS" "c \<noteq> b" for c
      using d b(3,13) that by simp
  qed (use b in auto)
qed

lemma nonzero_inj:
  assumes "distinct (filter (\<lambda>p. p \<noteq> 0) xs)" and "a < length xs" and "c < length xs"
    and "xs ! a = xs ! c" and "xs ! a \<noteq> 0"
  shows "a = c"
  using assms
proof (induction xs arbitrary: a c)
  case Nil
  then show ?case by simp
next
  case (Cons x xs)
  have "xs ! k \<noteq> x" if "k < length xs" "x \<noteq> 0" for k
    using Cons.prems(1) that by (auto dest: nth_mem)
  then show ?case
    using Cons by (cases a; cases c) (auto split: if_splits)
qed

lemma own_ok_ptr_inj:
  assumes "own_ok s i" and "a < length (ptr_list s i)" and "c < length (ptr_list s i)"
    and "ptr_list s i ! a = ptr_list s i ! c" and "ptr_list s i ! a \<noteq> 0"
  shows "a = c"
  using nonzero_inj [OF _ assms(2-5)] assms(1) by (simp add: own_ok_def owned_distinct)

lemma own_ok_direct_inj:
  assumes "own_ok s i" and "a < NDIRECT" and "c < NDIRECT" and "i_direct i ! a \<noteq> 0"
    and "i_direct i ! a = i_direct i ! c"
  shows "a = c"
  using own_ok_ptr_inj [OF assms(1), of a c] own_okD(1) [OF assms(1)] assms(2-5)
  by (simp add: wf_inode_def ptr_list_def nth_append)

lemma own_ok_direct_indirect:
  assumes "own_ok s i" and "a < NDIRECT" and "i_direct i ! a \<noteq> 0"
  shows "i_direct i ! a \<noteq> i_indirect1 i"
  using own_ok_ptr_inj [OF assms(1), of a NDIRECT] own_okD(1) [OF assms(1)] assms(2,3)
  by (auto simp: wf_inode_def ptr_list_def nth_append)

lemma own_ok_direct_range:
  assumes "own_ok s i" and "a < NDIRECT" and "i_direct i ! a \<noteq> 0"
  shows "BLK_DATA_START \<le> unat (i_direct i ! a)" "unat (i_direct i ! a) < 4096"
    "blk_used s (unat (i_direct i ! a))" "unat (i_direct i ! a) \<in> set (owned s i)"
proof -
  have "i_direct i ! a \<in> set (i_direct i)"
    using own_okD(1) [OF assms(1)] assms(2) by (simp add: wf_inode_def)
  from direct_owned [OF this assms(3)] show "unat (i_direct i ! a) \<in> set (owned s i)" .
  with assms(1) show "BLK_DATA_START \<le> unat (i_direct i ! a)" "unat (i_direct i ! a) < 4096"
    "blk_used s (unat (i_direct i ! a))" by (auto simp: own_ok_def)
qed

text \<open>A direct block of a live inode is no inode's indirect block.\<close>

lemma view_inv_direct_plain:
  assumes inv: "view_inv s f" and ino: "live s ino" and a: "a < NDIRECT" "i_direct (f ino) ! a \<noteq> 0"
    and i: "live s i" "i_indirect1 (f i) \<noteq> 0"
  shows "unat (i_indirect1 (f i)) \<noteq> unat (i_direct (f ino) ! a)"
proof (cases "i = ino")
  case True
  with own_ok_direct_indirect [OF view_invD(4) [OF inv ino] a] show ?thesis
    by (auto simp flip: word_unat_eq_iff)
next
  case False
  with view_invD(6) [OF inv i(1) ino] indirect_owned [OF i(2), of s]
    own_ok_direct_range(4) [OF view_invD(4) [OF inv ino] a] show ?thesis by auto
qed

end
