(* ===== verification/Edit.thy ===== *)
theory Edit
  imports Volume
begin

text \<open>
  Editing an inode: the operations of \<open>dir.c\<close> and \<open>file.c\<close> read an inode into a local
  copy, allocate blocks for the copy, write those blocks, and write the copy back. The lemmas
  of this theory carry the volume's invariant through these steps.
\<close>

section \<open>Steps of an edit\<close>

text \<open>
  \<open>step_ok s d i t\<close>: from \<open>s\<close> the code has reached \<open>t\<close> while holding the copy \<open>i\<close> of inode
  \<open>d\<close>; the volume's invariant holds with the copy in place of the inode, blocks in use
  that \<open>d\<close> does not own and all inodes on the disk are as before.
\<close>

definition step_ok :: "fs \<Rightarrow> nat \<Rightarrow> inode \<Rightarrow> fs \<Rightarrow> bool" where
  "step_ok s d i t \<longleftrightarrow> view_inv t ((inode_at s)(d := i)) \<and> live t = live s \<and> ino_used t = ino_used s \<and>
     same_session s t \<and> (\<forall>j. valid_ino j \<longrightarrow> inode_at t j = inode_at s j) \<and>
     (\<forall>c. blk_used s c \<longrightarrow> blk_used t c) \<and>
     (\<forall>c. BLK_DATA_START \<le> c \<and> c < TOTAL_BLOCKS \<and> blk_used s c \<and> c \<notin> set (owned s (inode_at s d)) \<longrightarrow>
        blk t c = blk s c)"

lemma step_okD:
  assumes "step_ok s d i t"
  shows "view_inv t ((inode_at s)(d := i))" "live t = live s" "ino_used t = ino_used s" "same_session s t"
    "\<And>j. valid_ino j \<Longrightarrow> inode_at t j = inode_at s j" "\<And>c. blk_used s c \<Longrightarrow> blk_used t c"
    "\<And>c. BLK_DATA_START \<le> c \<Longrightarrow> c < TOTAL_BLOCKS \<Longrightarrow> blk_used s c \<Longrightarrow> c \<notin> set (owned s (inode_at s d)) \<Longrightarrow>
       blk t c = blk s c"
  using assms by (simp_all add: step_ok_def)

lemma step_ok_refl: "vol_inv s \<Longrightarrow> step_ok s d (inode_at s d) s"
  by (simp add: step_ok_def vol_inv_def)

lemma view_inv_tick [simp]: "view_inv (tick_update f s) v = view_inv s v"
proof -
  have l: "live (tick_update f s) = live s" by (simp add: fun_eq_iff live_def)
  have o: "owned (tick_update f s) = owned s" by (simp add: fun_eq_iff owned_def ptr_list_def)
  have ok: "own_ok (tick_update f s) = own_ok s" by (simp add: fun_eq_iff own_ok_def o)
  show ?thesis unfolding view_inv_def l o ok by simp
qed

lemma live_tick [simp]: "live (tick_update f s) = live s"
  by (simp add: fun_eq_iff live_def)

lemma step_ok_tick [simp]: "step_ok s d i (tick_update f t) = step_ok s d i t"
  by (simp add: step_ok_def)

lemma step_ok_same_ptrs: "step_ok s d i t \<Longrightarrow> same_ptrs j i \<Longrightarrow> step_ok s d j t"
  using view_inv_same_ptrs [of t "(inode_at s)(d := i)" j d] by (simp add: step_ok_def)

text \<open>A new direct block for the copy, in slot \<open>bn\<close>.\<close>

lemma step_new_direct:
  assumes st: "step_ok s d i t" and ino: "live s d" and bn: "bn < NDIRECT" "i_direct i ! bn = 0"
    and a: "alloc_block t = Some (r, t1)"
    and i': "i_direct i' = (i_direct i)[bn := of_int r]" "i_indirect1 i' = i_indirect1 i" "i_reserve i' = i_reserve i"
  obtains b t2 where "r = int b" "BLK_DATA_START \<le> b" "b < 4096" "snd (dev_write_block (replicate BLOCK_SIZE 0) b t1) = t2"
    "step_ok s d i' t2" "blk t2 b = replicate BLOCK_SIZE 0" "\<not> blk_used t b" "tick t2 = tick t"
    "\<And>c. BLK_DATA_START \<le> c \<Longrightarrow> c < TOTAL_BLOCKS \<Longrightarrow> c \<noteq> b \<Longrightarrow> blk t2 c = blk t c"
    "set (owned t2 i') = insert b (set (owned t i))" "nfree_blocks t = Suc (nfree_blocks t2)"
proof -
  let ?f = "(inode_at s)(d := i)"
  note inv = step_okD(1) [OF st]
  obtain b t2 where b: "r = int b" "t2 = put_blk b (replicate BLOCK_SIZE 0) t1"
    "BLK_DATA_START \<le> b" "b < 4096" "\<not> blk_used t b" "view_inv t2 ?f" "unowned t2 ?f b" "blk_used t2 b"
    "blk t2 b = replicate BLOCK_SIZE 0" "ino_used t2 = ino_used t" "live t2 = live t"
    "same_session t t2" "tick t2 = tick t" "\<And>c. blk_used t c \<Longrightarrow> blk_used t2 c"
    "\<And>c. BLK_IMAP < c \<Longrightarrow> c < TOTAL_BLOCKS \<Longrightarrow> c \<noteq> b \<Longrightarrow> blk t2 c = blk t c"
    "\<And>j. live t j \<Longrightarrow> ptr_list t2 (?f j) = ptr_list t (?f j)"
    by (rule view_inv_fresh [OF inv a]) blast
  have live: "live t2 d" using b(11) step_okD(2) [OF st] ino by simp
  note at = view_inv_attach_direct [OF b(6) live, of bn b i', simplified, OF bn b(3,4,8,7)]
  have ptr: "ptr_list t2 i = ptr_list t i" using b(16) [of d] step_okD(2) [OF st] ino by simp
  have it: "inode_at t2 j = inode_at s j" if "valid_ino j" for j
    using inode_at_cong [OF that, of t2 t] b(3,15) step_okD(5) [OF st that] by simp
  have nb: "c \<noteq> b" if "blk_used s c" for c using step_okD(6) [OF st that] b(5) by auto
  have "step_ok s d i' t2"
    unfolding step_ok_def
    using at(1) i' b step_okD [OF st] it nb by (auto intro: same_session_trans)
  moreover have "set (owned t2 i') = insert b (set (owned t i))"
    using at(2) i' b(1) owned_cong [OF ptr] by simp
  moreover have "nfree_blocks t = Suc (nfree_blocks t2)"
  proof -
    have "dev_ok t1" using blocks.alloc_sound [OF view_invD(1) [OF inv] a] b(1) by (simp add: vol_okD)
    then have "blk_used t2 = blk_used t1" using b(2-4) by (simp add: fun_eq_iff blk_used_def)
    then show ?thesis using alloc_block_nfree [OF view_invD(1) [OF inv] a] nfree_cong(1) [of t2 t1] by simp
  qed
  ultimately show thesis using b by (intro that [of b t2]) (auto simp: dev_write_snd)
qed

text \<open>Writing a direct block of the copy.\<close>

lemma step_write_direct:
  assumes st: "step_ok s d i t" and ino: "live s d" and bn: "bn < NDIRECT" "i_direct i ! bn \<noteq> 0"
    and len: "length buf = BLOCK_SIZE"
    and new: "unat (i_direct i ! bn) \<in> set (owned s (inode_at s d)) \<or> \<not> blk_used s (unat (i_direct i ! bn))"
  shows "step_ok s d i (put_blk (unat (i_direct i ! bn)) buf t)"
    and "dev_write_block buf (unat (i_direct i ! bn)) t = (FS_OK, put_blk (unat (i_direct i ! bn)) buf t)"
    and "BLK_DATA_START \<le> c \<Longrightarrow> c < TOTAL_BLOCKS \<Longrightarrow>
      blk (put_blk (unat (i_direct i ! bn)) buf t) c = (if c = unat (i_direct i ! bn) then buf else blk t c)"
    and "ptr_list (put_blk (unat (i_direct i ! bn)) buf t) i = ptr_list t i"
proof -
  let ?f = "(inode_at s)(d := i)" and ?p = "unat (i_direct i ! bn)"
  note inv = step_okD(1) [OF st]
  have lt: "live t d" using step_okD(2) [OF st] ino by simp
  have own: "own_ok t i" using view_invD(4) [OF inv lt] by simp
  note r = own_ok_direct_range [OF own bn]
  note dv = view_invD(3) [OF inv]
  have pt: "?p < TOTAL_BLOCKS" using r(2) by simp
  have no: "unat (i_indirect1 (?f j)) \<noteq> ?p" if "live t j" "i_indirect1 (?f j) \<noteq> 0" for j
    using view_inv_direct_plain [OF inv lt bn(1) _ that] bn by simp
  note w = view_inv_put_blk [OF inv r(1) pt len no]
  have rng: "BLK_DATA_START \<le> ?p" by (rule r(1))
  have it: "inode_at (put_blk ?p buf t) j = inode_at s j" if "valid_ino j" for j
    using inode_at_cong [OF that, of "put_blk ?p buf t" t] dv pt rng step_okD(5) [OF st that] by simp
  show "dev_write_block buf ?p t = (FS_OK, put_blk ?p buf t)" using dv pt by (rule dev_write_ok)
  show "blk (put_blk ?p buf t) c = (if c = ?p then buf else blk t c)" if "BLK_DATA_START \<le> c" "c < TOTAL_BLOCKS"
    using dv pt that by simp
  show "ptr_list (put_blk ?p buf t) i = ptr_list t i" using w(5) [of d] lt by simp
  have u: "blk_used (put_blk ?p buf t) = blk_used t" "ino_used (put_blk ?p buf t) = ino_used t"
    "live (put_blk ?p buf t) = live t"
    using w(2-4) by simp_all
  have vi: "view_inv (put_blk ?p buf t) ?f" by (rule w(1))
  show "step_ok s d i (put_blk ?p buf t)"
    unfolding step_ok_def
    using u vi step_okD [OF st] it new dv pt by auto
qed

text \<open>Writing the copy back ends the operation.\<close>

lemma step_write_inode:
  assumes st: "step_ok s d i t" and ino: "live s d" and j: "same_ptrs j i"
  shows "write_inode d j t = (FS_OK, put_inode d j t)" and "vol_inv (put_inode d j t)"
    and "live (put_inode d j t) = live s" and "same_session s (put_inode d j t)"
    and "inode_at (put_inode d j t) d = j"
    and "\<And>k. valid_ino k \<Longrightarrow> k \<noteq> d \<Longrightarrow> inode_at (put_inode d j t) k = inode_at s k"
    and "\<And>c. BLK_DATA_START \<le> c \<Longrightarrow> c < TOTAL_BLOCKS \<Longrightarrow> blk (put_inode d j t) c = blk t c"
    and "blk_used (put_inode d j t) = blk_used t" and "ino_used (put_inode d j t) = ino_used s"
    and "vol_ok (put_inode d j t)"
proof -
  note inv = step_okD(1) [OF st]
  note v = view_invD(1) [OF inv]
  have lt: "live t d" using step_okD(2) [OF st] ino by simp
  have d: "valid_ino d" using ino by (rule live_valid)
  have w: "wf_inode j" using view_invD(5) [OF inv lt] same_ptrs_own [OF j] by simp
  note p = put_inode_ok [OF v d w] put_inode_used [OF v d w]
  show "write_inode d j t = (FS_OK, put_inode d j t)" by (rule put_inode_eq(1) [OF v d])
  have "view_inv t (((inode_at s)(d := i))(d := j))"
    by (rule view_inv_same_ptrs [OF inv]) (simp add: j)
  then have vj: "view_inv t ((inode_at s)(d := j))" by simp
  show "vol_inv (put_inode d j t)"
    by (rule view_inv_put_inode [OF vj d w]) (use step_okD(2,5) [OF st] in \<open>auto simp: live_def\<close>)
  show "live (put_inode d j t) = live s" using p(6) step_okD(2) [OF st] by (simp add: fun_eq_iff live_def)
  show "same_session s (put_inode d j t)" using step_okD(4) [OF st] by simp
  show "inode_at (put_inode d j t) d = j" by (rule p(3))
  show "inode_at (put_inode d j t) k = inode_at s k" if "valid_ino k" "k \<noteq> d" for k
    using p(4) that step_okD(5) [OF st] by simp
  show "blk (put_inode d j t) c = blk t c" if "BLK_DATA_START \<le> c" "c < TOTAL_BLOCKS" for c
    using put_inode_data [OF v d w that] .
  show "blk_used (put_inode d j t) = blk_used t" by (rule p(5))
  show "ino_used (put_inode d j t) = ino_used s" using p(6) step_okD(3) [OF st] by simp
  show "vol_ok (put_inode d j t)" by (rule p(1))
qed

end
