(* ===== verification/Dir.thy ===== *)
theory Dir
  imports Edit
begin

text \<open>
  \<open>project3/src/dir.c\<close>: directories as sequences of 64-byte entries in direct blocks, and
  path resolution. Results are \<open>Inl\<close> of an error code or \<open>Inr\<close> of a value.
\<close>

section \<open>Blocks of a directory\<close>

definition read_dir_block :: "inode \<Rightarrow> nat \<Rightarrow> fs \<Rightarrow> bytes option" where
  "read_dir_block i bn s =
     (if bn \<ge> NDIRECT then None
      else if i_direct i ! bn = 0 then None
      else dev_read_block (unat (i_direct i ! bn)) s)"

text \<open>
  \<open>ensure_dir_block\<close>: the inode and the block's contents afterwards. In the branch of an
  existing block the read's result is ignored; a failed read leaves an uninitialised buffer.
\<close>

definition ensure_dir_block :: "inode \<Rightarrow> nat \<Rightarrow> fs \<Rightarrow> ((int + inode \<times> bytes) \<times> fs) option" where
  "ensure_dir_block i bn s =
     (if bn \<ge> NDIRECT then Some (Inl FS_ENOSPC, s)
      else if i_direct i ! bn = 0 then do {
        (b, s1) \<leftarrow> alloc_block s;
        if b < 0 then Some (Inl b, s1)
        else let zero = replicate BLOCK_SIZE 0;
                 s2 = snd (dev_write_block zero (nat b) s1);
                 (ct, s3) = ts_now s2 in
             Some (Inr (i\<lparr>i_direct := (i_direct i)[bn := of_int b], i_blocks := i_blocks i + 1,
                         i_ctime := ct\<rparr>, zero), s3) }
      else do {
        buf \<leftarrow> dev_read_block (unat (i_direct i ! bn)) s;
        Some (Inr (i, buf), s) })"

section \<open>Names\<close>

text \<open>\<open>strncmp(a, b, n) == 0\<close> and \<open>strncpy(dst, src, n)\<close> into a zeroed array of \<open>len\<close> bytes.\<close>

definition strncmp_eq :: "nat \<Rightarrow> bytes \<Rightarrow> bytes \<Rightarrow> bool" where
  "strncmp_eq n a b \<longleftrightarrow> take n (cstr a) = take n (cstr b)"

definition strncpy_buf :: "nat \<Rightarrow> nat \<Rightarrow> bytes \<Rightarrow> bytes" where
  "strncpy_buf len n src = take n (cstr src) @ replicate (len - length (take n (cstr src))) 0"

section \<open>Directory operations\<close>

text \<open>
  The loop of \<open>dir_lookup\<close> and \<open>dir_remove\<close>: the first slot from \<open>k\<close> to \<open>n\<close> exclusive whose
  entry is in use and has the name; a slot whose block cannot be read is skipped.
\<close>

definition read_slot :: "inode \<Rightarrow> nat \<Rightarrow> fs \<Rightarrow> dirent option" where
  "read_slot i k s =
     map_option (\<lambda>blk. dec_dirent (bslice DIRENT_SIZE (k * DIRENT_SIZE mod BLOCK_SIZE) blk))
       (read_dir_block i (k * DIRENT_SIZE div BLOCK_SIZE) s)"

function dir_scan :: "inode \<Rightarrow> bytes \<Rightarrow> nat \<Rightarrow> nat \<Rightarrow> fs \<Rightarrow> (nat \<times> dirent) option" where
  "dir_scan i name k n s =
     (if k \<ge> n then None
      else case read_slot i k s of
             None \<Rightarrow> dir_scan i name (Suc k) n s
           | Some de \<Rightarrow>
               if de_ino de \<noteq> 0 \<and> strncmp_eq NAME_MAX_LEN (de_name de) name then Some (k, de)
               else dir_scan i name (Suc k) n s)"
  by pat_completeness auto
termination
  by (relation "measure (\<lambda>(i, name, k, n, s). n - k)") auto

declare dir_scan.simps [simp del]

definition dir_lookup :: "nat \<Rightarrow> bytes \<Rightarrow> fs \<Rightarrow> int + nat" where
  "dir_lookup dir_ino name s =
     (case read_inode dir_ino s of
        None \<Rightarrow> Inl FS_ERR
      | Some din \<Rightarrow>
          if \<not> is_dir_mode (i_mode din) then Inl FS_ENOTDIR
          else case dir_scan din name 0 (unat (i_size din) div DIRENT_SIZE) s of
                 Some (_, de) \<Rightarrow> Inr (unat (de_ino de))
               | None \<Rightarrow> Inl FS_ENOENT)"

definition mk_dirent :: "bytes \<Rightarrow> u8 \<Rightarrow> nat \<Rightarrow> dirent" where
  "mk_dirent name ftype child =
     \<lparr>de_ino = of_nat child, de_reclen = of_nat DIRENT_SIZE, de_file_type = ftype,
      de_name = strncpy_buf NAME_MAX_LEN (NAME_MAX_LEN - 1) name\<rparr>"

definition dir_add :: "nat \<Rightarrow> bytes \<Rightarrow> u8 \<Rightarrow> nat \<Rightarrow> fs \<Rightarrow> (int \<times> fs) option" where
  "dir_add dir_ino name ftype child s =
     (case read_inode dir_ino s of
        None \<Rightarrow> Some (FS_ERR, s)
      | Some din \<Rightarrow>
          if \<not> is_dir_mode (i_mode din) then Some (FS_ENOTDIR, s)
          else
            let idx = unat (i_size din) div DIRENT_SIZE;
                bn = idx * DIRENT_SIZE div BLOCK_SIZE;
                off = idx * DIRENT_SIZE mod BLOCK_SIZE in
            do {
              (r, s1) \<leftarrow> ensure_dir_block din bn s;
              case r of
                Inl _ \<Rightarrow> Some (FS_ENOSPC, s1)
              | Inr (din1, buf) \<Rightarrow>
                  let buf1 = splice_at buf off (enc_dirent (mk_dirent name ftype child));
                      (rc, s2) = dev_write_block buf1 (unat (i_direct din1 ! bn)) s1 in
                  if rc \<noteq> FS_OK then Some (FS_ERR, s2)
                  else let (mt, s3) = ts_now s2 in
                       Some (write_inode dir_ino
                         (din1\<lparr>i_size := i_size din1 + of_nat DIRENT_SIZE, i_mtime := mt\<rparr>) s3) })"

definition dir_remove :: "nat \<Rightarrow> bytes \<Rightarrow> fs \<Rightarrow> int \<times> fs" where
  "dir_remove dir_ino name s =
     (case read_inode dir_ino s of
        None \<Rightarrow> (FS_ERR, s)
      | Some din \<Rightarrow>
          (case dir_scan din name 0 (unat (i_size din) div DIRENT_SIZE) s of
             None \<Rightarrow> (FS_ENOENT, s)
           | Some (k, _) \<Rightarrow>
               let bn = k * DIRENT_SIZE div BLOCK_SIZE; off = k * DIRENT_SIZE mod BLOCK_SIZE in
               (case read_dir_block din bn s of
                  None \<Rightarrow> (FS_ENOENT, s)
                | Some buf \<Rightarrow>
                    let (rc, s1) = dev_write_block (splice_at buf off (replicate DIRENT_SIZE 0))
                                     (unat (i_direct din ! bn)) s in
                    if rc \<noteq> FS_OK then (FS_ERR, s1)
                    else let (mt, s2) = ts_now s1 in
                         (FS_OK, snd (write_inode dir_ino (din\<lparr>i_mtime := mt\<rparr>) s2)))))"

section \<open>Path resolution\<close>

text \<open>
  The loop of \<open>namei\<close> over the rest of the path \<open>p\<close>: the next segment, cut to 55 bytes, is
  looked up in \<open>cur\<close>; empty segments are skipped. 47 is the slash.
\<close>

function namei_loop :: "bytes \<Rightarrow> nat \<Rightarrow> fs \<Rightarrow> int + nat" where
  "namei_loop p cur s =
     (if p = [] then Inr cur
      else
        let seg = take (NAME_MAX_LEN - 1) (takeWhile (\<lambda>c. c \<noteq> 47) p);
            rest = drop 1 (dropWhile (\<lambda>c. c \<noteq> 47) p) in
        if seg = [] then namei_loop rest cur s
        else case dir_lookup cur seg s of
               Inl r \<Rightarrow> Inl r
             | Inr nxt \<Rightarrow> namei_loop rest nxt s)"
  by pat_completeness auto
termination
proof (relation "measure (\<lambda>(p, cur, s). length p)", goal_cases)
  case 1
  then show ?case by simp
next
  case (2 p cur s seg rest)
  have "length (dropWhile (\<lambda>c. c \<noteq> 47) p) \<le> length p" by (rule length_dropWhile_le)
  with 2 show ?case by (cases "dropWhile (\<lambda>c. c \<noteq> 47) p") auto
next
  case (3 p cur s seg rest nxt)
  have "length (dropWhile (\<lambda>c. c \<noteq> 47) p) \<le> length p" by (rule length_dropWhile_le)
  with 3 show ?case by (cases "dropWhile (\<lambda>c. c \<noteq> 47) p") auto
qed

declare namei_loop.simps [simp del]

definition namei :: "bytes \<Rightarrow> fs \<Rightarrow> int + nat" where
  "namei path s =
     (if path = [] then Inl FS_ERR
      else if hd path = 47 then namei_loop (tl path) (unat (root_ino (g_sb s))) s
      else namei_loop path (unat (g_cwd s)) s)"

section \<open>A directory as an association list\<close>

text \<open>
  What a directory says: the names and inode numbers of its entries in use, in the order of
  their slots.
\<close>

definition slot_entry :: "inode \<Rightarrow> nat \<Rightarrow> fs \<Rightarrow> (bytes \<times> nat) option" where
  "slot_entry i k s =
     (case read_slot i k s of
        None \<Rightarrow> None
      | Some de \<Rightarrow> if de_ino de = 0 then None else Some (cstr (de_name de), unat (de_ino de)))"

definition entries_upto :: "inode \<Rightarrow> nat \<Rightarrow> fs \<Rightarrow> (bytes \<times> nat) list" where
  "entries_upto i n s = List.map_filter (\<lambda>k. slot_entry i k s) [0..<n]"

definition dir_entries :: "fs \<Rightarrow> nat \<Rightarrow> (bytes \<times> nat) list" where
  "dir_entries s d = entries_upto (inode_at s d) (unat (i_size (inode_at s d)) div DIRENT_SIZE) s"

lemma slot_pos: "k * DIRENT_SIZE div BLOCK_SIZE = k div 8" "k * DIRENT_SIZE mod BLOCK_SIZE = k mod 8 * DIRENT_SIZE"
  using mult_mod_left [of k 8 64] div_mult2_eq [of "k * 64" 64 8] by simp_all

lemma entries_upto_Suc:
  "entries_upto i (Suc n) s = entries_upto i n s @ (case slot_entry i n s of None \<Rightarrow> [] | Some e \<Rightarrow> [e])"
  by (simp add: entries_upto_def map_filter_def split: option.split)

lemma entries_upto_cong:
  "(\<And>k. k < n \<Longrightarrow> slot_entry i k s = slot_entry j k t) \<Longrightarrow> entries_upto i n s = entries_upto j n t"
  by (induction n) (simp_all add: entries_upto_Suc, simp add: entries_upto_def map_filter_def)

lemma length_cstr: "length (cstr b) \<le> length b"
  by (simp add: cstr_def length_takeWhile_le)

lemma read_slot_name: "read_slot i k s = Some de \<Longrightarrow> take NAME_MAX_LEN (cstr (de_name de)) = cstr (de_name de)"
proof -
  assume "read_slot i k s = Some de"
  then have "length (de_name de) \<le> NAME_MAX_LEN"
    by (auto simp: read_slot_def dec_dirent_def bslice_def)
  with length_cstr [of "de_name de"] show ?thesis by simp
qed

text \<open>The scan finds the first entry of the name.\<close>

lemma dir_scan_lookup:
  "map_option (\<lambda>(_, de). unat (de_ino de)) (dir_scan i name k n s) =
     map_of (List.map_filter (\<lambda>k. slot_entry i k s) [k..<n]) (take NAME_MAX_LEN (cstr name))"
proof (induction i name k n s rule: dir_scan.induct)
  case (1 i name k n s)
  show ?case
  proof (cases "k < n")
    case False
    then show ?thesis by (simp add: dir_scan.simps [of i name k n s] map_filter_def)
  next
    case True
    then have u: "[k..<n] = k # [Suc k..<n]" by (rule upt_conv_Cons)
    show ?thesis
    proof (cases "read_slot i k s")
      case None
      with True "1.IH"(1) show ?thesis
        by (simp add: dir_scan.simps [of i name k n s] u map_filter_def slot_entry_def)
    next
      case (Some de)
      note nm = read_slot_name [OF Some]
      show ?thesis
      proof (cases "de_ino de \<noteq> 0 \<and> strncmp_eq NAME_MAX_LEN (de_name de) name")
        case True
        with \<open>k < n\<close> Some nm show ?thesis
          by (simp add: dir_scan.simps [of i name k n s] u map_filter_def slot_entry_def strncmp_eq_def)
      next
        case False
        with \<open>k < n\<close> Some nm "1.IH"(2) [OF _ Some False] show ?thesis
          by (auto simp: dir_scan.simps [of i name k n s] u map_filter_def slot_entry_def strncmp_eq_def)
      qed
    qed
  qed
qed

lemma dir_scan_bounds:
  "dir_scan i name k n s = Some (j, de) \<Longrightarrow>
   k \<le> j \<and> j < n \<and> read_slot i j s = Some de \<and> de_ino de \<noteq> 0 \<and> strncmp_eq NAME_MAX_LEN (de_name de) name \<and>
   (\<forall>m. k \<le> m \<and> m < j \<longrightarrow> \<not> (\<exists>e. slot_entry i m s = Some e \<and> fst e = take NAME_MAX_LEN (cstr name)))"
proof (induction i name k n s rule: dir_scan.induct)
  case (1 i name k n s)
  have "k < n" using "1.prems" by (auto simp: dir_scan.simps [of i name k n s] split: if_splits)
  show ?case
  proof (cases "\<exists>de. read_slot i k s = Some de \<and> de_ino de \<noteq> 0 \<and> strncmp_eq NAME_MAX_LEN (de_name de) name")
    case True
    with "1.prems" \<open>k < n\<close> show ?thesis by (auto simp: dir_scan.simps [of i name k n s])
  next
    case False
    then have sk: "dir_scan i name (Suc k) n s = Some (j, de)"
      using "1.prems" \<open>k < n\<close> by (auto simp: dir_scan.simps [of i name k n s] split: option.splits if_splits)
    have IH: "Suc k \<le> j \<and> j < n \<and> read_slot i j s = Some de \<and> de_ino de \<noteq> 0 \<and>
        strncmp_eq NAME_MAX_LEN (de_name de) name \<and>
        (\<forall>m. Suc k \<le> m \<and> m < j \<longrightarrow> \<not> (\<exists>e. slot_entry i m s = Some e \<and> fst e = take NAME_MAX_LEN (cstr name)))"
    proof (cases "read_slot i k s")
      case None
      with "1.IH"(1) \<open>k < n\<close> sk show ?thesis by simp
    next
      case (Some de')
      with False have "\<not> (de_ino de' \<noteq> 0 \<and> strncmp_eq NAME_MAX_LEN (de_name de') name)" by simp
      with "1.IH"(2) [OF _ Some] \<open>k < n\<close> sk show ?thesis by simp
    qed
    have "\<not> (\<exists>e. slot_entry i k s = Some e \<and> fst e = take NAME_MAX_LEN (cstr name))"
      using False read_slot_name [of i k s]
      by (auto simp: slot_entry_def strncmp_eq_def split: option.splits if_splits)
    with IH show ?thesis by (metis Suc_leD Suc_leI le_neq_implies_less)
  qed
qed

lemma dir_lookup_ok:
  assumes "vol_ok s" and "valid_ino d" and "is_dir_mode (i_mode (inode_at s d))"
  shows "dir_lookup d name s =
     (case map_of (dir_entries s d) (take NAME_MAX_LEN (cstr name)) of Some x \<Rightarrow> Inr x | None \<Rightarrow> Inl FS_ENOENT)"
proof -
  let ?i = "inode_at s d"
  have "map_of (dir_entries s d) (take NAME_MAX_LEN (cstr name)) =
      map_option (\<lambda>(_, de). unat (de_ino de)) (dir_scan ?i name 0 (unat (i_size ?i) div DIRENT_SIZE) s)"
    by (simp add: dir_entries_def entries_upto_def dir_scan_lookup)
  with assms show ?thesis by (auto simp: dir_lookup_def read_inode_ok split: option.split)
qed

text \<open>A well-formed directory: whole entries, at most 80, each in an allocated block.\<close>

definition n_slots :: "inode \<Rightarrow> nat" where
  "n_slots i = unat (i_size i) div DIRENT_SIZE"

definition dir_wf :: "fs \<Rightarrow> nat \<Rightarrow> bool" where
  "dir_wf s d \<longleftrightarrow> live s d \<and> is_dir_mode (i_mode (inode_at s d)) \<and>
     unat (i_size (inode_at s d)) = n_slots (inode_at s d) * DIRENT_SIZE \<and> n_slots (inode_at s d) \<le> 80 \<and>
     (\<forall>k < n_slots (inode_at s d). i_direct (inode_at s d) ! (k div 8) \<noteq> 0)"

lemma dir_entries_n_slots: "dir_entries s d = entries_upto (inode_at s d) (n_slots (inode_at s d)) s"
  by (simp add: dir_entries_def n_slots_def)

lemma slot_entry_eq:
  assumes "dev_ok s" and "k div 8 < NDIRECT" and "i_direct i ! (k div 8) \<noteq> 0"
    and "unat (i_direct i ! (k div 8)) < TOTAL_BLOCKS"
  shows "read_slot i k s = Some (dec_dirent (bslice DIRENT_SIZE (k mod 8 * DIRENT_SIZE) (blk s (unat (i_direct i ! (k div 8))))))"
  using assms by (simp add: read_slot_def read_dir_block_def slot_pos dev_read_ok)

section \<open>Adding an entry\<close>

text \<open>
  \<open>ensure_dir_block\<close> in slot \<open>bn\<close>: the copy has a direct block there, the buffer is its
  contents, and the other direct blocks keep their numbers and contents.
\<close>

lemma ensure_dir_block_ok:
  assumes inv: "vol_inv s" and ino: "live s d" and bn: "bn < NDIRECT"
    and e: "ensure_dir_block (inode_at s d) bn s = Some (r, t)"
  obtains i buf where "r = Inr (i, buf)" "step_ok s d i t" "i_direct i ! bn \<noteq> 0"
    "unat (i_direct i ! bn) \<in> set (owned s (inode_at s d)) \<or> \<not> blk_used s (unat (i_direct i ! bn))"
    "buf = blk t (unat (i_direct i ! bn))" "i_size i = i_size (inode_at s d)"
    "i_mode i = i_mode (inode_at s d)" "length (i_direct i) = NDIRECT"
    "\<And>a. a < NDIRECT \<Longrightarrow> a \<noteq> bn \<Longrightarrow> i_direct i ! a = i_direct (inode_at s d) ! a"
    "i_direct (inode_at s d) ! bn \<noteq> 0 \<Longrightarrow> i_direct i ! bn = i_direct (inode_at s d) ! bn"
    "\<And>a. a < NDIRECT \<Longrightarrow> i_direct (inode_at s d) ! a \<noteq> 0 \<Longrightarrow>
       blk t (unat (i_direct (inode_at s d) ! a)) = blk s (unat (i_direct (inode_at s d) ! a))"
    "nfree_blocks s \<le> nfree_blocks t + of_bool (i_direct (inode_at s d) ! bn = 0)"
proof -
  let ?i = "inode_at s d"
  note st = step_ok_refl [OF inv, of d]
  have vs: "view_inv s (inode_at s)" using inv by (simp add: vol_inv_def)
  note own = view_invD(4) [OF vs ino]
  have len: "length (i_direct ?i) = NDIRECT" using own_okD(1) [OF own] by (simp add: wf_inode_def)
  show thesis
  proof (cases "i_direct ?i ! bn = 0")
    case False
    note rng = own_ok_direct_range [OF own bn False]
    have "r = Inr (?i, blk s (unat (i_direct ?i ! bn)))" "t = s"
      using e bn False rng(2) view_invD(3) [OF vs] by (auto simp: ensure_dir_block_def dev_read_ok)
    with False rng st len show thesis by (intro that [of ?i]) auto
  next
    case True
    then obtain q s1 where a: "alloc_block s = Some (q, s1)"
      using e bn by (auto simp: ensure_dir_block_def Option.bind_eq_Some_conv)
    let ?c = "\<lambda>ct. ?i\<lparr>i_direct := (i_direct ?i)[bn := of_int q], i_blocks := i_blocks ?i + 1, i_ctime := ct\<rparr>"
    obtain b u where b: "q = int b" "BLK_DATA_START \<le> b" "b < 4096"
      "snd (dev_write_block (replicate BLOCK_SIZE 0) b s1) = u" "step_ok s d (?c (clock u (tick u))) u"
      "blk u b = replicate BLOCK_SIZE 0" "\<not> blk_used s b" "tick u = tick s"
      "\<And>c. BLK_DATA_START \<le> c \<Longrightarrow> c < TOTAL_BLOCKS \<Longrightarrow> c \<noteq> b \<Longrightarrow> blk u c = blk s c"
      "nfree_blocks s = Suc (nfree_blocks u)"
    proof -
      obtain b u where b: "q = int b" "BLK_DATA_START \<le> b" "b < 4096"
        "snd (dev_write_block (replicate BLOCK_SIZE 0) b s1) = u" "step_ok s d (?c 0) u"
        "blk u b = replicate BLOCK_SIZE 0" "\<not> blk_used s b" "tick u = tick s"
        "\<And>c. BLK_DATA_START \<le> c \<Longrightarrow> c < TOTAL_BLOCKS \<Longrightarrow> c \<noteq> b \<Longrightarrow> blk u c = blk s c"
        "nfree_blocks s = Suc (nfree_blocks u)"
        by (rule step_new_direct [OF st ino bn True a, of "?c 0"]) auto
      have "step_ok s d (?c (clock u (tick u))) u"
        by (rule step_ok_same_ptrs [OF b(5)]) (simp add: same_ptrs_def)
      with b show thesis by (intro that [of b u])
    qed
    let ?j = "?c (clock u (tick u))"
    have ub: "unat (of_nat b :: u32) = b" using b(3) by (simp add: unat_of_nat)
    have nz: "(of_nat b :: u32) \<noteq> 0" using ub b(2) by (metis not_numeral_le_zero unat_0)
    have res: "r = Inr (?j, replicate BLOCK_SIZE 0)" "t = u\<lparr>tick := Suc (tick u)\<rparr>"
      using e bn True a b(1,4) by (auto simp: ensure_dir_block_def ts_now_def Let_def)
    have keep: "blk u (unat (i_direct ?i ! k)) = blk s (unat (i_direct ?i ! k))"
      if "k < NDIRECT" "i_direct ?i ! k \<noteq> 0" for k
      using own_ok_direct_range [OF own that] b(7) by (intro b(9)) auto
    show thesis
      by (rule that [of ?j "replicate BLOCK_SIZE 0"])
        (use res b nz ub len bn True keep nfree_cong(1) [of t u] in \<open>auto simp: nth_list_update\<close>)
  qed
qed

text \<open>With a block in the slot already, or a free block anywhere, the call succeeds.\<close>

lemma ensure_dir_block_total:
  assumes inv: "vol_inv s" and ino: "live s d" and bn: "bn < NDIRECT"
    and room: "i_direct (inode_at s d) ! bn \<noteq> 0 \<or> (\<exists>b. BLK_DATA_START \<le> b \<and> b < 4096 \<and> \<not> blk_used s b)"
  shows "\<exists>r t. ensure_dir_block (inode_at s d) bn s = Some (r, t)"
proof -
  have vs: "view_inv s (inode_at s)" using inv by (simp add: vol_inv_def)
  show ?thesis
  proof (cases "i_direct (inode_at s d) ! bn = 0")
    case True
    then obtain r t where "alloc_block s = Some (r, t)" "0 \<le> r"
      using room blocks.alloc_complete [OF view_invD(1) [OF vs]] by metis
    with True bn show ?thesis by (auto simp: ensure_dir_block_def ts_now_def Let_def)
  next
    case False
    then show ?thesis
      using own_ok_direct_range(2) [OF view_invD(4) [OF vs ino] bn] bn view_invD(3) [OF vs]
      by (auto simp: ensure_dir_block_def dev_read_ok)
  qed
qed

text \<open>The new entry and its name as the directory reads it back.\<close>

lemma take_cstr_no_zero: "0 \<notin> set (take n (cstr b))"
  using cstr_no_zero [of b] by (meson in_set_takeD)

lemma strncpy_buf_len: "n \<le> len \<Longrightarrow> length (strncpy_buf len n src) = len"
  by (simp add: strncpy_buf_def)

lemma cstr_strncpy: "n < len \<Longrightarrow> cstr (strncpy_buf len n src) = take n (cstr src)"
  unfolding strncpy_buf_def by (rule cstr_pad) (auto simp: take_cstr_no_zero dest: in_set_takeD)

lemma wf_mk_dirent [simp]: "wf_dirent (mk_dirent name ft c)"
  by (simp add: wf_dirent_def mk_dirent_def strncpy_buf_len)

lemma mk_dirent_entry:
  "0 < c \<Longrightarrow> c < 2 ^ 32 \<Longrightarrow> de_ino (mk_dirent name ft c) \<noteq> 0 \<and> unat (de_ino (mk_dirent name ft c)) = c \<and>
   cstr (de_name (mk_dirent name ft c)) = take (NAME_MAX_LEN - 1) (cstr name)"
  by (simp add: mk_dirent_def cstr_strncpy unat_of_nat word_unat_eq_iff)

lemma slot_apart: "k div 8 = n div 8 \<Longrightarrow> k < (n::nat) \<Longrightarrow> k mod 8 * DIRENT_SIZE + DIRENT_SIZE \<le> n mod 8 * DIRENT_SIZE"
proof -
  assume "k div 8 = n div 8" "k < n"
  moreover have "k = k div 8 * 8 + k mod 8" "n = n div 8 * 8 + n mod 8" by simp_all
  ultimately have "k mod 8 < n mod 8" by linarith
  then show ?thesis by simp
qed

lemma slot_fits: "(n::nat) mod 8 * DIRENT_SIZE + DIRENT_SIZE \<le> BLOCK_SIZE"
  using mod_less_divisor [of 8 n] by simp

text \<open>
  Entries after a write of one slot in the block of slot \<open>n\<close>: the earlier ones are the same,
  slot \<open>n\<close> holds what was written.
\<close>

lemma slots_after_write:
  assumes own: "own_ok u i" and dev: "dev_ok t" and n: "n div 8 < NDIRECT" "i_direct i ! (n div 8) \<noteq> 0"
    and e: "length e = DIRENT_SIZE"
    and old: "length buf = BLOCK_SIZE"
    and blk: "\<And>a. a < NDIRECT \<Longrightarrow> i_direct i ! a \<noteq> 0 \<Longrightarrow> blk t (unat (i_direct i ! a)) =
       (if a = n div 8 then splice_at buf (n mod 8 * DIRENT_SIZE) e else blk u (unat (i_direct i ! a)))"
  shows "read_slot i n t = Some (dec_dirent e)"
    and "k div 8 < NDIRECT \<Longrightarrow> i_direct i ! (k div 8) \<noteq> 0 \<Longrightarrow> k \<noteq> n \<Longrightarrow>
      read_slot i k t = Some (dec_dirent (bslice DIRENT_SIZE (k mod 8 * DIRENT_SIZE)
        (if k div 8 = n div 8 then buf else blk u (unat (i_direct i ! (k div 8))))))"
proof -
  have fit: "n mod 8 * DIRENT_SIZE + length e \<le> length buf" using slot_fits [of n] e old by simp
  have rng: "unat (i_direct i ! (m div 8)) < TOTAL_BLOCKS" if "m div 8 < NDIRECT" "i_direct i ! (m div 8) \<noteq> 0" for m
    using own_ok_direct_range(2) [OF own that] by simp
  show "read_slot i n t = Some (dec_dirent e)"
    using slot_entry_eq [OF dev n rng [OF n]] blk [OF n] fit e by (simp add: slice_simps)
  assume k: "k div 8 < NDIRECT" "i_direct i ! (k div 8) \<noteq> 0" "k \<noteq> n"
  have apart: "k mod 8 * DIRENT_SIZE + DIRENT_SIZE \<le> n mod 8 * DIRENT_SIZE \<or>
      n mod 8 * DIRENT_SIZE + length e \<le> k mod 8 * DIRENT_SIZE" if "k div 8 = n div 8"
    using slot_apart [OF that] slot_apart [OF that [symmetric]] k(3) e by (cases "k < n") auto
  show "read_slot i k t = Some (dec_dirent (bslice DIRENT_SIZE (k mod 8 * DIRENT_SIZE)
        (if k div 8 = n div 8 then buf else blk u (unat (i_direct i ! (k div 8))))))"
    using slot_entry_eq [OF dev k(1,2) rng [OF k(1,2)]] blk [OF k(1,2)] fit apart
    by (simp add: slice_simps)
qed

lemma read_slot_direct: "i_direct i = i_direct j \<Longrightarrow> read_slot i k s = read_slot j k s"
  by (simp add: read_slot_def read_dir_block_def)

lemma slot_entry_direct: "i_direct i = i_direct j \<Longrightarrow> slot_entry i k s = slot_entry j k s"
  by (simp add: slot_entry_def read_slot_def read_dir_block_def)

lemma div8_lt: "k < (n::nat) \<Longrightarrow> n \<le> 80 \<Longrightarrow> k div 8 < NDIRECT"
  by auto

text \<open>
  What \<open>dir_add\<close> promises: the directory has the new entry at its end and is otherwise the
  same, the volume's invariant holds, and nothing else has changed: no other inode, no block
  in use that the directory does not own.
\<close>

definition only_changed :: "fs \<Rightarrow> nat \<Rightarrow> fs \<Rightarrow> bool" where
  "only_changed s d t \<longleftrightarrow> vol_inv t \<and> live t = live s \<and> ino_used t = ino_used s \<and> same_session s t \<and>
     (\<forall>j. valid_ino j \<and> j \<noteq> d \<longrightarrow> inode_at t j = inode_at s j) \<and>
     (\<forall>c. blk_used s c \<longrightarrow> blk_used t c) \<and>
     (\<forall>c. BLK_DATA_START \<le> c \<and> c < TOTAL_BLOCKS \<and> blk_used s c \<and> c \<notin> set (owned s (inode_at s d)) \<longrightarrow>
        blk t c = blk s c)"

lemma dir_add_ok:
  assumes inv: "vol_inv s" and dw: "dir_wf s d" and n: "n = n_slots (inode_at s d)" "n < 80"
    and c: "0 < c" "c < 2 ^ 32" and a: "dir_add d name ft c s = Some (r, t)"
  shows "r = FS_OK" and "only_changed s d t" and "dir_wf t d"
    and "dir_entries t d = dir_entries s d @ [(take (NAME_MAX_LEN - 1) (cstr name), c)]"
    and "n_slots (inode_at t d) = Suc n"
    and "nfree_blocks s \<le> nfree_blocks t + of_bool (i_direct (inode_at s d) ! (n div 8) = 0)"
    and "i_direct (inode_at t d) ! (n div 8) \<noteq> 0"
    and "i_mode (inode_at t d) = i_mode (inode_at s d)"
proof -
  let ?i = "inode_at s d" and ?bn = "n div 8" and ?off = "n mod 8 * DIRENT_SIZE"
  have ino: "live s d" and isd: "is_dir_mode (i_mode ?i)" and sz: "unat (i_size ?i) = n * DIRENT_SIZE"
    and alloc: "\<And>k. k < n \<Longrightarrow> i_direct ?i ! (k div 8) \<noteq> 0"
    using dw by (auto simp: dir_wf_def n)
  note vd = live_valid [OF ino]
  have vs: "view_inv s (inode_at s)" using inv by (simp add: vol_inv_def)
  have bn: "?bn < NDIRECT" using n(2) by auto
  have rd: "read_inode d s = Some ?i" using view_invD(1) [OF vs] vd by (rule read_inode_ok)
  have idx: "unat (i_size ?i) div DIRENT_SIZE = n" using sz by simp
  obtain e s1 where e: "ensure_dir_block ?i ?bn s = Some (e, s1)"
    using a rd isd idx slot_pos [of n] by (auto simp: dir_add_def Let_def Option.bind_eq_Some_conv)
  obtain i buf where i: "e = Inr (i, buf)" "step_ok s d i s1" "i_direct i ! ?bn \<noteq> 0"
    "unat (i_direct i ! ?bn) \<in> set (owned s ?i) \<or> \<not> blk_used s (unat (i_direct i ! ?bn))"
    "buf = blk s1 (unat (i_direct i ! ?bn))" "i_size i = i_size ?i" "i_mode i = i_mode ?i"
    "length (i_direct i) = NDIRECT"
    "\<And>a. a < NDIRECT \<Longrightarrow> a \<noteq> ?bn \<Longrightarrow> i_direct i ! a = i_direct ?i ! a"
    "i_direct ?i ! ?bn \<noteq> 0 \<Longrightarrow> i_direct i ! ?bn = i_direct ?i ! ?bn"
    "\<And>a. a < NDIRECT \<Longrightarrow> i_direct ?i ! a \<noteq> 0 \<Longrightarrow>
       blk s1 (unat (i_direct ?i ! a)) = blk s (unat (i_direct ?i ! a))"
    "nfree_blocks s \<le> nfree_blocks s1 + of_bool (i_direct ?i ! ?bn = 0)"
    by (rule ensure_dir_block_ok [OF inv ino bn e]) blast
  let ?p = "unat (i_direct i ! ?bn)"
  let ?e = "enc_dirent (mk_dirent name ft c)"
  let ?buf1 = "splice_at buf ?off ?e"
  have v1: "view_inv s1 ((inode_at s)(d := i))" and l1: "live s1 d"
    using step_okD(1,2) [OF i(2)] ino by auto
  have own1: "own_ok s1 i" using view_invD(4) [OF v1 l1] by simp
  note rng = own_ok_direct_range [OF own1 bn i(3)]
  have blen: "length buf = BLOCK_SIZE" using i(5) view_invD(3) [OF v1] rng(2) by simp
  have b1len: "length ?buf1 = BLOCK_SIZE" using blen slot_fits [of n] by (simp add: slice_simps)
  note w = step_write_direct [OF i(2) ino bn i(3) b1len i(4)]
  let ?s2 = "put_blk ?p ?buf1 s1"
  let ?s3 = "?s2\<lparr>tick := Suc (tick ?s2)\<rparr>"
  let ?j = "i\<lparr>i_size := i_size i + of_nat DIRENT_SIZE, i_mtime := clock ?s2 (tick ?s2)\<rparr>"
  have st3: "step_ok s d i ?s3" using w(1) by simp
  have sp: "same_ptrs ?j i" by (simp add: same_ptrs_def)
  note q = step_write_inode [OF st3 ino sp]
  have t: "r = FS_OK" "t = put_inode d ?j ?s3"
    using a rd isd idx slot_pos [of n] e i(1) w(2) q(1)
    by (auto simp: dir_add_def Let_def ts_now_def)
  show "r = FS_OK" by (rule t(1))
  have blks: "blk t x = (if x = ?p then ?buf1 else blk s1 x)" if "BLK_DATA_START \<le> x" "x < TOTAL_BLOCKS" for x
    using q(7) [OF that] w(3) [OF that] by (simp add: t)
  show dc: "only_changed s d t"
    unfolding only_changed_def t
    using q step_okD [OF i(2)] step_okD [OF st3] blks by auto
  have at: "inode_at t d = ?j" using q(5) by (simp add: t)
  have n32: "unat (i_size ?j) = Suc n * DIRENT_SIZE"
  proof -
    have "i_size ?i = of_nat (n * DIRENT_SIZE)" unfolding sz [symmetric] by simp
    then have "i_size ?j = of_nat (n * DIRENT_SIZE) + of_nat DIRENT_SIZE" using i(6) by simp
    then show ?thesis using n(2) by (simp only: of_nat_add [symmetric] unat_of_nat) simp
  qed
  have ns: "n_slots (inode_at t d) = Suc n" unfolding at n_slots_def n32 by simp
  have slot_of: "i_direct i ! (k div 8) \<noteq> 0" if "k < Suc n" for k
    using that i(3,9) alloc [of k] n(2) by (cases "k div 8 = ?bn") auto
  show "n_slots (inode_at t d) = Suc n" by (rule ns)
  show "i_direct (inode_at t d) ! ?bn \<noteq> 0" unfolding at using i(3) by simp
  show "i_mode (inode_at t d) = i_mode ?i" unfolding at using i(7) by simp
  have "blk_used t = blk_used s1"
    unfolding t q(8) using step_okD(1) [OF i(2)] rng by (simp add: fun_eq_iff blk_used_def view_invD(3))
  then show "nfree_blocks s \<le> nfree_blocks t + of_bool (i_direct ?i ! ?bn = 0)"
    using i(12) nfree_cong(1) [of t s1] by simp
  have lt: "live t d" using q(3) ino by (simp add: t)
  have dw1: "dir_wf t d"
    unfolding dir_wf_def ns unfolding at
    using lt isd n(2) slot_of n32 i(7) by auto
  then show "dir_wf t d" .
  have dev: "dev_ok t" using q(10) by (simp add: t vol_okD)
  have ba: "blk t (unat (i_direct i ! a)) =
       (if a = ?bn then ?buf1 else blk s1 (unat (i_direct i ! a)))" if "a < NDIRECT" "i_direct i ! a \<noteq> 0" for a
    using blks own_ok_direct_range [OF own1 that] own_ok_direct_inj [OF own1 that(1) bn that(2)]
    by (auto simp flip: word_unat_eq_iff)
  have elen: "length ?e = DIRENT_SIZE" by simp
  have sl1: "read_slot i n t = Some (dec_dirent ?e)"
    by (rule slots_after_write(1) [OF own1 dev bn i(3) elen blen]) (rule ba)
  have sl2: "read_slot i k t = Some (dec_dirent (bslice DIRENT_SIZE (k mod 8 * DIRENT_SIZE)
        (if k div 8 = ?bn then buf else blk s1 (unat (i_direct i ! (k div 8))))))"
    if "k div 8 < NDIRECT" "i_direct i ! (k div 8) \<noteq> 0" "k \<noteq> n" for k
    by (rule slots_after_write(2) [OF own1 dev bn i(3) elen blen]) (rule ba that; assumption)+
  have old: "slot_entry ?j k t = slot_entry ?i k s" if "k < n" for k
  proof -
    have k8: "k div 8 < NDIRECT" using that n(2) by auto
    note nz = alloc [OF that]
    have same: "i_direct i ! (k div 8) = i_direct ?i ! (k div 8)"
      using i(9) [OF k8] i(10) nz by (cases "k div 8 = ?bn") auto
    have "read_slot i k t = read_slot ?i k s"
      using sl2 [OF k8] same nz that i(5) i(11) [OF k8 nz]
        slot_entry_eq [OF view_invD(3) [OF vs] k8 nz] own_ok_direct_range(2) [OF view_invD(4) [OF vs ino] k8 nz]
      by auto
    then show ?thesis using read_slot_direct [of ?j i] by (simp add: slot_entry_def)
  qed
  have new: "slot_entry ?j n t = Some (take (NAME_MAX_LEN - 1) (cstr name), c)"
    using sl1 mk_dirent_entry [OF c] read_slot_direct [of ?j i] by (simp add: slot_entry_def)
  have "dir_entries t d = entries_upto ?j (Suc n) t"
    using ns by (simp add: dir_entries_n_slots at)
  also have "\<dots> = entries_upto ?j n t @ [(take (NAME_MAX_LEN - 1) (cstr name), c)]"
    unfolding entries_upto_Suc new by (simp only: option.case)
  also have "entries_upto ?j n t = dir_entries s d"
    unfolding dir_entries_n_slots n(1) [symmetric] by (rule entries_upto_cong) (rule old)
  finally show "dir_entries t d = dir_entries s d @ [(take (NAME_MAX_LEN - 1) (cstr name), c)]" .
qed

text \<open>
  A directory of 80 entries is full: the call fails and changes nothing. Below that it
  succeeds where its block is there or a data block is free.
\<close>

lemma dir_add_80:
  assumes inv: "vol_inv s" and dw: "dir_wf s d" and n: "n_slots (inode_at s d) = 80"
  shows "dir_add d name ft c s = Some (FS_ENOSPC, s)"
proof -
  have v: "vol_ok s" using inv by (simp add: vol_inv_def view_invD(1))
  have d: "valid_ino d" using dw live_valid [of s d] by (simp add: dir_wf_def)
  have "ensure_dir_block (inode_at s d) 10 s = Some (Inl FS_ENOSPC, s)"
    by (simp add: ensure_dir_block_def)
  with dw n show ?thesis by (simp add: dir_add_def dir_wf_def read_inode_ok [OF v d])
qed

lemma dir_add_total:
  assumes inv: "vol_inv s" and dw: "dir_wf s d"
    and room: "i_direct (inode_at s d) ! (n_slots (inode_at s d) div 8) \<noteq> 0 \<or>
       (\<exists>b. BLK_DATA_START \<le> b \<and> b < 4096 \<and> \<not> blk_used s b)"
  shows "\<exists>r t. dir_add d name ft c s = Some (r, t)"
proof (cases "n_slots (inode_at s d) = 80")
  case True
  with dir_add_80 [OF inv dw] show ?thesis by blast
next
  case False
  let ?i = "inode_at s d" and ?n = "n_slots (inode_at s d)"
  have n: "?n div 8 < NDIRECT" using False dw by (auto simp: dir_wf_def)
  have ino: "live s d" using dw by (simp add: dir_wf_def)
  have v: "vol_ok s" using inv by (simp add: vol_inv_def view_invD(1))
  obtain r t where e: "ensure_dir_block ?i (?n div 8) s = Some (r, t)"
    using ensure_dir_block_total [OF inv ino n room] by blast
  moreover have "is_dir_mode (i_mode ?i)" "unat (i_size ?i) div DIRENT_SIZE = ?n"
    using dw by (simp_all add: dir_wf_def n_slots_def)
  ultimately show ?thesis using slot_pos [of ?n]
    by (simp add: dir_add_def Let_def read_inode_ok [OF v live_valid [OF ino]] split: sum.split prod.split)
qed

section \<open>Removing an entry\<close>

lemma map_filter_upt_split:
  "k < n \<Longrightarrow> List.map_filter f [0..<n] = List.map_filter f [0..<k] @
     (case f k of None \<Rightarrow> [] | Some e \<Rightarrow> [e]) @ List.map_filter f [Suc k..<n]"
proof -
  assume "k < n"
  then have "[0..<n] = [0..<k] @ k # [Suc k..<n]"
    by (metis le0 less_imp_le_nat upt_add_eq_append upt_conv_Cons le_add_diff_inverse)
  then show ?thesis by (simp add: map_filter_def split: option.split)
qed

lemma map_filter_cong: "(\<And>k. k \<in> set ks \<Longrightarrow> f k = g k) \<Longrightarrow> List.map_filter f ks = List.map_filter g ks"
  by (induction ks) (auto simp: map_filter_def)

text \<open>
  \<open>dir_remove\<close> zeroes the first entry of the name: the listing loses that entry, the slot
  stays, and the size of the directory is what it was.
\<close>

lemma zero_dirent_free: "de_ino (dec_dirent (replicate DIRENT_SIZE 0)) = 0"
  by (simp add: dec_dirent_def bslice_def)

lemma dir_remove_ok:
  assumes inv: "vol_inv s" and dw: "dir_wf s d"
    and nm: "nm = take NAME_MAX_LEN (cstr name)" and x: "map_of (dir_entries s d) nm = Some x"
  obtains t where "dir_remove d name s = (FS_OK, t)" "only_changed s d t" "dir_wf t d"
    "dir_entries t d = remove1 (nm, x) (dir_entries s d)"
    "i_size (inode_at t d) = i_size (inode_at s d)" "blk_used t = blk_used s"
proof -
  let ?i = "inode_at s d" and ?n = "n_slots (inode_at s d)"
  have ino: "live s d" and n80: "?n \<le> 80"
    and alloc: "\<And>k. k < ?n \<Longrightarrow> i_direct ?i ! (k div 8) \<noteq> 0"
    using dw by (auto simp: dir_wf_def)
  note vd = live_valid [OF ino]
  have vs: "view_inv s (inode_at s)" using inv by (simp add: vol_inv_def)
  note v = view_invD(1) [OF vs] and own = view_invD(4) [OF vs ino]
  have rd: "read_inode d s = Some ?i" using v vd by (rule read_inode_ok)
  obtain k de where sc: "dir_scan ?i name 0 ?n s = Some (k, de)" and xk: "x = unat (de_ino de)"
    using x dir_scan_lookup [of ?i name 0 ?n s]
    by (auto simp: dir_entries_n_slots entries_upto_def nm)
  note b = dir_scan_bounds [OF sc]
  have kn: "k < ?n" using b by simp
  have ek: "slot_entry ?i k s = Some (nm, x)"
    using b read_slot_name [of ?i k s de] by (simp add: slot_entry_def xk nm strncmp_eq_def)
  let ?bn = "k div 8" and ?off = "k mod 8 * DIRENT_SIZE"
  have bn: "?bn < NDIRECT" by (rule div8_lt [OF kn n80])
  note nz = alloc [OF kn]
  note rng = own_ok_direct_range [OF own bn nz]
  let ?p = "unat (i_direct ?i ! ?bn)"
  let ?buf = "blk s ?p" and ?z = "replicate DIRENT_SIZE (0 :: u8)"
  have blen: "length ?buf = BLOCK_SIZE" using view_invD(3) [OF vs] rng(2) by simp
  let ?buf1 = "splice_at ?buf ?off ?z"
  have b1len: "length ?buf1 = BLOCK_SIZE" using blen slot_fits [of k] by (simp add: slice_simps)
  note w = step_write_direct [OF step_ok_refl [OF inv] ino bn nz b1len disjI1 [OF rng(4)]]
  define u where "u = put_blk ?p ?buf1 s\<lparr>tick := Suc (tick s)\<rparr>"
  let ?j = "?i\<lparr>i_mtime := clock s (tick s)\<rparr>"
  have su: "step_ok s d ?i u" using w(1) by (simp add: u_def)
  have sp: "same_ptrs ?j ?i" by (simp add: same_ptrs_def)
  note q = step_write_inode [OF su ino sp]
  let ?t = "put_inode d ?j u"
  have rb: "read_dir_block ?i ?bn s = Some ?buf"
    using bn nz view_invD(3) [OF vs] rng(2) by (simp add: read_dir_block_def dev_read_ok)
  have res: "dir_remove d name s = (FS_OK, ?t)"
    using rd sc rb w(2) slot_pos [of k]
    by (simp add: dir_remove_def n_slots_def ts_now_def u_def put_inode_def Let_def)
  have blks: "blk ?t y = (if y = ?p then ?buf1 else blk s y)" if "BLK_DATA_START \<le> y" "y < TOTAL_BLOCKS" for y
    using q(7) [OF that] w(3) [OF that] by (simp add: u_def)
  have dc: "only_changed s d ?t"
    unfolding only_changed_def
    using q step_okD [OF su] blks rng(4) by auto
  have at: "inode_at ?t d = ?j" by (rule q(5))
  have ns: "n_slots (inode_at ?t d) = ?n" by (simp add: at n_slots_def)
  have dw1: "dir_wf ?t d"
    using dw q(3) unfolding dir_wf_def ns unfolding at by (simp add: n_slots_def)
  have dev: "dev_ok ?t" using q(10) by (simp add: vol_okD)
  have ba: "blk ?t (unat (i_direct ?i ! a)) = (if a = ?bn then ?buf1 else blk s (unat (i_direct ?i ! a)))"
    if "a < NDIRECT" "i_direct ?i ! a \<noteq> 0" for a
    using blks own_ok_direct_range [OF own that] own_ok_direct_inj [OF own that(1) bn that(2)]
    by (auto simp flip: word_unat_eq_iff)
  have zlen: "length ?z = DIRENT_SIZE" by simp
  have sl1: "read_slot ?i k ?t = Some (dec_dirent ?z)"
    by (rule slots_after_write(1) [OF own dev bn nz zlen blen]) (rule ba)
  have gone: "slot_entry ?j k ?t = None"
    using sl1 read_slot_direct [of ?j ?i] zero_dirent_free by (simp add: slot_entry_def)
  have old: "slot_entry ?j m ?t = slot_entry ?i m s" if "m < ?n" "m \<noteq> k" for m
  proof -
    note m8 = div8_lt [OF that(1) n80] and mz = alloc [OF that(1)]
    have "read_slot ?i m ?t = Some (dec_dirent (bslice DIRENT_SIZE (m mod 8 * DIRENT_SIZE)
        (if m div 8 = ?bn then ?buf else blk s (unat (i_direct ?i ! (m div 8))))))"
      by (rule slots_after_write(2) [OF own dev bn nz zlen blen]) (rule ba m8 mz that(2); assumption)+
    also have "\<dots> = read_slot ?i m s"
      using slot_entry_eq [OF view_invD(3) [OF vs] m8 mz] own_ok_direct_range(2) [OF own m8 mz] by auto
    finally show ?thesis using read_slot_direct [of ?j ?i] by (simp add: slot_entry_def)
  qed
  let ?pre = "List.map_filter (\<lambda>m. slot_entry ?i m s) [0..<k]"
  let ?post = "List.map_filter (\<lambda>m. slot_entry ?i m s) [Suc k..<?n]"
  have es: "dir_entries s d = ?pre @ (nm, x) # ?post"
    using map_filter_upt_split [OF kn, of "\<lambda>m. slot_entry ?i m s"] ek
    by (simp add: dir_entries_n_slots entries_upto_def)
  have "dir_entries ?t d = entries_upto ?j ?n ?t"
    using ns by (simp add: dir_entries_n_slots at)
  also have "\<dots> = List.map_filter (\<lambda>m. slot_entry ?j m ?t) [0..<k] @
      List.map_filter (\<lambda>m. slot_entry ?j m ?t) [Suc k..<?n]"
    unfolding entries_upto_def map_filter_upt_split [OF kn] gone by simp
  also have "List.map_filter (\<lambda>m. slot_entry ?j m ?t) [0..<k] = ?pre"
    using kn by (intro map_filter_cong old) auto
  also have "List.map_filter (\<lambda>m. slot_entry ?j m ?t) [Suc k..<?n] = ?post"
    by (intro map_filter_cong old) auto
  finally have et: "dir_entries ?t d = ?pre @ ?post" .
  have "(nm, x) \<notin> set ?pre"
  proof
    assume "(nm, x) \<in> set ?pre"
    then obtain m where "m < k" "slot_entry ?i m s = Some (nm, x)"
      by (auto simp: map_filter_def)
    with b nm show False by auto
  qed
  with es et have "dir_entries ?t d = remove1 (nm, x) (dir_entries s d)"
    by (simp add: remove1_append)
  moreover have "blk_used ?t = blk_used s"
    unfolding q(8) using rng view_invD(3) [OF vs] by (simp add: u_def fun_eq_iff blk_used_def)
  ultimately show thesis using res dc dw1 at by (intro that [of ?t]) simp_all
qed

lemma dir_remove_absent:
  assumes "vol_ok s" and "valid_ino d" and "map_of (dir_entries s d) (take NAME_MAX_LEN (cstr name)) = None"
  shows "dir_remove d name s = (FS_ENOENT, s)"
proof -
  have "dir_scan (inode_at s d) name 0 (unat (i_size (inode_at s d)) div DIRENT_SIZE) s = None"
    using assms(3) dir_scan_lookup [of "inode_at s d" name 0 "unat (i_size (inode_at s d)) div DIRENT_SIZE" s]
    by (auto simp: dir_entries_def entries_upto_def)
  with assms(1,2) show ?thesis by (simp add: dir_remove_def read_inode_ok)
qed

end
