(* ===== verification/Blockmap.thy ===== *)
theory Blockmap
  imports Dir
begin

text \<open>
  \<open>project3/src/file.c\<close>, first half: the permission checks and the map from a file's logical
  blocks to the disk's, through ten direct pointers and one indirect block of 128. The
  contents of a file are abstracted to a function from positions to bytes, in which a hole is
  zeros; mapping a block for writing leaves it unchanged.
\<close>

section \<open>Permissions and block mapping\<close>

text \<open>0400, 0004, 0200 and 0002 in octal.\<close>

definition perm_can_read :: "inode \<Rightarrow> int \<Rightarrow> bool" where
  "perm_can_read i uid =
     (if uid = 0 then True
      else if i_uid i = of_int uid then i_mode i AND 0x100 \<noteq> 0
      else i_mode i AND 0x004 \<noteq> 0)"

definition perm_can_write :: "inode \<Rightarrow> int \<Rightarrow> bool" where
  "perm_can_write i uid =
     (if uid = 0 then True
      else if i_uid i = of_int uid then i_mode i AND 0x080 \<noteq> 0
      else i_mode i AND 0x002 \<noteq> 0)"

text \<open>
  \<open>alloc_block\<close> and the block of zeros written over the result, as the source does in each of
  the three places where it allocates.
\<close>

definition alloc_zeroed :: "fs \<Rightarrow> (int \<times> fs) option" where
  "alloc_zeroed s = do {
     (b, s1) \<leftarrow> alloc_block s;
     Some (b, if b < 0 then s1 else snd (dev_write_block (replicate BLOCK_SIZE 0) (nat b) s1)) }"

text \<open>
  The functions return an \<open>int\<close>: the block number cast from 32 bits, or a negative error code.
  The inode is the caller's copy, passed by address.
\<close>

definition ensure_indirect :: "inode \<Rightarrow> fs \<Rightarrow> (int \<times> inode \<times> fs) option" where
  "ensure_indirect i s =
     (if i_indirect1 i \<noteq> 0 then Some (FS_OK, i, s)
      else do {
        (b, s1) \<leftarrow> alloc_zeroed s;
        if b < 0 then Some (b, i, s1)
        else let (ct, s2) = ts_now s1 in
             Some (FS_OK, i\<lparr>i_indirect1 := of_int b, i_ctime := ct\<rparr>, s2) })"

definition map_direct :: "inode \<Rightarrow> nat \<Rightarrow> fs \<Rightarrow> (int \<times> inode \<times> fs) option" where
  "map_direct i bn s =
     (if i_direct i ! bn \<noteq> 0 then Some (sint (i_direct i ! bn), i, s)
      else do {
        (b, s1) \<leftarrow> alloc_zeroed s;
        if b < 0 then Some (b, i, s1)
        else let (ct, s2) = ts_now s1 in
             Some (sint (of_int b :: u32),
               i\<lparr>i_direct := (i_direct i)[bn := of_int b], i_blocks := i_blocks i + 1, i_ctime := ct\<rparr>, s2) })"

definition map_table :: "inode \<Rightarrow> nat \<Rightarrow> fs \<Rightarrow> (int \<times> inode \<times> fs) option" where
  "map_table i idx s =
     (case dev_read_block (unat (i_indirect1 i)) s of
        None \<Rightarrow> Some (FS_ERR, i, s)
      | Some buf \<Rightarrow>
          let tbl = dec_u32s 128 buf in
          if tbl ! idx \<noteq> 0 then Some (sint (tbl ! idx), i, s)
          else do {
            (b, s1) \<leftarrow> alloc_zeroed s;
            if b < 0 then Some (b, i, s1)
            else let (rc, s2) = dev_write_block (enc_u32s (tbl[idx := of_int b])) (unat (i_indirect1 i)) s1 in
                 if rc \<noteq> FS_OK then Some (FS_ERR, i, s2)
                 else let (ct, s3) = ts_now s2 in
                      Some (sint (of_int b :: u32), i\<lparr>i_blocks := i_blocks i + 1, i_ctime := ct\<rparr>, s3) })"

definition map_bn_for_write :: "inode \<Rightarrow> nat \<Rightarrow> fs \<Rightarrow> (int \<times> inode \<times> fs) option" where
  "map_bn_for_write i bn s =
     (if bn < NDIRECT then map_direct i bn s
      else if bn - NDIRECT \<ge> BLOCK_SIZE div 4 then Some (FS_ENOSPC, i, s)
      else do {
        (r, i1, s1) \<leftarrow> ensure_indirect i s;
        if r < 0 then Some (r, i1, s1) else map_table i1 (bn - NDIRECT) s1 })"

definition map_bn_for_read :: "inode \<Rightarrow> nat \<Rightarrow> fs \<Rightarrow> int" where
  "map_bn_for_read i bn s =
     (if bn < NDIRECT then if i_direct i ! bn \<noteq> 0 then sint (i_direct i ! bn) else FS_ERR
      else if i_indirect1 i = 0 then FS_ERR
      else if bn - NDIRECT \<ge> BLOCK_SIZE div 4 then FS_ERR
      else case dev_read_block (unat (i_indirect1 i)) s of
             None \<Rightarrow> FS_ERR
           | Some buf \<Rightarrow>
               let p = dec_u32s 128 buf ! (bn - NDIRECT) in if p \<noteq> 0 then sint p else FS_ERR)"

section \<open>The contents of a file\<close>

text \<open>
  \<open>phys s i bn\<close> is the disk block of logical block \<open>bn\<close>, 0 for a hole; the pointer of \<open>bn\<close> is
  entry \<open>slot_of bn\<close> of \<open>ptr_list\<close>, where entry 10 is the indirect block itself.
\<close>

definition slot_of :: "nat \<Rightarrow> nat" where
  "slot_of bn = (if bn < NDIRECT then bn else Suc bn)"

definition phys :: "fs \<Rightarrow> inode \<Rightarrow> nat \<Rightarrow> nat" where
  "phys s i bn = (if slot_of bn < length (ptr_list s i) then unat (ptr_list s i ! slot_of bn) else 0)"

definition file_byte :: "fs \<Rightarrow> inode \<Rightarrow> nat \<Rightarrow> u8" where
  "file_byte s i q =
     (if phys s i (q div BLOCK_SIZE) = 0 then 0 else blk s (phys s i (q div BLOCK_SIZE)) ! (q mod BLOCK_SIZE))"

text \<open>The largest file has 138 blocks.\<close>

abbreviation (input) FILE_BLOCKS :: nat where "FILE_BLOCKS \<equiv> 138"
abbreviation (input) FILE_MAX :: nat where "FILE_MAX \<equiv> 70656"

lemma slot_of_inj: "slot_of a = slot_of b \<longleftrightarrow> a = b"
  by (auto simp: slot_of_def split: if_splits)

lemma slot_of_not_indirect: "slot_of bn \<noteq> NDIRECT"
  by (auto simp: slot_of_def)

lemma length_ptr_list: "wf_inode i \<Longrightarrow> length (ptr_list s i) = (if i_indirect1 i = 0 then 11 else 139)"
  by (simp add: ptr_list_def wf_inode_def)

lemma phys_direct: "wf_inode i \<Longrightarrow> bn < NDIRECT \<Longrightarrow> phys s i bn = unat (i_direct i ! bn)"
  by (simp add: phys_def slot_of_def length_ptr_list) (simp add: ptr_list_def wf_inode_def nth_append)

lemma phys_table:
  "wf_inode i \<Longrightarrow> NDIRECT \<le> bn \<Longrightarrow> bn < FILE_BLOCKS \<Longrightarrow> i_indirect1 i \<noteq> 0 \<Longrightarrow>
   phys s i bn = unat (dec_u32s 128 (blk s (unat (i_indirect1 i))) ! (bn - NDIRECT))"
  by (simp add: phys_def slot_of_def length_ptr_list)
    (simp add: ptr_list_def wf_inode_def nth_append Suc_diff_le)

lemma phys_none:
  "wf_inode i \<Longrightarrow> NDIRECT \<le> bn \<Longrightarrow> i_indirect1 i = 0 \<or> FILE_BLOCKS \<le> bn \<Longrightarrow> phys s i bn = 0"
  by (auto simp: phys_def slot_of_def length_ptr_list)

lemma phys_cong: "ptr_list t j = ptr_list s i \<Longrightarrow> phys t j = phys s i"
  by (simp add: fun_eq_iff phys_def)

lemma phys_owned: "phys s i bn \<noteq> 0 \<Longrightarrow> phys s i bn \<in> set (owned s i)"
  by (auto simp: phys_def set_owned split: if_splits)

lemma phys_inj:
  assumes own: "own_ok s i" and a: "phys s i a \<noteq> 0" and eq: "phys s i a = phys s i b"
  shows "a = b"
proof -
  have l: "slot_of a < length (ptr_list s i)" "slot_of b < length (ptr_list s i)"
    using a eq by (auto simp: phys_def split: if_splits)
  with a eq have "ptr_list s i ! slot_of a = ptr_list s i ! slot_of b" "ptr_list s i ! slot_of a \<noteq> 0"
    by (auto simp: phys_def simp flip: word_unat_eq_iff)
  then have "slot_of a = slot_of b" using own_ok_ptr_inj [OF own l] by simp
  then show ?thesis by (simp add: slot_of_inj)
qed

lemma phys_range:
  assumes "own_ok s i" and "phys s i bn \<noteq> 0"
  shows "BLK_DATA_START \<le> phys s i bn" "phys s i bn < 4096" "blk_used s (phys s i bn)"
  using assms(1) phys_owned [OF assms(2)] by (auto simp: own_ok_def)

text \<open>A data block of a live inode is no inode's indirect block.\<close>

lemma phys_not_indirect:
  assumes inv: "view_inv s f" and ino: "live s d" and p: "phys s (f d) bn \<noteq> 0"
    and k: "live s k" "i_indirect1 (f k) \<noteq> 0"
  shows "unat (i_indirect1 (f k)) \<noteq> phys s (f d) bn"
proof (cases "k = d")
  case True
  note own = view_invD(4) [OF inv ino]
  have l: "slot_of bn < length (ptr_list s (f d))" using p by (auto simp: phys_def split: if_splits)
  have n: "NDIRECT < length (ptr_list s (f d))" "ptr_list s (f d) ! NDIRECT = i_indirect1 (f d)"
    using own_okD(1) [OF own] by (simp_all add: wf_inode_def ptr_list_def nth_append)
  have "ptr_list s (f d) ! NDIRECT \<noteq> ptr_list s (f d) ! slot_of bn"
    using own_ok_ptr_inj [OF own n(1) l] n(2) k(2) True slot_of_not_indirect [of bn] by auto
  with l n(2) True show ?thesis by (auto simp: phys_def simp flip: word_unat_eq_iff)
next
  case False
  with view_invD(6) [OF inv k(1) ino] indirect_owned [OF k(2), of s] phys_owned [OF p]
  show ?thesis by auto
qed

section \<open>Mapping for writing\<close>

text \<open>
  \<open>grows t i u j\<close>: the file of inode \<open>i\<close> in \<open>t\<close> has become that of \<open>j\<close> in \<open>u\<close> by gaining
  blocks of zeros that were free in \<open>t\<close>.
\<close>

definition grows :: "fs \<Rightarrow> inode \<Rightarrow> fs \<Rightarrow> inode \<Rightarrow> bool" where
  "grows t i u j \<longleftrightarrow> (\<forall>c. blk_used t c \<longrightarrow> blk_used u c) \<and>
     (\<forall>bn. if phys t i bn \<noteq> 0 then phys u j bn = phys t i bn \<and> blk u (phys t i bn) = blk t (phys t i bn)
           else phys u j bn = 0 \<or> blk u (phys u j bn) = replicate BLOCK_SIZE 0 \<and> \<not> blk_used t (phys u j bn))"

definition same_meta :: "inode \<Rightarrow> inode \<Rightarrow> bool" where
  "same_meta i j \<longleftrightarrow> i_mode j = i_mode i \<and> i_uid j = i_uid i \<and> i_size j = i_size i \<and>
     i_atime j = i_atime i \<and> i_mtime j = i_mtime i \<and> i_gid j = i_gid i \<and> i_links j = i_links i"

lemma same_meta_refl [simp]: "same_meta i i"
  by (simp add: same_meta_def)

lemma same_meta_trans: "same_meta i j \<Longrightarrow> same_meta j k \<Longrightarrow> same_meta i k"
  by (simp add: same_meta_def)

lemma growsD:
  assumes "grows t i u j"
  shows "\<And>c. blk_used t c \<Longrightarrow> blk_used u c"
    and "\<And>bn. phys t i bn \<noteq> 0 \<Longrightarrow> phys u j bn = phys t i bn"
    and "\<And>bn. phys t i bn \<noteq> 0 \<Longrightarrow> blk u (phys t i bn) = blk t (phys t i bn)"
    and "\<And>bn. phys t i bn = 0 \<Longrightarrow> phys u j bn \<noteq> 0 \<Longrightarrow>
      blk u (phys u j bn) = replicate BLOCK_SIZE 0 \<and> \<not> blk_used t (phys u j bn)"
proof -
  note g = assms [unfolded grows_def]
  show "blk_used t c \<Longrightarrow> blk_used u c" for c using g by blast
  show "phys t i bn \<noteq> 0 \<Longrightarrow> phys u j bn = phys t i bn" for bn
    using spec [OF conjunct2 [OF g], of bn] by simp
  show "phys t i bn \<noteq> 0 \<Longrightarrow> blk u (phys t i bn) = blk t (phys t i bn)" for bn
    using spec [OF conjunct2 [OF g], of bn] by simp
  show "phys t i bn = 0 \<Longrightarrow> phys u j bn \<noteq> 0 \<Longrightarrow>
      blk u (phys u j bn) = replicate BLOCK_SIZE 0 \<and> \<not> blk_used t (phys u j bn)" for bn
    using spec [OF conjunct2 [OF g], of bn] by simp
qed

lemma grows_refl [simp]: "grows t i t i"
  by (simp add: grows_def)

lemma grows_trans:
  assumes "grows t i u j" and "grows u j w k"
  shows "grows t i w k"
  unfolding grows_def
proof (intro conjI allI)
  note a = growsD [OF assms(1)] and b = growsD [OF assms(2)]
  show "blk_used t c \<longrightarrow> blk_used w c" for c using a(1) b(1) by blast
  fix bn
  show "if phys t i bn \<noteq> 0 then phys w k bn = phys t i bn \<and> blk w (phys t i bn) = blk t (phys t i bn)
    else phys w k bn = 0 \<or> blk w (phys w k bn) = replicate BLOCK_SIZE 0 \<and> \<not> blk_used t (phys w k bn)"
  proof (cases "phys t i bn = 0")
    case False
    with a(2,3) b(2,3) [of bn] show ?thesis by simp
  next
    case True
    with a(4) b(2-4) [of bn] a(1) show ?thesis by (cases "phys u j bn = 0") auto
  qed
qed

text \<open>Growing a file changes none of its bytes.\<close>

lemma grows_byte: "grows t i u j \<Longrightarrow> file_byte u j = file_byte t i"
proof
  fix q
  assume g: "grows t i u j"
  note d = growsD [OF g, of "q div BLOCK_SIZE"]
  show "file_byte u j q = file_byte t i q"
    by (cases "phys t i (q div BLOCK_SIZE) = 0")
      (use d(2-4) in \<open>auto simp: file_byte_def\<close>)
qed

lemma phys_tick [simp]: "phys (tick_update f s) = phys s" "file_byte (tick_update f s) = file_byte s"
  by (simp_all add: fun_eq_iff phys_def ptr_list_def file_byte_def)

lemma grows_tick [simp]: "grows t i (tick_update f u) j = grows t i u j"
  by (simp add: grows_def)

lemma nfree_tick [simp]: "nfree_blocks (tick_update f s) = nfree_blocks s"
  by (rule nfree_cong) simp

lemma phys_same_ptrs: "same_ptrs j i \<Longrightarrow> phys s j = phys s i"
  by (rule phys_cong) (simp add: ptr_list_def same_ptrs_def)

lemma step_ok_replace:
  "step_ok s d i u \<Longrightarrow> view_inv u ((inode_at s)(d := j)) \<Longrightarrow> step_ok s d j u"
  by (simp add: step_ok_def)

lemma step_ok_own: "step_ok s d i t \<Longrightarrow> live s d \<Longrightarrow> live t d \<and> own_ok t i"
  using view_invD(4) [OF step_okD(1), of s d i t d] step_okD(2) [of s d i t] by simp

lemma sint_block: "unat (p :: u32) < 4096 \<Longrightarrow> sint p = int (unat p)"
proof -
  assume h: "unat p < 4096"
  have e: "int (unat p) = uint p" by simp
  from h have "int (unat p) < 4096" by linarith
  then have "uint p < 4096" by (simp only: e)
  moreover have "- 2147483648 \<le> uint p" using uint_ge_0 [of p] by linarith
  ultimately have "sint p = uint p" by (simp add: sint_uint signed_take_bit_int_eq_self)
  then show "sint p = int (unat p)" by (simp only: e)
qed

lemma of_int_block: "b < 4096 \<Longrightarrow> unat (of_int (int b) :: u32) = b"
  by (simp add: unat_of_nat)

text \<open>A fresh block of zeros, while the code holds the copy \<open>i\<close> of inode \<open>d\<close>.\<close>

lemma step_fresh:
  assumes st: "step_ok s d i t" and ino: "live s d" and a: "alloc_zeroed t = Some (r, u)"
  obtains b where "r = int b" "BLK_DATA_START \<le> b" "b < 4096" "step_ok s d i u"
    "unowned u ((inode_at s)(d := i)) b" "blk_used u b" "\<not> blk_used t b"
    "blk u b = replicate BLOCK_SIZE 0" "ptr_list u i = ptr_list t i" "grows t i u i"
    "nfree_blocks t = Suc (nfree_blocks u)"
    "\<And>c. BLK_IMAP < c \<Longrightarrow> c < TOTAL_BLOCKS \<Longrightarrow> c \<noteq> b \<Longrightarrow> blk u c = blk t c"
proof -
  let ?f = "(inode_at s)(d := i)"
  note inv = step_okD(1) [OF st] and own = conjunct2 [OF step_ok_own [OF st ino]]
  obtain s1 where a1: "alloc_block t = Some (r, s1)"
    and u: "u = (if r < 0 then s1 else put_blk (nat r) (replicate BLOCK_SIZE 0) s1)"
    using a by (auto simp: alloc_zeroed_def dev_write_snd Option.bind_eq_Some_conv)
  obtain b w where b: "r = int b" "w = put_blk b (replicate BLOCK_SIZE 0) s1"
    "BLK_DATA_START \<le> b" "b < 4096" "\<not> blk_used t b" "view_inv w ?f" "unowned w ?f b" "blk_used w b"
    "blk w b = replicate BLOCK_SIZE 0" "ino_used w = ino_used t" "live w = live t"
    "same_session t w" "tick w = tick t" "\<And>c. blk_used t c \<Longrightarrow> blk_used w c"
    "\<And>c. BLK_IMAP < c \<Longrightarrow> c < TOTAL_BLOCKS \<Longrightarrow> c \<noteq> b \<Longrightarrow> blk w c = blk t c"
    "\<And>j. live t j \<Longrightarrow> ptr_list w (?f j) = ptr_list t (?f j)"
    by (rule view_inv_fresh [OF inv a1]) blast
  have [simp]: "u = w" using u b(1,2) by simp
  have ptr: "ptr_list u i = ptr_list t i" using b(16) [of d] step_ok_own [OF st ino] by simp
  have it: "inode_at u j = inode_at s j" if "valid_ino j" for j
    using inode_at_cong [OF that, of u t] b(3,15) step_okD(5) [OF st that] by simp
  have nb: "c \<noteq> b" if "blk_used s c" for c using step_okD(6) [OF st that] b(5) by auto
  have "step_ok s d i u"
    unfolding step_ok_def
    using b step_okD [OF st] it nb by (auto intro: same_session_trans)
  moreover have "grows t i u i"
    unfolding grows_def phys_cong [OF ptr]
  proof (intro conjI allI)
    fix bn
    show "if phys t i bn \<noteq> 0 then phys t i bn = phys t i bn \<and> blk u (phys t i bn) = blk t (phys t i bn)
      else phys t i bn = 0 \<or> blk u (phys t i bn) = replicate BLOCK_SIZE 0 \<and> \<not> blk_used t (phys t i bn)"
      using phys_range [OF own, of bn] b(5) b(15) [of "phys t i bn"] by (cases "phys t i bn = b") auto
  qed (use b(14) in auto)
  moreover have "nfree_blocks t = Suc (nfree_blocks u)"
  proof -
    have p: "blk_used u = blk_used s1"
      using b(2,3,4) view_invD(3) [OF b(6)] vol_okD(1) view_invD(1) [OF inv] blocks.alloc_sound [OF view_invD(1) [OF inv] a1]
      by (auto simp: fun_eq_iff blk_used_def b(1))
    have "blk_used s1 = (blk_used t)(b := True)"
      using blocks.alloc_sound [OF view_invD(1) [OF inv] a1] b(1) by simp
    with p b(3-5) show ?thesis
      unfolding nfree_blocks_def by (intro n_free_take) auto
  qed
  ultimately show thesis using b ptr by (intro that [of b]) simp_all
qed

text \<open>
  \<open>edit_ok\<close> adds to \<open>step_ok\<close> that every block of the copy is the old inode's or was free, so
  that writing it harms nobody, and that the copy keeps the old inode's pointers.
\<close>

definition ptrs_ext :: "inode \<Rightarrow> inode \<Rightarrow> bool" where
  "ptrs_ext i j \<longleftrightarrow> (\<forall>k < NDIRECT. i_direct i ! k \<noteq> 0 \<longrightarrow> i_direct j ! k = i_direct i ! k) \<and>
     (i_indirect1 i \<noteq> 0 \<longrightarrow> i_indirect1 j = i_indirect1 i)"

lemma ptrs_ext_refl [simp]: "ptrs_ext i i"
  by (simp add: ptrs_ext_def)

lemma ptrs_ext_trans: "ptrs_ext i j \<Longrightarrow> ptrs_ext j k \<Longrightarrow> ptrs_ext i k"
  by (simp add: ptrs_ext_def)

lemma same_ptrs_ext: "same_ptrs j i \<Longrightarrow> ptrs_ext i j"
  by (simp add: ptrs_ext_def same_ptrs_def)

definition edit_ok :: "fs \<Rightarrow> nat \<Rightarrow> inode \<Rightarrow> fs \<Rightarrow> bool" where
  "edit_ok s d i t \<longleftrightarrow> step_ok s d i t \<and> ptrs_ext (inode_at s d) i \<and>
     (\<forall>c \<in> set (owned t i). c \<in> set (owned s (inode_at s d)) \<or> \<not> blk_used s c)"

lemma edit_okD:
  assumes "edit_ok s d i t"
  shows "step_ok s d i t" "\<And>c. c \<in> set (owned t i) \<Longrightarrow> c \<in> set (owned s (inode_at s d)) \<or> \<not> blk_used s c"
    "ptrs_ext (inode_at s d) i"
  using assms by (simp_all add: edit_ok_def)

lemma edit_ok_refl: "vol_inv s \<Longrightarrow> edit_ok s d (inode_at s d) s"
  by (simp add: edit_ok_def step_ok_refl)

lemma owned_tick [simp]: "owned (tick_update f s) = owned s"
  by (simp add: fun_eq_iff owned_def ptr_list_def)

lemma edit_ok_tick [simp]: "edit_ok s d i (tick_update f t) = edit_ok s d i t"
  by (simp add: edit_ok_def)

lemma edit_ok_grow:
  assumes "edit_ok s d i t" and "step_ok s d j u" and "set (owned u j) = insert b (set (owned t i))"
    and "\<not> blk_used t b" and "ptrs_ext i j"
  shows "edit_ok s d j u"
  using assms step_okD(6) [OF edit_okD(1) [OF assms(1)]] by (auto simp: edit_ok_def intro: ptrs_ext_trans)

text \<open>
  What each part of the mapping gives: a block for \<open>bn\<close>, the copy of the inode still sound,
  and the file's bytes as they were.
\<close>

definition mapped :: "fs \<Rightarrow> nat \<Rightarrow> fs \<Rightarrow> inode \<Rightarrow> nat \<Rightarrow> int \<Rightarrow> inode \<Rightarrow> fs \<Rightarrow> bool" where
  "mapped s d t i bn r j u \<longleftrightarrow> r = int (phys u j bn) \<and> phys u j bn \<noteq> 0 \<and> edit_ok s d j u \<and>
     grows t i u j \<and> same_meta i j"

lemma block_word:
  assumes "BLK_DATA_START \<le> b" and "b < 4096"
  shows "unat (of_int (int b) :: u32) = b" "(of_int (int b) :: u32) \<noteq> 0" "sint (of_int (int b) :: u32) = int b"
proof -
  show u: "unat (of_int (int b) :: u32) = b" using assms(2) by (rule of_int_block)
  show "(of_int (int b) :: u32) \<noteq> 0" using u assms(1) by (metis not_numeral_le_zero unat_0)
  show "sint (of_int (int b) :: u32) = int b" using sint_block [of "of_int (int b)"] assms(2) unfolding u by simp
qed

lemma map_direct_ok:
  assumes ed: "edit_ok s d i t" and ino: "live s d" and bn: "bn < NDIRECT"
    and m: "map_direct i bn t = Some (r, j, u)"
  shows "mapped s d t i bn r j u" and "nfree_blocks t \<le> Suc (nfree_blocks u)" and "i_indirect1 j = i_indirect1 i"
proof -
  note st = edit_okD(1) [OF ed]
  note own = conjunct2 [OF step_ok_own [OF st ino]]
  note w = own_okD(1) [OF own]
  have "mapped s d t i bn r j u \<and> nfree_blocks t \<le> Suc (nfree_blocks u) \<and> i_indirect1 j = i_indirect1 i"
  proof (cases "i_direct i ! bn = 0")
    case False
    have "j = i" "u = t" "r = sint (i_direct i ! bn)" using m False by (auto simp: map_direct_def)
    with False ed own_ok_direct_range(2) [OF own bn False] phys_direct [OF w bn, of t] show ?thesis
      by (auto simp: mapped_def sint_block unat_eq_0)
  next
    case True
    then obtain q u1 where a: "alloc_zeroed t = Some (q, u1)"
      using m by (auto simp: map_direct_def Option.bind_eq_Some_conv)
    obtain b where b: "q = int b" "BLK_DATA_START \<le> b" "b < 4096" "step_ok s d i u1"
      "unowned u1 ((inode_at s)(d := i)) b" "blk_used u1 b" "\<not> blk_used t b"
      "blk u1 b = replicate BLOCK_SIZE 0" "ptr_list u1 i = ptr_list t i" "grows t i u1 i"
      "nfree_blocks t = Suc (nfree_blocks u1)"
      by (rule step_fresh [OF st ino a]) blast
    note bw = block_word [OF b(2,3)]
    let ?ct = "clock u1 (tick u1)"
    let ?j = "i\<lparr>i_direct := (i_direct i)[bn := of_int (int b)], i_blocks := i_blocks i + 1, i_ctime := ?ct\<rparr>"
    have res: "r = int b" "j = ?j" "u = tick_update (\<lambda>_. Suc (tick u1)) u1"
      using m True a b(1) bw(3) by (auto simp: map_direct_def ts_now_def Let_def)
    have l1: "live u1 d" using step_ok_own [OF b(4) ino] by simp
    have vj: "view_inv u1 ((inode_at s)(d := ?j))" and oj: "set (owned u1 ?j) = insert b (set (owned t i))"
      using view_inv_attach_direct [OF step_okD(1) [OF b(4)] l1, of bn b ?j] bn True b(2,3,5,6)
        owned_cong [OF b(9)] by simp_all
    have wj: "wf_inode ?j" using w by (simp add: wf_inode_def)
    have pj: "phys u1 ?j k = (if k = bn then b else phys u1 i k)" for k
    proof (cases "k < NDIRECT")
      case True
      with phys_direct [OF wj] phys_direct [OF w] w bn bw(1) show ?thesis by (simp add: wf_inode_def)
    next
      case False
      then show ?thesis
        using bn w by (simp add: phys_def slot_of_def ptr_list_def wf_inode_def nth_append)
    qed
    have z: "phys t i bn = 0" using phys_direct [OF w bn] True by simp
    then have z1: "phys u1 i bn = 0" using phys_cong [OF b(9)] by simp
    have "grows t i u1 ?j"
      unfolding grows_def
    proof (intro conjI allI)
      show "blk_used t c \<longrightarrow> blk_used u1 c" for c using growsD(1) [OF b(10)] by blast
      fix k
      show "if phys t i k \<noteq> 0 then phys u1 ?j k = phys t i k \<and> blk u1 (phys t i k) = blk t (phys t i k)
        else phys u1 ?j k = 0 \<or> blk u1 (phys u1 ?j k) = replicate BLOCK_SIZE 0 \<and> \<not> blk_used t (phys u1 ?j k)"
        unfolding pj using growsD(2-4) [OF b(10), of k] z b(7,8) by auto
    qed
    moreover have "ptrs_ext i ?j" using True bn by (auto simp: ptrs_ext_def nth_list_update intro: nth_list_update_neq)
    ultimately show ?thesis
      using edit_ok_grow [OF ed step_ok_replace [OF b(4) vj] oj b(7)] pj [of bn] b(2,11) res
      by (auto simp: mapped_def same_meta_def)
  qed
  then show "mapped s d t i bn r j u" "nfree_blocks t \<le> Suc (nfree_blocks u)" "i_indirect1 j = i_indirect1 i"
    by simp_all
qed

lemma ensure_indirect_ok:
  assumes ed: "edit_ok s d i t" and ino: "live s d" and m: "ensure_indirect i t = Some (r, j, u)"
  shows "r = FS_OK" "edit_ok s d j u" "grows t i u j" "same_meta i j" "i_indirect1 j \<noteq> 0"
    and "nfree_blocks t = nfree_blocks u + (if i_indirect1 i = 0 then 1 else 0)"
proof -
  note st = edit_okD(1) [OF ed]
  note own = conjunct2 [OF step_ok_own [OF st ino]]
  note w = own_okD(1) [OF own]
  have "r = FS_OK \<and> edit_ok s d j u \<and> grows t i u j \<and> same_meta i j \<and> i_indirect1 j \<noteq> 0 \<and>
    nfree_blocks t = nfree_blocks u + (if i_indirect1 i = 0 then 1 else 0)"
  proof (cases "i_indirect1 i = 0")
    case False
    with m ed show ?thesis by (auto simp: ensure_indirect_def)
  next
    case True
    then obtain q u1 where a: "alloc_zeroed t = Some (q, u1)"
      using m by (auto simp: ensure_indirect_def Option.bind_eq_Some_conv)
    obtain b where b: "q = int b" "BLK_DATA_START \<le> b" "b < 4096" "step_ok s d i u1"
      "unowned u1 ((inode_at s)(d := i)) b" "blk_used u1 b" "\<not> blk_used t b"
      "blk u1 b = replicate BLOCK_SIZE 0" "ptr_list u1 i = ptr_list t i" "grows t i u1 i"
      "nfree_blocks t = Suc (nfree_blocks u1)"
      by (rule step_fresh [OF st ino a]) blast
    note bw = block_word [OF b(2,3)]
    let ?j = "i\<lparr>i_indirect1 := of_int (int b), i_ctime := clock u1 (tick u1)\<rparr>"
    have res: "r = FS_OK" "j = ?j" "u = tick_update (\<lambda>_. Suc (tick u1)) u1"
      using m True a b(1) by (auto simp: ensure_indirect_def ts_now_def Let_def)
    have l1: "live u1 d" using step_ok_own [OF b(4) ino] by simp
    note at = view_inv_attach_indirect [OF step_okD(1) [OF b(4)] l1, of b ?j, simplified]
    have vj: "view_inv u1 ((inode_at s)(d := ?j))" and tz: "dec_u32s 128 (blk u1 b) = replicate 128 0"
      and oj: "set (owned u1 ?j) = insert b (set (owned t i))"
      using at True b(2,3,5,6,8) owned_cong [OF b(9)] by simp_all
    have wj: "wf_inode ?j" using w by (simp add: wf_inode_def)
    have pj: "phys u1 ?j k = phys u1 i k" for k
    proof (cases "k < NDIRECT")
      case True
      then show ?thesis using phys_direct [OF wj] phys_direct [OF w] by simp
    next
      case False
      then have "phys u1 i k = 0" using phys_none [OF w] True by simp
      moreover have "phys u1 ?j k = 0"
        using phys_none [OF wj, of k] phys_table [OF wj, of k u1] False bw tz
        by (cases "k < FILE_BLOCKS") simp_all
      ultimately show ?thesis by simp
    qed
    have "phys u1 ?j = phys u1 i" using pj by (simp add: fun_eq_iff)
    then have "grows t i u1 ?j" using b(10) by (simp add: grows_def)
    moreover have "ptrs_ext i ?j" using True by (simp add: ptrs_ext_def)
    ultimately show ?thesis
      using edit_ok_grow [OF ed step_ok_replace [OF b(4) vj] oj b(7)] bw(2) b(11) True res
      by (auto simp: same_meta_def)
  qed
  then show "r = FS_OK" "edit_ok s d j u" "grows t i u j" "same_meta i j" "i_indirect1 j \<noteq> 0"
    "nfree_blocks t = nfree_blocks u + (if i_indirect1 i = 0 then 1 else 0)"
    by simp_all
qed

text \<open>A change of the indirect block of the copy, in an entry that was free.\<close>

lemma step_table_frame:
  assumes inv: "view_inv t f" and ino: "live t d" and n: "i_indirect1 (f d) \<noteq> 0"
  shows "unat (i_indirect1 (f d)) < TOTAL_BLOCKS" "BLK_DATA_START \<le> unat (i_indirect1 (f d))"
    "dev_read_block (unat (i_indirect1 (f d))) t = Some (blk t (unat (i_indirect1 (f d))))"
    "unat (i_indirect1 (f d)) \<in> set (owned t (f d))"
proof -
  show o: "unat (i_indirect1 (f d)) \<in> set (owned t (f d))" using n by (rule indirect_owned)
  from view_invD(7) [OF inv ino o]
  show "unat (i_indirect1 (f d)) < TOTAL_BLOCKS" "BLK_DATA_START \<le> unat (i_indirect1 (f d))" by auto
  then show "dev_read_block (unat (i_indirect1 (f d))) t = Some (blk t (unat (i_indirect1 (f d))))"
    using view_invD(3) [OF inv] by (intro dev_read_ok)
qed

lemma map_table_ok:
  assumes ed: "edit_ok s d i t" and ino: "live s d" and n: "i_indirect1 i \<noteq> 0" and idx: "idx < 128"
    and m: "map_table i idx t = Some (r, j, u)"
  shows "mapped s d t i (NDIRECT + idx) r j u" and "nfree_blocks t \<le> Suc (nfree_blocks u)"
    and "i_indirect1 j = i_indirect1 i"
proof -
  let ?f = "(inode_at s)(d := i)" and ?n = "unat (i_indirect1 i)" and ?bn = "NDIRECT + idx"
  note st = edit_okD(1) [OF ed]
  note lo = step_ok_own [OF st ino]
  note own = conjunct2 [OF lo] and lt = conjunct1 [OF lo]
  note w = own_okD(1) [OF own]
  note inv = step_okD(1) [OF st]
  note tf = step_table_frame [OF inv lt, simplified, OF n]
  let ?tbl = "dec_u32s 128 (blk t ?n)"
  have ph: "phys t i ?bn = unat (?tbl ! idx)" using phys_table [OF w, of ?bn t] n idx by simp
  have "mapped s d t i ?bn r j u \<and> nfree_blocks t \<le> Suc (nfree_blocks u) \<and> i_indirect1 j = i_indirect1 i"
  proof (cases "?tbl ! idx = 0")
    case False
    have "j = i" "u = t" "r = sint (?tbl ! idx)" using m False tf(3) by (auto simp: map_table_def)
    with False ed ph phys_range(2) [OF own, of ?bn] show ?thesis
      by (auto simp: mapped_def sint_block unat_eq_0)
  next
    case True
    then obtain q u1 where a: "alloc_zeroed t = Some (q, u1)"
      using m tf(3) by (auto simp: map_table_def Option.bind_eq_Some_conv)
    obtain b where b: "q = int b" "BLK_DATA_START \<le> b" "b < 4096" "step_ok s d i u1"
      "unowned u1 ((inode_at s)(d := i)) b" "blk_used u1 b" "\<not> blk_used t b"
      "blk u1 b = replicate BLOCK_SIZE 0" "ptr_list u1 i = ptr_list t i" "grows t i u1 i"
      "nfree_blocks t = Suc (nfree_blocks u1)"
      "\<And>c. BLK_IMAP < c \<Longrightarrow> c < TOTAL_BLOCKS \<Longrightarrow> c \<noteq> b \<Longrightarrow> blk u1 c = blk t c"
      by (rule step_fresh [OF st ino a]) blast
    note bw = block_word [OF b(2,3)]
    note inv1 = step_okD(1) [OF b(4)]
    have l1: "live u1 d" using step_ok_own [OF b(4) ino] by simp
    have nb: "b \<noteq> ?n" using view_invD(7) [OF inv lt] tf(4) b(7) by auto
    have same: "blk u1 ?n = blk t ?n" using b(12) tf(1,2) nb by simp
    let ?buf = "enc_u32s (?tbl[idx := of_nat b])"
    let ?w = "put_blk ?n ?buf u1"
    have fd: "i_indirect1 i = i_indirect1 (?f d)" by simp
    have tb: "?tbl = dec_u32s 128 (blk u1 ?n)" by (simp only: same)
    note at = view_inv_attach_table [OF inv1 l1 fd n tb idx True b(2,3,6,5)]
    have wv: "view_inv ?w ?f" and wd: "dec_u32s 128 (blk ?w ?n) = ?tbl[idx := of_nat b]"
      and wu: "blk_used ?w = blk_used u1" and wl: "live ?w = live u1"
      by (rule at)+
    have wo: "set (owned ?w i) = insert b (set (owned u1 i))" using at(2) by (simp only: fun_upd_same)
    note dv = view_invD(3) [OF inv1]
    let ?j = "i\<lparr>i_blocks := i_blocks i + 1, i_ctime := clock ?w (tick ?w)\<rparr>"
    have res: "r = int b" "j = ?j" "u = tick_update (\<lambda>_. Suc (tick ?w)) ?w"
      using m True a b(1) bw(3) tf(1,3) dev_write_ok [OF dv tf(1)]
      by (auto simp: map_table_def ts_now_def Let_def)
    have it: "inode_at ?w k = inode_at s k" if "valid_ino k" for k
      using inode_at_cong [OF that, of ?w u1] dv tf(1,2) step_okD(5) [OF b(4) that] by simp
    have iu: "ino_used ?w = ino_used u1" using dv tf(1,2) by (simp add: fun_eq_iff ino_used_def)
    have "step_ok s d i ?w"
      unfolding step_ok_def
      using wv wu wl iu it step_okD [OF b(4)] edit_okD(2) [OF ed tf(4)] dv tf(1) by auto
    then have sj: "step_ok s d ?j ?w" by (rule step_ok_same_ptrs) (simp add: same_ptrs_def)
    have sp: "same_ptrs ?j i" by (simp add: same_ptrs_def)
    have oj: "set (owned ?w ?j) = insert b (set (owned t i))"
      unfolding conjunct1 [OF same_ptrs_own [OF sp]] wo owned_cong [OF b(9)] ..
    have pw: "phys ?w ?j k = (if k = ?bn then b else phys t i k)" for k
    proof -
      have pj: "phys ?w ?j k = phys ?w i k" unfolding phys_same_ptrs [OF sp] ..
      show ?thesis
      proof (cases "NDIRECT \<le> k \<and> k < FILE_BLOCKS")
        case True
        with pj phys_table [OF w, of k] n wd bw(1) idx show ?thesis
          by (auto simp: nth_list_update)
      next
        case False
        with pj idx phys_direct [OF w, of k] phys_none [OF w, of k] show ?thesis by (cases "k < NDIRECT") auto
      qed
    qed
    have z: "phys t i ?bn = 0" using ph True by simp
    have "grows t i ?w ?j"
      unfolding grows_def
    proof (intro conjI allI)
      show "blk_used t c \<longrightarrow> blk_used ?w c" for c using growsD(1) [OF b(10)] wu by simp
      fix k
      have "phys t i k \<noteq> ?n" if "phys t i k \<noteq> 0"
        using phys_not_indirect [OF inv lt, of k d] that lt n by auto
      then show "if phys t i k \<noteq> 0 then phys ?w ?j k = phys t i k \<and> blk ?w (phys t i k) = blk t (phys t i k)
        else phys ?w ?j k = 0 \<or> blk ?w (phys ?w ?j k) = replicate BLOCK_SIZE 0 \<and> \<not> blk_used t (phys ?w ?j k)"
        unfolding pw using growsD(3) [OF b(10), of k] z b(2,3,7,8) nb dv tf(1) phys_range [OF own, of k] by auto
    qed
    with edit_ok_grow [OF ed sj oj b(7) same_ptrs_ext [OF sp]] pw [of ?bn] b(2,11) nfree_cong(1) [OF wu] res show ?thesis
      by (auto simp: mapped_def same_meta_def)
  qed
  then show "mapped s d t i ?bn r j u" "nfree_blocks t \<le> Suc (nfree_blocks u)" "i_indirect1 j = i_indirect1 i"
    by simp_all
qed

lemma mapped_trans:
  assumes g: "grows t i v k" "same_meta i k" and m: "mapped s d v k bn r j u"
  shows "mapped s d t i bn r j u"
  using m grows_trans [OF g(1)] same_meta_trans [OF g(2)] by (auto simp: mapped_def)

text \<open>
  The call returns a block for each of the first 138, and refuses the others without an
  effect. \<open>need i k\<close> is how many free blocks are certainly enough for \<open>k\<close> calls.
\<close>

definition need :: "inode \<Rightarrow> nat \<Rightarrow> nat" where
  "need i k = k + (if i_indirect1 i = 0 then 1 else 0)"

lemma map_bn_for_write_ok:
  assumes ed: "edit_ok s d i t" and ino: "live s d" and bn: "bn < FILE_BLOCKS"
    and m: "map_bn_for_write i bn t = Some (r, j, u)"
  shows "mapped s d t i bn r j u" and "need i (Suc k) \<le> nfree_blocks t \<Longrightarrow> need j k \<le> nfree_blocks u"
proof -
  have "mapped s d t i bn r j u \<and> (need i (Suc k) \<le> nfree_blocks t \<longrightarrow> need j k \<le> nfree_blocks u)"
  proof (cases "bn < NDIRECT")
    case True
    with m have "map_direct i bn t = Some (r, j, u)" by (simp add: map_bn_for_write_def)
    note o = map_direct_ok [OF ed ino True this]
    show ?thesis using o by (simp add: need_def)
  next
    case False
    have small: "\<not> bn - NDIRECT \<ge> BLOCK_SIZE div 4" using bn by simp
    with m False obtain q v kk where e: "ensure_indirect i t = Some (q, kk, v)"
      by (auto simp: map_bn_for_write_def Option.bind_eq_Some_conv)
    note eo = ensure_indirect_ok [OF ed ino e]
    have mt: "map_table kk (bn - NDIRECT) v = Some (r, j, u)"
      using m False small e eo(1) by (simp add: map_bn_for_write_def)
    have "bn - NDIRECT < 128" "NDIRECT + (bn - NDIRECT) = bn" using False bn by auto
    note o = map_table_ok [OF eo(2) ino eo(5) this(1) mt, unfolded this(2)]
    have "mapped s d t i bn r j u" by (rule mapped_trans [OF eo(3,4) o(1)])
    moreover have "need i (Suc k) \<le> nfree_blocks t \<longrightarrow> need j k \<le> nfree_blocks u"
      using o(2,3) eo(5,6) by (auto simp: need_def split: if_splits)
    ultimately show ?thesis by simp
  qed
  then show "mapped s d t i bn r j u" "need i (Suc k) \<le> nfree_blocks t \<Longrightarrow> need j k \<le> nfree_blocks u"
    by simp_all
qed

lemma map_bn_for_write_beyond:
  "FILE_BLOCKS \<le> bn \<Longrightarrow> map_bn_for_write i bn s = Some (FS_ENOSPC, i, s)"
proof -
  assume "FILE_BLOCKS \<le> bn"
  then have "\<not> bn < NDIRECT" "bn - NDIRECT \<ge> BLOCK_SIZE div 4" by auto
  then show ?thesis by (simp add: map_bn_for_write_def)
qed

lemma alloc_zeroed_total: "vol_ok s \<Longrightarrow> 0 < nfree_blocks s \<Longrightarrow> \<exists>r t. alloc_zeroed s = Some (r, t)"
proof -
  assume v: "vol_ok s" and n: "0 < nfree_blocks s"
  from n obtain b where "BLK_DATA_START \<le> b" "b < 4096" "\<not> blk_used s b"
    by (auto simp: nfree_blocks_def n_free_def card_gt_0_iff)
  from blocks.alloc_complete [OF v this] show ?thesis by (auto simp: alloc_zeroed_def)
qed

lemma map_bn_for_write_total:
  assumes ed: "edit_ok s d i t" and ino: "live s d" and n: "need i 1 \<le> nfree_blocks t"
  shows "\<exists>r j u. map_bn_for_write i bn t = Some (r, j, u)"
proof (cases "bn < FILE_BLOCKS")
  case False
  then show ?thesis by (simp add: map_bn_for_write_beyond)
next
  case small: True
  note inv = step_okD(1) [OF edit_okD(1) [OF ed]]
  have a: "\<exists>r u. alloc_zeroed t = Some (r, u)"
    by (rule alloc_zeroed_total [OF view_invD(1) [OF inv]]) (use n in \<open>simp add: need_def\<close>)
  show ?thesis
  proof (cases "bn < NDIRECT")
    case True
    with a show ?thesis by (auto simp: map_bn_for_write_def map_direct_def ts_now_def Let_def)
  next
    case False
    have "\<exists>q k v. ensure_indirect i t = Some (q, k, v)"
      using a by (cases "i_indirect1 i = 0") (auto simp: ensure_indirect_def ts_now_def Let_def)
    then obtain q v k where e: "ensure_indirect i t = Some (q, k, v)" by blast
    note eo = ensure_indirect_ok [OF ed ino e]
    note inv1 = step_okD(1) [OF edit_okD(1) [OF eo(2)]]
    have "0 < nfree_blocks v" using n eo(6) by (auto simp: need_def split: if_splits)
    then obtain r1 u1 where a1: "alloc_zeroed v = Some (r1, u1)"
      using alloc_zeroed_total [OF view_invD(1) [OF inv1]] by blast
    have "\<exists>r j u. map_table k (bn - NDIRECT) v = Some (r, j, u)"
      using a1 by (auto simp: map_table_def ts_now_def Let_def split: option.split prod.split)
    with False small e eo(1) show ?thesis by (auto simp: map_bn_for_write_def)
  qed
qed

section \<open>Mapping for reading\<close>

lemma map_bn_for_read_ok:
  assumes inv: "view_inv s f" and ino: "live s d"
  shows "map_bn_for_read (f d) bn s = (if phys s (f d) bn = 0 then FS_ERR else int (phys s (f d) bn))"
proof -
  note own = view_invD(4) [OF inv ino]
  note w = own_okD(1) [OF own]
  show ?thesis
  proof (cases "bn < NDIRECT")
    case True
    then show ?thesis
      using phys_direct [OF w True, of s] phys_range(2) [OF own, of bn]
      by (auto simp: map_bn_for_read_def sint_block unat_eq_0)
  next
    case False
    show ?thesis
    proof (cases "i_indirect1 (f d) = 0 \<or> FILE_BLOCKS \<le> bn")
      case True
      with False phys_none [OF w, of bn s] show ?thesis by (auto simp: map_bn_for_read_def)
    next
      case in_table: False
      with False have bn: "NDIRECT \<le> bn" "bn < FILE_BLOCKS" and n: "i_indirect1 (f d) \<noteq> 0" by auto
      show ?thesis
        using phys_table [OF w bn n, of s] phys_range(2) [OF own, of bn] step_table_frame(3) [OF inv ino n] False bn n
        by (auto simp: map_bn_for_read_def sint_block unat_eq_0 Let_def)
    qed
  qed
qed

section \<open>Ending an edit\<close>

text \<open>Writing the copy back makes the edit the state of the file.\<close>

lemma ptr_list_put_inode:
  assumes inv: "view_inv t f" and ino: "live t d" "valid_ino n" "wf_inode j"
  shows "ptr_list (put_inode n j t) (f d) = ptr_list t (f d)"
proof (rule ptr_list_cong)
  assume n: "i_indirect1 (f d) \<noteq> 0"
  note tf = step_table_frame [OF inv ino(1) n]
  show "blk (put_inode n j t) (unat (i_indirect1 (f d))) = blk t (unat (i_indirect1 (f d)))"
    using tf(1,2) put_inode_data [OF view_invD(1) [OF inv] ino(2,3)] by simp
qed

lemma file_byte_cong:
  assumes "ptr_list t j = ptr_list s i" and "own_ok s i"
    and "\<And>c. c \<in> set (owned s i) \<Longrightarrow> blk t c = blk s c"
  shows "file_byte t j = file_byte s i"
proof
  fix q
  show "file_byte t j q = file_byte s i q"
    using phys_cong [OF assms(1)] assms(3) [OF phys_owned [of s i "q div BLOCK_SIZE"]]
    by (simp add: file_byte_def)
qed

lemma edit_commit:
  assumes ed: "edit_ok s d i t" and ino: "live s d" and sp: "same_ptrs j i"
  shows "write_inode d j t = (FS_OK, put_inode d j t)" and "only_changed s d (put_inode d j t)"
    and "inode_at (put_inode d j t) d = j" and "file_byte (put_inode d j t) j = file_byte t i"
    and "phys (put_inode d j t) j = phys t i"
proof -
  note st = edit_okD(1) [OF ed]
  note q = step_write_inode [OF st ino sp]
  show "write_inode d j t = (FS_OK, put_inode d j t)" "inode_at (put_inode d j t) d = j" by (rule q)+
  note inv = step_okD(1) [OF st]
  have lt: "live t d" and own: "own_ok t i" using step_ok_own [OF st ino] by simp_all
  have w: "wf_inode j" using same_ptrs_own [OF sp] own_okD(1) [OF own] by simp
  have "ptr_list (put_inode d j t) i = ptr_list t i"
    using ptr_list_put_inode [OF inv lt live_valid [OF ino] w] by simp
  moreover have "ptr_list (put_inode d j t) j = ptr_list (put_inode d j t) i"
    using sp by (simp add: ptr_list_def same_ptrs_def)
  ultimately have ptr: "ptr_list (put_inode d j t) j = ptr_list t i" by simp
  show "phys (put_inode d j t) j = phys t i" by (rule phys_cong) (rule ptr)
  show "file_byte (put_inode d j t) j = file_byte t i"
    using own by (intro file_byte_cong [OF ptr own] q(7)) (auto simp: own_ok_def)
  show "only_changed s d (put_inode d j t)"
    unfolding only_changed_def using q step_okD [OF st] by auto
qed

text \<open>
  An edit that is given up before the copy is written back leaves the inode table as it was;
  the blocks it took stay marked in the bitmap, and the invariant holds.
\<close>

lemma nonzero_inj_distinct:
  "(\<And>a b. a < length xs \<Longrightarrow> b < length xs \<Longrightarrow> xs ! a = xs ! b \<Longrightarrow> xs ! a \<noteq> 0 \<Longrightarrow> a = b) \<Longrightarrow>
   distinct (filter (\<lambda>p. p \<noteq> (0 :: u32)) xs)"
proof (induction xs)
  case Nil
  then show ?case by simp
next
  case (Cons x xs)
  have "distinct (filter (\<lambda>p. p \<noteq> 0) xs)"
    by (rule Cons.IH) (use Cons.prems [of "Suc a" "Suc b" for a b] in auto)
  moreover have "x \<notin> set xs" if "x \<noteq> 0"
    using Cons.prems [of 0 "Suc k" for k] that by (auto simp: in_set_conv_nth)
  ultimately show ?case by auto
qed

lemma own_ok_sub:
  assumes own: "own_ok t i" and w: "wf_inode j"
    and sub: "\<And>k. k < length (ptr_list t j) \<Longrightarrow> ptr_list t j ! k \<noteq> 0 \<Longrightarrow>
       k < length (ptr_list t i) \<and> ptr_list t i ! k = ptr_list t j ! k"
  shows "own_ok t j" and "set (owned t j) \<subseteq> set (owned t i)"
proof -
  show s: "set (owned t j) \<subseteq> set (owned t i)"
    using sub by (fastforce simp: set_owned in_set_conv_nth)
  have "distinct (owned t j)"
    unfolding owned_distinct
  proof (rule nonzero_inj_distinct)
    fix a b
    assume h: "a < length (ptr_list t j)" "b < length (ptr_list t j)" "ptr_list t j ! a = ptr_list t j ! b"
      "ptr_list t j ! a \<noteq> 0"
    with sub [of a] sub [of b] show "a = b" using own_ok_ptr_inj [OF own, of a b] by simp
  qed
  with s own w show "own_ok t j" by (auto simp: own_ok_def)
qed

lemma ptrs_ext_sub:
  assumes x: "ptrs_ext j i" and w: "wf_inode i" "wf_inode j"
    and k: "k < length (ptr_list t j)" "ptr_list t j ! k \<noteq> 0"
  shows "k < length (ptr_list t i) \<and> ptr_list t i ! k = ptr_list t j ! k"
proof -
  have l: "length (i_direct i) = 10" "length (i_direct j) = 10" using w by (simp_all add: wf_inode_def)
  consider "k < 10" | "k = 10" | m where "k = Suc (10 + m)" by (metis add_Suc_right less_imp_Suc_add linorder_cases)
  then show ?thesis
  proof cases
    case 3
    then show ?thesis using x k l by (auto simp: ptrs_ext_def ptr_list_def nth_append split: if_splits)
  qed (use x k l in \<open>auto simp: ptrs_ext_def ptr_list_def nth_append\<close>)
qed

lemma edit_abort:
  assumes ed: "edit_ok s d i t" and ino: "live s d"
  shows "only_changed s d t" and "inode_at t d = inode_at s d"
proof -
  note st = edit_okD(1) [OF ed]
  note inv = step_okD(1) [OF st]
  let ?f = "(inode_at s)(d := i)" and ?j = "inode_at s d"
  have lt: "live t d" and own: "own_ok t i" using step_ok_own [OF st ino] by simp_all
  note vd = live_valid [OF ino]
  show at: "inode_at t d = ?j" using step_okD(5) [OF st vd] .
  have w: "wf_inode ?j" using wf_inode_at [OF view_invD(1) [OF inv] vd] at by simp
  note os = own_ok_sub [OF own w ptrs_ext_sub [OF edit_okD(3) [OF ed] own_okD(1) [OF own] w]]
  have no: "unowned t ?f 0" using view_invD(7) [OF inv] by (fastforce simp: unowned_def)
  have "view_inv t (?f(d := ?j))"
    by (rule view_inv_replace [OF inv, where b = 0]) (use view_invD(1,2) [OF inv] os no lt in auto)
  then have "view_inv t (inode_at s)" by simp
  then have "vol_inv t"
    unfolding vol_inv_def
    by (rule view_inv_cong) (use step_okD(5) [OF st] in \<open>auto dest: live_valid\<close>)
  then show "only_changed s d t" using step_okD [OF st] by (simp add: only_changed_def)
qed

text \<open>The files of the other inodes are as before.\<close>

lemma only_changed_other:
  assumes oc: "only_changed s d t" and inv: "vol_inv s" and k: "live s k" "k \<noteq> d" and d: "live s d"
  shows "inode_at t k = inode_at s k" "phys t (inode_at t k) = phys s (inode_at s k)"
    "file_byte t (inode_at t k) = file_byte s (inode_at s k)"
proof -
  have vs: "view_inv s (inode_at s)" using inv by (simp add: vol_inv_def)
  note own = view_invD(4) [OF vs k(1)]
  show at: "inode_at t k = inode_at s k" using oc k live_valid [OF k(1)] by (simp add: only_changed_def)
  have same: "blk t c = blk s c" if "c \<in> set (owned s (inode_at s k))" for c
  proof -
    have "c \<notin> set (owned s (inode_at s d))" using view_invD(6) [OF vs k(1) d k(2)] that by auto
    moreover have "BLK_DATA_START \<le> c \<and> c < 4096 \<and> blk_used s c" by (rule view_invD(7) [OF vs k(1) that])
    ultimately show ?thesis using oc by (simp add: only_changed_def)
  qed
  have ptr: "ptr_list t (inode_at t k) = ptr_list s (inode_at s k)"
    unfolding at by (rule ptr_list_cong) (intro same indirect_owned)
  show "phys t (inode_at t k) = phys s (inode_at s k)" using ptr by (rule phys_cong)
  show "file_byte t (inode_at t k) = file_byte s (inode_at s k)" using ptr own same by (rule file_byte_cong)
qed

lemma dir_entries_cong:
  assumes "inode_at t d = inode_at s d" and "dir_wf s d" and "vol_inv s" and "dev_ok t"
    and "\<And>c. c \<in> set (owned s (inode_at s d)) \<Longrightarrow> blk t c = blk s c"
  shows "dir_entries t d = dir_entries s d"
proof -
  let ?i = "inode_at s d"
  have vs: "view_inv s (inode_at s)" and ino: "live s d" using assms(2,3) by (simp_all add: vol_inv_def dir_wf_def)
  note own = view_invD(4) [OF vs ino]
  have "slot_entry ?i k t = slot_entry ?i k s" if k: "k < n_slots ?i" for k
  proof -
    have z: "i_direct ?i ! (k div 8) \<noteq> 0" and k8: "k div 8 < NDIRECT" using assms(2) k by (auto simp: dir_wf_def)
    note rng = own_ok_direct_range [OF own k8 z]
    have "unat (i_direct ?i ! (k div 8)) < TOTAL_BLOCKS" using rng(2) by simp
    with slot_entry_eq [OF assms(4) k8 z this] slot_entry_eq [OF view_invD(3) [OF vs] k8 z this]
      assms(5) [OF rng(4)] show ?thesis by (simp add: slot_entry_def)
  qed
  then show ?thesis unfolding dir_entries_n_slots assms(1) by (rule entries_upto_cong)
qed

lemma only_changed_dir:
  assumes oc: "only_changed s d t" and inv: "vol_inv s" and k: "dir_wf s k" "k \<noteq> d" and d: "live s d"
  shows "dir_wf t k" "dir_entries t k = dir_entries s k"
proof -
  have lk: "live s k" using k(1) by (simp add: dir_wf_def)
  have vs: "view_inv s (inode_at s)" and vt: "view_inv t (inode_at t)"
    using inv oc by (simp_all add: vol_inv_def only_changed_def)
  have at: "inode_at t k = inode_at s k" by (rule only_changed_other(1) [OF oc inv lk k(2) d])
  have same: "blk t c = blk s c" if "c \<in> set (owned s (inode_at s k))" for c
  proof -
    have "c \<notin> set (owned s (inode_at s d))" using view_invD(6) [OF vs lk d k(2)] that by auto
    moreover have "BLK_DATA_START \<le> c \<and> c < 4096 \<and> blk_used s c" by (rule view_invD(7) [OF vs lk that])
    ultimately show ?thesis using oc by (simp add: only_changed_def)
  qed
  show "dir_entries t k = dir_entries s k"
    using dir_entries_cong [OF at k(1) inv view_invD(3) [OF vt]] same by simp
  show "dir_wf t k" using k(1) at oc unfolding dir_wf_def by (simp add: only_changed_def)
qed

text \<open>Directories do not depend on descriptors and the clock.\<close>

lemma dir_frame [simp]:
  "dir_entries (g_ofile_update f s) = dir_entries s" "dir_entries (tick_update g s) = dir_entries s"
proof -
  have r: "dev_read_block b (g_ofile_update f s) = dev_read_block b s"
    "dev_read_block b (tick_update g s) = dev_read_block b s" for b
    by (simp_all add: dev_read_block_def split: option.split)
  have e: "slot_entry i k (g_ofile_update f s) = slot_entry i k s" "slot_entry i k (tick_update g s) = slot_entry i k s" for i k
    by (simp_all add: slot_entry_def read_slot_def read_dir_block_def r)
  show "dir_entries (g_ofile_update f s) = dir_entries s" "dir_entries (tick_update g s) = dir_entries s"
    by (simp_all add: fun_eq_iff dir_entries_def entries_upto_def e)
qed

end
