(* ===== verification/FileIO.thy ===== *)
theory FileIO
  imports Blockmap
begin

text \<open>
  \<open>project3/src/file.c\<close>, second half: the table of open files and reading, writing and opening
  files. The buffers of \<open>fs_read\<close> and \<open>fs_write\<close> are byte lists; \<open>len\<close> of \<open>fs_write\<close> is the
  length of its buffer.
\<close>

section \<open>Descriptors\<close>

definition fd_bad :: "int \<Rightarrow> fs \<Rightarrow> bool" where
  "fd_bad fd s \<longleftrightarrow> fd < 0 \<or> fd \<ge> int MAX_OPEN \<or> \<not> of_used (g_ofile s ! nat fd)"

definition fd_set :: "nat \<Rightarrow> (ofile \<Rightarrow> ofile) \<Rightarrow> fs \<Rightarrow> fs" where
  "fd_set fd f s = s\<lparr>g_ofile := (g_ofile s)[fd := f (g_ofile s ! fd)]\<rparr>"

definition fs_close :: "int \<Rightarrow> fs \<Rightarrow> int \<times> fs" where
  "fs_close fd s =
     (if fd_bad fd s then (FS_EBADF, s)
      else (FS_OK, fd_set (nat fd) (\<lambda>f. f\<lparr>of_used := False\<rparr>) s))"

text \<open>The offset of \<open>fs_seek\<close> is a signed 32-bit integer; a negative one counts as 0.\<close>

definition fs_seek :: "int \<Rightarrow> 32 word \<Rightarrow> fs \<Rightarrow> int \<times> fs" where
  "fs_seek fd off s =
     (if fd_bad fd s then (FS_EBADF, s)
      else (FS_OK, fd_set (nat fd) (\<lambda>f. f\<lparr>of_offset := (if sint off < 0 then 0 else off)\<rparr>) s))"

section \<open>Reading\<close>

text \<open>
  The loop of \<open>fs_read\<close>: \<open>Inl\<close> is the early return on a failed device read, \<open>Inr\<close> the position
  reached; the list is what has been copied into the buffer. A block that is not mapped ends
  the loop. Positions do not wrap: a position whose block is mapped is below \<open>138 * 512\<close>.
\<close>

function read_loop :: "inode \<Rightarrow> nat \<Rightarrow> nat \<Rightarrow> nat \<Rightarrow> bytes \<Rightarrow> fs \<Rightarrow> (int + nat) \<times> bytes" where
  "read_loop i pos dn len out s =
     (if dn \<ge> len then (Inr pos, out)
      else
        let ph = map_bn_for_read i (pos div BLOCK_SIZE) s; boff = pos mod BLOCK_SIZE in
        if ph < 0 then (Inr pos, out)
        else case dev_read_block (nat ph) s of
               None \<Rightarrow> (Inl FS_ERR, out)
             | Some buf \<Rightarrow>
                 let can = min (BLOCK_SIZE - boff) (len - dn) in
                 read_loop i (pos + can) (dn + can) len (out @ bslice can boff buf) s)"
  by pat_completeness auto
termination
  by (relation "measure (\<lambda>(i, pos, dn, len, out, s). len - dn)") auto

declare read_loop.simps [simp del]

definition fs_read :: "int \<Rightarrow> nat \<Rightarrow> fs \<Rightarrow> int \<times> bytes \<times> fs" where
  "fs_read fd len s =
     (if fd_bad fd s then (FS_EBADF, [], s)
      else let f = g_ofile s ! nat fd; ino = unat (of_ino f) in
        case read_inode ino s of
          None \<Rightarrow> (FS_ERR, [], s)
        | Some i \<Rightarrow>
            if \<not> perm_can_read i (g_uid s) then (FS_EPERM, [], s)
            else let pos = unat (of_offset f) in
              if pos \<ge> unat (i_size i) then (0, [], s)
              else case read_loop i pos 0 (min len (unat (i_size i) - pos)) [] s of
                     (Inl e, out) \<Rightarrow> (e, out, s)
                   | (Inr pos1, out) \<Rightarrow>
                       let s1 = fd_set (nat fd) (\<lambda>f. f\<lparr>of_offset := of_nat pos1\<rparr>) s;
                           (at, s2) = ts_now s1 in
                       (int (pos1 - pos), out, snd (write_inode ino (i\<lparr>i_atime := at\<rparr>) s2)))"

section \<open>Writing\<close>

function write_loop :: "inode \<Rightarrow> nat \<Rightarrow> nat \<Rightarrow> bytes \<Rightarrow> fs \<Rightarrow> ((int + nat) \<times> inode \<times> fs) option" where
  "write_loop i pos dn buf s =
     (if dn \<ge> length buf then Some (Inr pos, i, s)
      else do {
        (ph, i1, s1) \<leftarrow> map_bn_for_write i (pos div BLOCK_SIZE) s;
        if ph < 0 then Some (Inl ph, i1, s1)
        else case dev_read_block (nat ph) s1 of
               None \<Rightarrow> Some (Inl FS_ERR, i1, s1)
             | Some b \<Rightarrow>
                 let boff = pos mod BLOCK_SIZE;
                     can = min (BLOCK_SIZE - boff) (length buf - dn);
                     (rc, s2) = dev_write_block (splice_at b boff (bslice can dn buf)) (nat ph) s1 in
                 if rc \<noteq> FS_OK then Some (Inl FS_ERR, i1, s2)
                 else write_loop i1 (pos + can) (dn + can) buf s2 })"
  by pat_completeness auto
termination
  by (relation "measure (\<lambda>(i, pos, dn, buf, s). length buf - dn)") auto

declare write_loop.simps [simp del]

text \<open>\<open>if(pos > in.size) in.size = pos\<close>.\<close>

definition grow_size :: "nat \<Rightarrow> inode \<Rightarrow> inode" where
  "grow_size pos i = (if pos > unat (i_size i) then i\<lparr>i_size := of_nat pos\<rparr> else i)"

definition fs_write :: "int \<Rightarrow> bytes \<Rightarrow> fs \<Rightarrow> (int \<times> fs) option" where
  "fs_write fd buf s =
     (if fd_bad fd s then Some (FS_EBADF, s)
      else let f = g_ofile s ! nat fd; ino = unat (of_ino f) in
        if \<not> of_writable f then Some (FS_EPERM, s)
        else case read_inode ino s of
          None \<Rightarrow> Some (FS_ERR, s)
        | Some i \<Rightarrow>
            if \<not> perm_can_write i (g_uid s) then Some (FS_EPERM, s)
            else do {
              (r, i1, s1) \<leftarrow> write_loop i (unat (of_offset f)) 0 buf s;
              case r of
                Inl e \<Rightarrow> Some (e, s1)
              | Inr pos \<Rightarrow>
                  let (mt, s2) = ts_now s1;
                      (rc, s3) = write_inode ino ((grow_size pos i1)\<lparr>i_mtime := mt\<rparr>) s2 in
                  if rc \<noteq> FS_OK then Some (FS_ERR, s3)
                  else Some (int (length buf),
                         fd_set (nat fd) (\<lambda>f. f\<lparr>of_offset := of_nat pos\<rparr>) s3) })"

section \<open>Opening\<close>

text \<open>
  The last slash splits a path; \<open>open_target\<close> is the directory and the name under which
  \<open>fs_open\<close> creates a file, \<open>None\<close> when the parent is too long or cannot be resolved.
\<close>

definition split_last :: "u8 \<Rightarrow> bytes \<Rightarrow> (bytes \<times> bytes) option" where
  "split_last c p =
     (if c \<notin> set p then None
      else Some (rev (drop 1 (dropWhile (\<lambda>x. x \<noteq> c) (rev p))), rev (takeWhile (\<lambda>x. x \<noteq> c) (rev p))))"

definition open_target :: "bytes \<Rightarrow> fs \<Rightarrow> (nat \<times> bytes) option" where
  "open_target path s =
     (case split_last 47 path of
        None \<Rightarrow> Some (unat (g_cwd s), take (NAME_MAX_LEN - 1) path)
      | Some (parent, leaf) \<Rightarrow>
          if length parent \<ge> 256 then None
          else case namei (if parent = [] then [47] else parent) s of
                 Inl _ \<Rightarrow> None
               | Inr d \<Rightarrow> Some (d, take (NAME_MAX_LEN - 1) leaf))"

definition open_fd :: "nat \<Rightarrow> bool \<Rightarrow> fs \<Rightarrow> int \<times> fs" where
  "open_fd ino writable s =
     (case List.find (\<lambda>fd. \<not> of_used (g_ofile s ! fd)) [0..<MAX_OPEN] of
        None \<Rightarrow> (FS_ERR, s)
      | Some fd \<Rightarrow> (int fd, fd_set fd (\<lambda>_. \<lparr>of_used = True, of_ino = of_nat ino, of_offset = 0,
                       of_writable = writable\<rparr>) s))"

definition new_file :: "nat \<Rightarrow> fs \<Rightarrow> int \<times> fs" where
  "new_file ino s =
     (let (ct, s1) = ts_now s; (mt, s2) = ts_now s1; (at, s3) = ts_now s2 in
      write_inode ino (zero_inode\<lparr>i_mode := MODE_FILE, i_links := 1, i_uid := of_int (g_uid s),
        i_ctime := ct, i_mtime := mt, i_atime := at\<rparr>) s3)"

definition create_file :: "nat \<Rightarrow> bytes \<Rightarrow> fs \<Rightarrow> (int \<times> fs) option" where
  "create_file dir name s = do {
     (n, s1) \<leftarrow> alloc_inode s;
     if n < 0 then Some (n, s1)
     else let (rc, s2) = new_file (nat n) s1 in
          if rc \<noteq> FS_OK then Some (FS_ERR, s2)
          else do {
            (rd, s3) \<leftarrow> dir_add dir name FT_REG (nat n) s2;
            if rd \<noteq> FS_OK then Some (FS_ERR, s3) else Some (n, s3) } }"

text \<open>119 is the letter w.\<close>

definition fs_open :: "bytes \<Rightarrow> bytes \<Rightarrow> fs \<Rightarrow> (int \<times> fs) option" where
  "fs_open path mode s =
     (let writable = 119 \<in> set mode in
      case namei path s of
        Inl r \<Rightarrow>
          if \<not> writable then Some (r, s)
          else (case open_target path s of
                  None \<Rightarrow> Some (FS_ERR, s)
                | Some (dir, name) \<Rightarrow> do {
                    (n, s1) \<leftarrow> create_file dir name s;
                    if n < 0 then Some (n, s1) else Some (open_fd (nat n) writable s1) })
      | Inr ino \<Rightarrow>
          (case read_inode ino s of
             None \<Rightarrow> Some (FS_ERR, s)
           | Some i \<Rightarrow>
               if (if writable then perm_can_write i (g_uid s) else perm_can_read i (g_uid s))
               then Some (open_fd ino writable s) else Some (FS_EPERM, s)))"

section \<open>Writing a block of a file\<close>

lemma step_write_phys:
  assumes ed: "edit_ok s d i t" and ino: "live s d" and p: "phys t i bn \<noteq> 0" and len: "length buf = BLOCK_SIZE"
  shows "edit_ok s d i (put_blk (phys t i bn) buf t)"
    and "dev_write_block buf (phys t i bn) t = (FS_OK, put_blk (phys t i bn) buf t)"
    and "dev_read_block (phys t i bn) t = Some (blk t (phys t i bn))"
    and "\<And>c. c < TOTAL_BLOCKS \<Longrightarrow> blk (put_blk (phys t i bn) buf t) c = (if c = phys t i bn then buf else blk t c)"
    and "phys (put_blk (phys t i bn) buf t) i = phys t i"
    and "nfree_blocks (put_blk (phys t i bn) buf t) = nfree_blocks t"
proof -
  let ?f = "(inode_at s)(d := i)" and ?p = "phys t i bn"
  note st = edit_okD(1) [OF ed]
  note inv = step_okD(1) [OF st]
  have lt: "live t d" and own: "own_ok t i" using step_ok_own [OF st ino] by simp_all
  note rng = phys_range [OF own p]
  note dv = view_invD(3) [OF inv]
  have pt: "?p < TOTAL_BLOCKS" using rng(2) by simp
  have no: "unat (i_indirect1 (?f k)) \<noteq> ?p" if "live t k" "i_indirect1 (?f k) \<noteq> 0" for k
    using phys_not_indirect [OF inv lt _ that, of bn] p by simp
  note w = view_inv_put_blk [OF inv rng(1) pt len no]
  have u: "blk_used (put_blk ?p buf t) = blk_used t" "ino_used (put_blk ?p buf t) = ino_used t"
    "live (put_blk ?p buf t) = live t"
    using w(2-4) by simp_all
  have vi: "view_inv (put_blk ?p buf t) ?f" by (rule w(1))
  have ptr: "ptr_list (put_blk ?p buf t) i = ptr_list t i" using w(5) [of d] lt by simp
  have it: "inode_at (put_blk ?p buf t) k = inode_at s k" if "valid_ino k" for k
    using inode_at_cong [OF that, of "put_blk ?p buf t" t] dv pt rng(1) step_okD(5) [OF st that] by simp
  have "step_ok s d i (put_blk ?p buf t)"
    unfolding step_ok_def
    using u vi step_okD [OF st] it edit_okD(2) [OF ed phys_owned [OF p]] dv pt by auto
  then show "edit_ok s d i (put_blk ?p buf t)"
    using edit_okD(2,3) [OF ed] owned_cong [OF ptr] by (simp add: edit_ok_def)
  show "dev_write_block buf ?p t = (FS_OK, put_blk ?p buf t)" using dv pt by (rule dev_write_ok)
  show "dev_read_block ?p t = Some (blk t ?p)" using dv pt by (rule dev_read_ok)
  show "blk (put_blk ?p buf t) c = (if c = ?p then buf else blk t c)" if "c < TOTAL_BLOCKS" for c
    using dv pt that by simp
  show "phys (put_blk ?p buf t) i = phys t i" by (rule phys_cong) (rule ptr)
  show "nfree_blocks (put_blk ?p buf t) = nfree_blocks t" using u(1) by (rule nfree_cong)
qed

text \<open>One round of the write loop replaces the bytes it means to and no others.\<close>

lemma div_mod_512: "q div BLOCK_SIZE = bn \<Longrightarrow> q = bn * BLOCK_SIZE + q mod (BLOCK_SIZE :: nat)"
  by (metis div_mult_mod_eq)

lemma write_round_ok:
  assumes m: "mapped s d t i bn r j u" and ino: "live s d" and fits: "boff + length data \<le> BLOCK_SIZE"
  defines "w \<equiv> put_blk (phys u j bn) (splice_at (blk u (phys u j bn)) boff data) u"
  shows "dev_read_block (nat r) u = Some (blk u (nat r))" and "0 \<le> r"
    and "dev_write_block (splice_at (blk u (nat r)) boff data) (nat r) u = (FS_OK, w)"
    and "edit_ok s d j w" and "nfree_blocks w = nfree_blocks u" and "phys w j = phys u j"
    and "file_byte w j q =
      (if bn * BLOCK_SIZE + boff \<le> q \<and> q < bn * BLOCK_SIZE + boff + length data
       then data ! (q - (bn * BLOCK_SIZE + boff)) else file_byte t i q)"
proof -
  have r: "r = int (phys u j bn)" and p: "phys u j bn \<noteq> 0" and ed: "edit_ok s d j u" and g: "grows t i u j"
    using m by (simp_all add: mapped_def)
  let ?p = "phys u j bn"
  have own: "own_ok u j" using step_ok_own [OF edit_okD(1) [OF ed] ino] by simp
  note rng = phys_range [OF own p]
  have dv: "dev_ok u" using view_invD(3) [OF step_okD(1) [OF edit_okD(1) [OF ed]]] .
  have blen: "length (blk u ?p) = BLOCK_SIZE" using dv rng(2) by simp
  have len: "length (splice_at (blk u ?p) boff data) = BLOCK_SIZE" using fits blen by (simp add: slice_simps)
  note w = step_write_phys [OF ed ino p len, folded w_def]
  show "dev_read_block (nat r) u = Some (blk u (nat r))" "0 \<le> r"
    "dev_write_block (splice_at (blk u (nat r)) boff data) (nat r) u = (FS_OK, w)"
    "edit_ok s d j w" "nfree_blocks w = nfree_blocks u" "phys w j = phys u j"
    using w r by simp_all
  have q: "q = q div BLOCK_SIZE * BLOCK_SIZE + q mod BLOCK_SIZE" "q mod BLOCK_SIZE < BLOCK_SIZE" by simp_all
  show "file_byte w j q =
      (if bn * BLOCK_SIZE + boff \<le> q \<and> q < bn * BLOCK_SIZE + boff + length data
       then data ! (q - (bn * BLOCK_SIZE + boff)) else file_byte t i q)"
  proof (cases "q div BLOCK_SIZE = bn")
    case True
    then have e: "q = bn * BLOCK_SIZE + q mod BLOCK_SIZE" by (rule div_mod_512)
    obtain o' where o': "q mod BLOCK_SIZE = o'" "o' < BLOCK_SIZE" "q = bn * BLOCK_SIZE + o'" using e q(2) by blast
    have "file_byte w j q = splice_at (blk u ?p) boff data ! o'"
      using True p rng(2) w(4) [of ?p] o'(1) by (simp add: file_byte_def w(5))
    also have "\<dots> = (if boff \<le> o' \<and> o' < boff + length data then data ! (o' - boff) else blk u ?p ! o')"
      using fits blen o'(2) by (intro nth_splice_at) simp_all
    also have "blk u ?p ! o' = file_byte t i q"
      using True p o'(1) grows_byte [OF g, symmetric] by (simp add: file_byte_def)
    finally show ?thesis by (simp add: o'(3))
  next
    case False
    have "\<not> (bn * BLOCK_SIZE + boff \<le> q \<and> q < bn * BLOCK_SIZE + boff + length data)"
      using False fits q by (auto simp: div_nat_eqI)
    moreover have "file_byte w j q = file_byte u j q"
      using phys_inj [OF own p, of "q div BLOCK_SIZE"] phys_range(2) [OF own, of "q div BLOCK_SIZE"] False
        w(4) [of "phys u j (q div BLOCK_SIZE)"]
      by (auto simp: file_byte_def w(5))
    ultimately show ?thesis using grows_byte [OF g] by auto
  qed
qed

text \<open>
  The whole loop: it writes the rest of the buffer from \<open>pos\<close> on, or stops with
  \<open>FS_ENOSPC\<close> because the file would exceed 138 blocks.
\<close>

definition wrote :: "fs \<Rightarrow> inode \<Rightarrow> fs \<Rightarrow> inode \<Rightarrow> nat \<Rightarrow> bytes \<Rightarrow> bool" where
  "wrote t i u j pos data \<longleftrightarrow>
     (\<forall>q. file_byte u j q = (if pos \<le> q \<and> q < pos + length data then data ! (q - pos) else file_byte t i q)) \<and>
     (\<forall>q. pos \<le> q \<and> q < pos + length data \<longrightarrow> phys u j (q div BLOCK_SIZE) \<noteq> 0) \<and>
     (\<forall>bn. phys t i bn \<noteq> 0 \<longrightarrow> phys u j bn \<noteq> 0)"

lemma wrote_Nil [simp]: "wrote t i t i pos []"
  by (auto simp: wrote_def)

lemma wrote_append:
  assumes a: "wrote t i u j pos xs" and b: "wrote u j w k (pos + length xs) ys"
  shows "wrote t i w k pos (xs @ ys)"
  unfolding wrote_def
proof (intro conjI allI impI)
  fix q
  show "file_byte w k q =
      (if pos \<le> q \<and> q < pos + length (xs @ ys) then (xs @ ys) ! (q - pos) else file_byte t i q)"
    using a b by (auto simp: wrote_def nth_append)
  assume "pos \<le> q \<and> q < pos + length (xs @ ys)"
  then show "phys w k (q div BLOCK_SIZE) \<noteq> 0"
    using a b by (cases "q < pos + length xs") (auto simp: wrote_def)
next
  fix bn
  assume "phys t i bn \<noteq> 0"
  then show "phys w k bn \<noteq> 0" using a b by (simp add: wrote_def)
qed

lemma wrote_round:
  assumes m: "mapped s d t i bn r j u" and ino: "live s d" and fits: "boff + length data \<le> BLOCK_SIZE"
  shows "wrote t i (put_blk (phys u j bn) (splice_at (blk u (phys u j bn)) boff data) u) j (bn * BLOCK_SIZE + boff) data"
  unfolding wrote_def
proof (intro conjI allI impI)
  note w = write_round_ok [OF m ino fits]
  have p: "phys u j bn \<noteq> 0" and g: "grows t i u j" using m by (simp_all add: mapped_def)
  let ?w = "put_blk (phys u j bn) (splice_at (blk u (phys u j bn)) boff data) u"
  fix q
  show "file_byte ?w j q = (if bn * BLOCK_SIZE + boff \<le> q \<and> q < bn * BLOCK_SIZE + boff + length data
      then data ! (q - (bn * BLOCK_SIZE + boff)) else file_byte t i q)"
    by (rule w(7))
  assume "bn * BLOCK_SIZE + boff \<le> q \<and> q < bn * BLOCK_SIZE + boff + length data"
  then have "bn * BLOCK_SIZE \<le> q" "q < bn * BLOCK_SIZE + BLOCK_SIZE" using fits by linarith+
  then have "q div BLOCK_SIZE = bn" by (intro div_nat_eqI) simp_all
  with p show "phys ?w j (q div BLOCK_SIZE) \<noteq> 0" by (simp add: w(6))
next
  fix k
  assume "phys t i k \<noteq> 0"
  moreover have "grows t i u j" using m by (simp add: mapped_def)
  ultimately show "phys (put_blk (phys u j bn) (splice_at (blk u (phys u j bn)) boff data) u) j k \<noteq> 0"
    using growsD(2) [of t i u j k] write_round_ok(6) [OF m ino fits] by simp
qed

lemma bslice_drop: "bslice n k xs @ drop (k + n) xs = drop k xs"
  by (simp add: bslice_def) (metis append_take_drop_id drop_drop add.commute)

lemma write_loop_ok:
  assumes "edit_ok s d i t" and "live s d" and "write_loop i pos dn buf t = Some (r, j, u)"
  shows "edit_ok s d j u \<and> same_meta i j \<and>
     (case r of
        Inr p \<Rightarrow> p = pos + (length buf - dn) \<and> wrote t i u j pos (drop dn buf) \<and> (dn < length buf \<longrightarrow> p \<le> FILE_MAX)
      | Inl e \<Rightarrow> e = FS_ENOSPC \<and> FILE_MAX < pos + (length buf - dn))"
  using assms
proof (induction "length buf - dn" arbitrary: i pos dn t rule: less_induct)
  case less
  note ed = less.prems(1) and ino = less.prems(2) and wl = less.prems(3)
  show ?case
  proof (cases "length buf \<le> dn")
    case True
    with ed wl show ?thesis by (auto simp: write_loop.simps [of i pos dn buf t])
  next
    case False
    let ?bn = "pos div BLOCK_SIZE" and ?boff = "pos mod BLOCK_SIZE"
    let ?can = "min (BLOCK_SIZE - ?boff) (length buf - dn)"
    let ?data = "bslice ?can dn buf"
    have pos: "?bn * BLOCK_SIZE + ?boff = pos" "?boff < BLOCK_SIZE" by simp_all
    have dl: "length ?data = ?can" using False by (simp add: slice_simps)
    have fits: "?boff + length ?data \<le> BLOCK_SIZE" using dl pos(2) by linarith
    have can: "0 < ?can" "dn + ?can \<le> length buf" using False pos(2) by linarith+
    obtain ph i1 s1 where m: "map_bn_for_write i ?bn t = Some (ph, i1, s1)"
      using wl False by (auto simp: write_loop.simps [of i pos dn buf t] Option.bind_eq_Some_conv)
    show ?thesis
    proof (cases "?bn < FILE_BLOCKS")
      case beyond: False
      then have "FILE_MAX < pos + (length buf - dn)" using False pos(1) by linarith
      with wl m False map_bn_for_write_beyond [of ?bn i t] beyond ed show ?thesis
        by (auto simp: write_loop.simps [of i pos dn buf t])
    next
      case True
      note mo = map_bn_for_write_ok(1) [OF ed ino True m]
      note w = write_round_ok [OF mo ino fits]
      let ?w = "put_blk (phys s1 i1 ?bn) (splice_at (blk s1 (phys s1 i1 ?bn)) ?boff ?data) s1"
      have rec: "write_loop i1 (pos + ?can) (dn + ?can) buf ?w = Some (r, j, u)"
        using wl m False w(1-3) by (simp add: write_loop.simps [of i pos dn buf t] Let_def)
      have less': "length buf - (dn + ?can) < length buf - dn" using can by linarith
      note IH = less.hyps [OF less' w(4) ino rec]
      have sm: "same_meta i i1" using mo by (simp add: mapped_def)
      have wr: "wrote t i ?w i1 pos ?data" using wrote_round [OF mo ino fits] pos(1) by simp
      have app: "?data @ drop (dn + ?can) buf = drop dn buf" by (rule bslice_drop)
      show ?thesis
      proof (cases r)
        case (Inl e)
        with IH can sm show ?thesis by (auto intro: same_meta_trans)
      next
        case (Inr p)
        with IH have "wrote ?w i1 u j (pos + length ?data) (drop (dn + ?can) buf)" using dl by simp
        from wrote_append [OF wr this] have "wrote t i u j pos (drop dn buf)" unfolding app .
        moreover have "p = pos + (length buf - dn)" using IH Inr can by auto
        moreover have "p \<le> FILE_MAX"
        proof (cases "dn + ?can < length buf")
          case True
          then show ?thesis using IH Inr by auto
        next
          case False
          then have "length buf - dn = ?can" using can(2) by linarith
          then have "p = pos + ?can" using IH Inr by auto
          then show ?thesis using \<open>?bn < FILE_BLOCKS\<close> pos by linarith
        qed
        ultimately show ?thesis using IH Inr sm by (auto intro: same_meta_trans)
      qed
    qed
  qed
qed

lemma write_loop_end: "length buf \<le> dn \<Longrightarrow> write_loop i pos dn buf t = Some (Inr pos, i, t)"
  by (simp add: write_loop.simps [of i pos dn buf t])

text \<open>Enough free blocks for the blocks touched, and one more for a new indirect block.\<close>

definition blocks_touched :: "nat \<Rightarrow> nat \<Rightarrow> nat" where
  "blocks_touched pos n = (pos mod BLOCK_SIZE + n + (BLOCK_SIZE - 1)) div BLOCK_SIZE"

lemma blocks_touched_step:
  assumes "pos mod BLOCK_SIZE + n > BLOCK_SIZE"
  shows "blocks_touched pos n =
    Suc (blocks_touched (pos + (BLOCK_SIZE - pos mod BLOCK_SIZE)) (n - (BLOCK_SIZE - pos mod BLOCK_SIZE)))"
proof -
  have e: "pos + (BLOCK_SIZE - pos mod BLOCK_SIZE) = Suc (pos div BLOCK_SIZE) * BLOCK_SIZE"
  proof -
    have "pos mod BLOCK_SIZE < BLOCK_SIZE" "pos div BLOCK_SIZE * BLOCK_SIZE + pos mod BLOCK_SIZE = pos" by simp_all
    then show ?thesis unfolding mult_Suc by linarith
  qed
  have m: "(pos + (BLOCK_SIZE - pos mod BLOCK_SIZE)) mod BLOCK_SIZE = 0" unfolding e by simp
  have "pos mod BLOCK_SIZE + n + 511 = BLOCK_SIZE + (n - (BLOCK_SIZE - pos mod BLOCK_SIZE) + 511)"
  proof -
    have "pos mod BLOCK_SIZE < BLOCK_SIZE" by simp
    with assms show ?thesis by linarith
  qed
  then show ?thesis unfolding blocks_touched_def m by simp
qed

lemma blocks_touched_pos: "0 < n \<Longrightarrow> 0 < blocks_touched pos n"
  by (simp add: blocks_touched_def div_greater_zero_iff)

lemma need_mono: "k \<le> m \<Longrightarrow> need i k \<le> need i m"
  by (simp add: need_def)

lemma write_loop_room:
  assumes "edit_ok s d i t" and "live s d" and "need i (blocks_touched pos (length buf - dn) + m) \<le> nfree_blocks t"
  shows "\<exists>r j u. write_loop i pos dn buf t = Some (r, j, u) \<and> need j m \<le> nfree_blocks u"
  using assms
proof (induction "length buf - dn" arbitrary: i pos dn t rule: less_induct)
  case less
  note ed = less.prems(1) and ino = less.prems(2) and n = less.prems(3)
  show ?case
  proof (cases "length buf \<le> dn")
    case True
    have "need i m \<le> nfree_blocks t" using n need_mono [of m "blocks_touched pos (length buf - dn) + m" i] by simp
    with True show ?thesis by (simp add: write_loop.simps [of i pos dn buf t])
  next
    case False
    let ?bn = "pos div BLOCK_SIZE" and ?boff = "pos mod BLOCK_SIZE"
    let ?can = "min (BLOCK_SIZE - ?boff) (length buf - dn)"
    let ?data = "bslice ?can dn buf"
    have pos: "?bn * BLOCK_SIZE + ?boff = pos" "?boff < BLOCK_SIZE" by simp_all
    have dl: "length ?data = ?can" using False by (simp add: slice_simps)
    have fits: "?boff + length ?data \<le> BLOCK_SIZE" using dl pos(2) by linarith
    have can: "0 < ?can" "dn + ?can \<le> length buf" using False pos(2) by linarith+
    obtain k where k: "blocks_touched pos (length buf - dn) = Suc k"
      using blocks_touched_pos [of "length buf - dn" pos] False by (metis not_le gr0_implies_Suc zero_less_diff)
    have "need i 1 \<le> nfree_blocks t" using n need_mono [of 1 "Suc k + m" i] k by simp
    from map_bn_for_write_total [OF ed ino this] obtain ph i1 s1
      where mw: "map_bn_for_write i ?bn t = Some (ph, i1, s1)" by blast
    show ?thesis
    proof (cases "?bn < FILE_BLOCKS")
      case beyond: False
      then have "map_bn_for_write i ?bn t = Some (FS_ENOSPC, i, t)" by (intro map_bn_for_write_beyond) simp
      moreover have "need i m \<le> nfree_blocks t" using n need_mono [of m "blocks_touched pos (length buf - dn) + m" i] by simp
      ultimately show ?thesis using False by (simp add: write_loop.simps [of i pos dn buf t])
    next
      case True
      note mo = map_bn_for_write_ok [OF ed ino True mw]
      note w = write_round_ok [OF mo(1) ino fits]
      let ?w = "put_blk (phys s1 i1 ?bn) (splice_at (blk s1 (phys s1 i1 ?bn)) ?boff ?data) s1"
      have step: "write_loop i pos dn buf t = write_loop i1 (pos + ?can) (dn + ?can) buf ?w"
        using mw False w(1-3) by (simp add: write_loop.simps [of i pos dn buf t] Let_def)
      have less': "length buf - (dn + ?can) < length buf - dn" using can by linarith
      have kw: "need i1 (k + m) \<le> nfree_blocks ?w" using mo(2) [of "k + m"] n k w(5) by simp
      have "\<exists>r j u. write_loop i1 (pos + ?can) (dn + ?can) buf ?w = Some (r, j, u) \<and>
          need j m \<le> nfree_blocks u"
      proof (cases "dn + ?can = length buf")
        case True
        have "need i1 m \<le> nfree_blocks ?w" using kw need_mono [of m "k + m" i1] by linarith
        moreover have "write_loop i1 (pos + ?can) (dn + ?can) buf ?w = Some (Inr (pos + ?can), i1, ?w)"
          using True by (intro write_loop_end) linarith
        ultimately show ?thesis by blast
      next
        case more: False
        then have c: "?can = BLOCK_SIZE - ?boff" "?boff + (length buf - dn) > BLOCK_SIZE" using can pos(2) by linarith+
        have "blocks_touched (pos + ?can) (length buf - (dn + ?can)) = k"
          unfolding c(1) diff_diff_add [symmetric] using blocks_touched_step [OF c(2)] k by (simp only: nat.inject)
        then have "need i1 (blocks_touched (pos + ?can) (length buf - (dn + ?can)) + m) \<le> nfree_blocks ?w"
          using kw by simp
        from less.hyps [OF less' w(4) ino this] show ?thesis .
      qed
      then show ?thesis unfolding step .
    qed
  qed
qed

lemma write_loop_total:
  assumes "edit_ok s d i t" and "live s d" and "need i (blocks_touched pos (length buf - dn)) \<le> nfree_blocks t"
  shows "\<exists>r j u. write_loop i pos dn buf t = Some (r, j, u)"
  using write_loop_room [OF assms(1,2), of pos buf dn 0] assms(3) by auto

section \<open>Reading a file\<close>

lemma map_file_byte_block:
  assumes "phys s i bn \<noteq> 0" and "boff + n \<le> BLOCK_SIZE" and "length (blk s (phys s i bn)) = BLOCK_SIZE"
    and "0 < n"
  shows "bslice n boff (blk s (phys s i bn)) = map (file_byte s i) [bn * BLOCK_SIZE + boff..<bn * BLOCK_SIZE + boff + n]"
proof (rule nth_equalityI)
  show "length (bslice n boff (blk s (phys s i bn))) =
      length (map (file_byte s i) [bn * BLOCK_SIZE + boff..<bn * BLOCK_SIZE + boff + n])"
    using assms by (simp add: slice_simps)
  fix k
  assume "k < length (bslice n boff (blk s (phys s i bn)))"
  then have k: "k < n" "boff + k < BLOCK_SIZE" using assms by (simp_all add: slice_simps)
  have "(bn * BLOCK_SIZE + boff + k) div BLOCK_SIZE = bn" "(bn * BLOCK_SIZE + boff + k) mod BLOCK_SIZE = boff + k"
    using k(2) by (simp_all add: add.assoc)
  with k assms show "bslice n boff (blk s (phys s i bn)) ! k =
      map (file_byte s i) [bn * BLOCK_SIZE + boff..<bn * BLOCK_SIZE + boff + n] ! k"
    by (simp add: nth_bslice file_byte_def)
qed

text \<open>
  The read loop copies the file's bytes up to the requested number, or up to the first
  position whose block is a hole.
\<close>

definition read_upto :: "fs \<Rightarrow> inode \<Rightarrow> nat \<Rightarrow> nat \<Rightarrow> nat \<Rightarrow> bool" where
  "read_upto s i pos n p \<longleftrightarrow> pos \<le> p \<and> p \<le> pos + n \<and>
     (\<forall>q. pos \<le> q \<and> q < p \<longrightarrow> phys s i (q div BLOCK_SIZE) \<noteq> 0) \<and>
     (p < pos + n \<longrightarrow> phys s i (p div BLOCK_SIZE) = 0)"

lemma read_loop_ok:
  assumes inv: "view_inv s f" and ino: "live s d"
  shows "\<exists>p. read_loop (f d) pos dn len out s = (Inr p, out @ map (file_byte s (f d)) [pos..<p]) \<and>
    read_upto s (f d) pos (len - dn) p"
proof (induction "len - dn" arbitrary: pos dn out rule: less_induct)
  case less
  let ?i = "f d" and ?bn = "pos div BLOCK_SIZE" and ?boff = "pos mod BLOCK_SIZE"
  note eq = read_loop.simps [of ?i pos dn len out s]
  note mr = map_bn_for_read_ok [OF inv ino, of ?bn]
  have pos: "?bn * BLOCK_SIZE + ?boff = pos" "?boff < BLOCK_SIZE" by simp_all
  show ?case
  proof (cases "len \<le> dn \<or> phys s ?i ?bn = 0")
    case True
    with eq mr show ?thesis by (intro exI [of _ pos]) (auto simp: read_upto_def)
  next
    case False
    then have dn: "dn < len" and ph: "phys s ?i ?bn \<noteq> 0" by auto
    let ?can = "min (BLOCK_SIZE - ?boff) (len - dn)"
    have can: "0 < ?can" "?boff + ?can \<le> BLOCK_SIZE" "dn + ?can \<le> len" using dn pos(2) by linarith+
    have rng: "phys s ?i ?bn < TOTAL_BLOCKS" using phys_range(2) [OF view_invD(4) [OF inv ino] ph] by simp
    note dv = view_invD(3) [OF inv]
    let ?b = "blk s (phys s ?i ?bn)"
    have piece: "bslice ?can ?boff ?b = map (file_byte s ?i) [pos..<pos + ?can]"
      using map_file_byte_block [OF ph can(2) _ can(1)] dv rng unfolding pos(1) by simp
    have step: "read_loop ?i pos dn len out s =
        read_loop ?i (pos + ?can) (dn + ?can) len (out @ bslice ?can ?boff ?b) s"
      unfolding eq using dn ph mr dev_read_ok [OF dv rng] by (simp add: Let_def)
    have less': "len - (dn + ?can) < len - dn" using can by linarith
    from less.hyps [OF less', of "pos + ?can" "out @ bslice ?can ?boff ?b"] obtain p where
      p: "read_loop ?i (pos + ?can) (dn + ?can) len (out @ bslice ?can ?boff ?b) s =
        (Inr p, (out @ bslice ?can ?boff ?b) @ map (file_byte s ?i) [pos + ?can..<p])"
        "read_upto s ?i (pos + ?can) (len - (dn + ?can)) p" by blast
    have le: "pos + ?can \<le> p" using p(2) by (simp add: read_upto_def)
    have "map (file_byte s ?i) [pos..<pos + ?can] @ map (file_byte s ?i) [pos + ?can..<p] = map (file_byte s ?i) [pos..<p]"
      using upt_add_eq_append [of pos "pos + ?can" "p - (pos + ?can)"] le by (simp flip: map_append)
    moreover have "read_upto s ?i pos (len - dn) p"
      unfolding read_upto_def
    proof (intro conjI allI impI)
      show "pos \<le> p" using le by linarith
      have e: "pos + ?can + (len - (dn + ?can)) = pos + (len - dn)" using can(3) dn by linarith
      show "p \<le> pos + (len - dn)" using p(2) unfolding read_upto_def e by blast
      show "p < pos + (len - dn) \<Longrightarrow> phys s ?i (p div BLOCK_SIZE) = 0"
        using p(2) unfolding read_upto_def e by blast
      fix q
      assume q: "pos \<le> q \<and> q < p"
      show "phys s ?i (q div BLOCK_SIZE) \<noteq> 0"
      proof (cases "q < pos + ?can")
        case True
        then have "q < ?bn * BLOCK_SIZE + BLOCK_SIZE" "?bn * BLOCK_SIZE \<le> q" using q pos can(2) by linarith+
        then have "q div BLOCK_SIZE = ?bn" by (intro div_nat_eqI) simp_all
        with ph show ?thesis by simp
      next
        case False
        with q p(2) show ?thesis by (simp add: read_upto_def)
      qed
    qed
    ultimately show ?thesis using step p(1) piece by (intro exI [of _ p]) simp
  qed
qed

section \<open>The operations on an open file\<close>

text \<open>
  \<open>fd_open s fd ino off w\<close>: descriptor \<open>fd\<close> stands for the live inode \<open>ino\<close> at offset \<open>off\<close>,
  opened for writing if \<open>w\<close>.
\<close>

definition fd_open :: "fs \<Rightarrow> int \<Rightarrow> nat \<Rightarrow> nat \<Rightarrow> bool \<Rightarrow> bool" where
  "fd_open s fd ino off w \<longleftrightarrow> 0 \<le> fd \<and> fd < int MAX_OPEN \<and> length (g_ofile s) = MAX_OPEN \<and> off < 2 ^ 32 \<and>
     g_ofile s ! nat fd = \<lparr>of_used = True, of_ino = of_nat ino, of_offset = of_nat off, of_writable = w\<rparr> \<and>
     live s ino"

definition file_size :: "fs \<Rightarrow> nat \<Rightarrow> nat" where
  "file_size s ino = unat (i_size (inode_at s ino))"

definition file_at :: "fs \<Rightarrow> nat \<Rightarrow> nat \<Rightarrow> u8" where
  "file_at s ino = file_byte s (inode_at s ino)"

definition hole_at :: "fs \<Rightarrow> nat \<Rightarrow> nat \<Rightarrow> bool" where
  "hole_at s ino q \<longleftrightarrow> phys s (inode_at s ino) (q div BLOCK_SIZE) = 0"

lemma fd_openD:
  assumes "fd_open s fd ino off w"
  shows "\<not> fd_bad fd s" "unat (of_ino (g_ofile s ! nat fd)) = ino" "unat (of_offset (g_ofile s ! nat fd)) = off"
    "of_writable (g_ofile s ! nat fd) = w" "live s ino" "nat fd < length (g_ofile s)"
proof -
  have l: "live s ino" using assms by (simp add: fd_open_def)
  then have "ino < 2 ^ 32" using live_valid [OF l] by simp
  then have "unat (of_nat ino :: u32) = ino" by (simp add: unat_of_nat)
  moreover have "unat (of_nat off :: u32) = off" using assms by (simp add: fd_open_def unat_of_nat)
  ultimately show "\<not> fd_bad fd s" "unat (of_ino (g_ofile s ! nat fd)) = ino"
    "unat (of_offset (g_ofile s ! nat fd)) = off" "of_writable (g_ofile s ! nat fd) = w" "live s ino"
    "nat fd < length (g_ofile s)"
    using assms by (auto simp: fd_open_def fd_bad_def nat_less_iff)
qed

lemma ofile_frame [simp]:
  "vol_inv (g_ofile_update f s) = vol_inv s" "live (g_ofile_update f s) = live s"
  "phys (g_ofile_update f s) = phys s" "file_byte (g_ofile_update f s) = file_byte s"
  "nfree_blocks (g_ofile_update f s) = nfree_blocks s"
proof -
  show l: "live (g_ofile_update f s) = live s" by (simp add: fun_eq_iff live_def)
  have p: "ptr_list (g_ofile_update f s) = ptr_list s" by (simp add: fun_eq_iff ptr_list_def)
  have o: "owned (g_ofile_update f s) = owned s" by (simp add: fun_eq_iff owned_def p)
  have ok: "own_ok (g_ofile_update f s) = own_ok s" by (simp add: fun_eq_iff own_ok_def o)
  show "vol_inv (g_ofile_update f s) = vol_inv s" unfolding vol_inv_def view_inv_def l o ok by simp
  show "phys (g_ofile_update f s) = phys s" by (simp add: fun_eq_iff phys_def p)
  then show "file_byte (g_ofile_update f s) = file_byte s" by (simp add: fun_eq_iff file_byte_def)
  show "nfree_blocks (g_ofile_update f s) = nfree_blocks s" by (rule nfree_cong) simp
qed

lemma vol_inv_tick [simp]: "vol_inv (tick_update f s) = vol_inv s"
  by (simp add: vol_inv_def)

lemma fd_set_frame [simp]:
  "vol_inv (fd_set n f s) = vol_inv s" "live (fd_set n f s) = live s" "inode_at (fd_set n f s) = inode_at s"
  "phys (fd_set n f s) = phys s" "file_byte (fd_set n f s) = file_byte s" "g_uid (fd_set n f s) = g_uid s"
  "g_cwd (fd_set n f s) = g_cwd s" "g_dev (fd_set n f s) = g_dev s"
  "clock (fd_set n f s) = clock s" "tick (fd_set n f s) = tick s" "blk (fd_set n f s) = blk s"
  "blk_used (fd_set n f s) = blk_used s" "ino_used (fd_set n f s) = ino_used s"
  by (simp_all add: fd_set_def)

lemma dir_fd_frame [simp]:
  "dir_entries (fd_set n f s) = dir_entries s" "dir_wf (fd_set n f s) = dir_wf s" "dir_wf (tick_update g s) = dir_wf s"
  "nfree_blocks (fd_set n f s) = nfree_blocks s"
proof -
  show "dir_entries (fd_set n f s) = dir_entries s" by (simp add: fd_set_def)
  show "dir_wf (fd_set n f s) = dir_wf s" "dir_wf (tick_update g s) = dir_wf s" by (simp_all add: fun_eq_iff dir_wf_def)
  show "nfree_blocks (fd_set n f s) = nfree_blocks s" by (rule nfree_cong) simp
qed

lemma only_changedD:
  assumes "only_changed s d t"
  shows "g_ofile t = g_ofile s" "live t = live s" "vol_inv t" "g_uid t = g_uid s" "same_session s t"
  using assms by (simp_all add: only_changed_def same_session_def)

text \<open>A file operation through a descriptor: what it does to the other files.\<close>

definition file_step :: "fs \<Rightarrow> nat \<Rightarrow> fs \<Rightarrow> bool" where
  "file_step s ino t \<longleftrightarrow> vol_inv t \<and> live t = live s \<and> g_uid t = g_uid s \<and> g_cwd t = g_cwd s \<and> g_dev t = g_dev s \<and>
     (\<forall>k. live s k \<and> k \<noteq> ino \<longrightarrow> inode_at t k = inode_at s k \<and> file_at t k = file_at s k \<and> hole_at t k = hole_at s k) \<and>
     (\<forall>k. dir_wf s k \<and> k \<noteq> ino \<longrightarrow> dir_wf t k \<and> dir_entries t k = dir_entries s k)"

lemma file_stepI:
  assumes oc: "only_changed s ino t" and inv: "vol_inv s" and ino: "live s ino"
    and t: "u = t \<or> u = fd_set n f t"
  shows "file_step s ino u"
  using only_changed_other [OF oc inv _ _ ino] only_changed_dir [OF oc inv _ _ ino] oc t
  by (auto simp: file_step_def file_at_def hole_at_def only_changed_def same_session_def)

lemma hole_at_frame [simp]: "hole_at (fd_set n g s) = hole_at s" "hole_at (tick_update f s) = hole_at s"
  by (simp_all add: fun_eq_iff hole_at_def)

lemma file_step_frame [simp]:
  "file_step (tick_update f s) ino t = file_step s ino t" "file_step (fd_set n g s) ino t = file_step s ino t"
  by (simp_all add: file_step_def file_at_def)

lemma file_step_trans: "file_step s n t \<Longrightarrow> file_step t n u \<Longrightarrow> file_step s n u"
  by (auto simp: file_step_def)

lemma file_step_closed: "file_step s n t \<Longrightarrow> file_step s n (fd_set k f t)"
proof -
  have "file_at (fd_set k f t) = file_at t" by (simp add: fun_eq_iff file_at_def)
  then show "file_step s n t \<Longrightarrow> ?thesis" by (simp add: file_step_def)
qed

lemma grow_size_props:
  "same_ptrs (grow_size p i) i" "pos < 2 ^ 32 \<Longrightarrow> unat (i_size (grow_size pos i)) = max (unat (i_size i)) pos"
  "i_mode (grow_size p i) = i_mode i" "i_uid (grow_size p i) = i_uid i"
  by (auto simp: grow_size_def same_ptrs_def unat_of_nat)

text \<open>Of the table of open files a call through a descriptor changes at most the offset there.\<close>

definition table_kept :: "fs \<Rightarrow> int \<Rightarrow> fs \<Rightarrow> bool" where
  "table_kept s fd t \<longleftrightarrow> (\<exists>p. g_ofile t = (g_ofile s)[nat fd := (g_ofile s ! nat fd)\<lparr>of_offset := p\<rparr>])"

lemma table_kept_same: "g_ofile t = g_ofile s \<Longrightarrow> table_kept s fd t"
  unfolding table_kept_def by (rule exI [of _ "of_offset (g_ofile s ! nat fd)"]) simp

lemma table_kept_set: "g_ofile u = g_ofile s \<Longrightarrow> table_kept s fd (fd_set (nat fd) (\<lambda>f. f\<lparr>of_offset := p\<rparr>) u)"
  by (auto simp: table_kept_def fd_set_def)

text \<open>
  Writing: the bytes of the buffer replace those from the offset on, the size grows as needed,
  and the offset advances; otherwise the file would exceed its 138 blocks, and the call returns
  \<open>FS_ENOSPC\<close> with inodes and descriptors as they were.
\<close>

lemma fs_write_ok:
  assumes inv: "vol_inv s" and fd: "fd_open s fd ino off True"
    and perm: "perm_can_write (inode_at s ino) (g_uid s)" and w: "fs_write fd buf s = Some (r, t)"
  shows "file_step s ino t \<and>
    (r = FS_ENOSPC \<and> FILE_MAX < off + length buf \<and> fd_open t fd ino off True \<and> inode_at t ino = inode_at s ino \<or>
     r = int (length buf) \<and> fd_open t fd ino (off + length buf) True \<and>
     file_size t ino = max (file_size s ino) (off + length buf) \<and>
     i_mode (inode_at t ino) = i_mode (inode_at s ino) \<and> i_uid (inode_at t ino) = i_uid (inode_at s ino) \<and>
     (\<forall>q. file_at t ino q = (if off \<le> q \<and> q < off + length buf then buf ! (q - off) else file_at s ino q)) \<and>
     (\<forall>q. off \<le> q \<and> q < off + length buf \<or> \<not> hole_at s ino q \<longrightarrow> \<not> hole_at t ino q)) \<and> table_kept s fd t"
proof -
  note fo = fd_openD [OF fd]
  have vs: "view_inv s (inode_at s)" using inv by (simp add: vol_inv_def)
  have rd: "read_inode ino s = Some (inode_at s ino)"
    using view_invD(1) [OF vs] live_valid [OF fo(5)] by (rule read_inode_ok)
  obtain e i1 s1 where wl: "write_loop (inode_at s ino) off 0 buf s = Some (e, i1, s1)"
    using w fo rd perm by (auto simp: fs_write_def Let_def Option.bind_eq_Some_conv)
  note wo = write_loop_ok [OF edit_ok_refl [OF inv] fo(5) wl]
  then have ed: "edit_ok s ino i1 s1" and sm: "same_meta (inode_at s ino) i1" by auto
  show ?thesis
  proof (cases e)
    case (Inl x)
    with w fo rd perm wl wo have rt: "r = x" "t = s1" "x = FS_ENOSPC" "FILE_MAX < off + length buf"
      by (auto simp: fs_write_def Let_def)
    note ab = edit_abort [OF ed fo(5)]
    have g: "g_ofile s1 = g_ofile s" "live s1 = live s" by (rule only_changedD [OF ab(1)])+
    then have "fd_open s1 fd ino off True" using fd by (simp add: fd_open_def)
    with rt ab(2) file_stepI [OF ab(1) inv fo(5)] table_kept_same [OF g(1)] show ?thesis by simp
  next
    case (Inr p)
    have p: "p = off + length buf" "wrote s (inode_at s ino) s1 i1 off buf" "buf \<noteq> [] \<longrightarrow> p \<le> FILE_MAX"
      using wo Inr by auto
    have p32: "p < 2 ^ 32" using p(1,3) fd by (cases "buf = []") (auto simp: fd_open_def)
    let ?s2 = "tick_update (\<lambda>_. Suc (tick s1)) s1"
    let ?j = "(grow_size p i1)\<lparr>i_mtime := clock s1 (tick s1)\<rparr>"
    have sp: "same_ptrs ?j i1" using grow_size_props(1) [of p i1] by (simp add: same_ptrs_def)
    have ed2: "edit_ok s ino i1 ?s2" using ed by simp
    note co = edit_commit [OF ed2 fo(5) sp]
    let ?u = "put_inode ino ?j ?s2"
    have rt: "r = int (length buf)" "t = fd_set (nat fd) (\<lambda>f. f\<lparr>of_offset := of_nat p\<rparr>) ?u"
      using w fo rd perm wl Inr co(1) by (auto simp: fs_write_def Let_def ts_now_def)
    have g: "g_ofile ?u = g_ofile s" "live ?u = live s" by (rule only_changedD [OF co(2)])+
    have "table_kept s fd t" unfolding rt(2) by (rule table_kept_set [OF g(1)])
    moreover from g have "fd_open t fd ino p True"
      using fd fo(6) p32 unfolding rt(2) by (simp add: fd_open_def fd_set_def live_def)
    moreover have "inode_at t ino = ?j" unfolding rt(2) using co(3) by simp
    moreover have "file_at t ino = file_byte s1 i1" "phys t ?j = phys s1 i1"
      unfolding rt(2) file_at_def using co(3-5) by simp_all
    moreover have "file_step s ino t" unfolding rt(2) by (rule file_stepI [OF co(2) inv fo(5)]) (rule disjI2, rule refl)
    ultimately show ?thesis
      using rt(1) p(1,2) sm grow_size_props [of p i1] p32
      by (auto simp: file_size_def hole_at_def file_at_def wrote_def same_meta_def)
  qed
qed

lemma fs_write_room:
  assumes inv: "vol_inv s" and fd: "fd_open s fd ino off True"
    and perm: "perm_can_write (inode_at s ino) (g_uid s)"
    and room: "need (inode_at s ino) (blocks_touched off (length buf) + m) \<le> nfree_blocks s"
  shows "\<exists>r t. fs_write fd buf s = Some (r, t) \<and> m \<le> nfree_blocks t"
proof -
  note fo = fd_openD [OF fd]
  have vs: "view_inv s (inode_at s)" using inv by (simp add: vol_inv_def)
  have rd: "read_inode ino s = Some (inode_at s ino)"
    using view_invD(1) [OF vs] live_valid [OF fo(5)] by (rule read_inode_ok)
  obtain e i1 s1 where wl: "write_loop (inode_at s ino) off 0 buf s = Some (e, i1, s1)"
    "need i1 m \<le> nfree_blocks s1"
    using write_loop_room [OF edit_ok_refl [OF inv] fo(5), of off buf 0 m] room by auto
  note wo = write_loop_ok [OF edit_ok_refl [OF inv] fo(5) wl(1)]
  then have ed: "edit_ok s ino i1 s1" by auto
  show ?thesis
  proof (cases e)
    case (Inl x)
    have "m \<le> nfree_blocks s1" using wl(2) by (simp add: need_def)
    with Inl fo rd perm wl(1) wo show ?thesis by (auto simp: fs_write_def Let_def)
  next
    case (Inr p)
    let ?s2 = "tick_update (\<lambda>_. Suc (tick s1)) s1"
    let ?j = "(grow_size p i1)\<lparr>i_mtime := clock s1 (tick s1)\<rparr>"
    have sp: "same_ptrs ?j i1" using grow_size_props(1) [of p i1] by (simp add: same_ptrs_def)
    have ed2: "edit_ok s ino i1 ?s2" using ed by simp
    note co = edit_commit [OF ed2 fo(5) sp]
    have "nfree_blocks (put_inode ino ?j ?s2) = nfree_blocks s1"
    proof -
      have own: "own_ok s1 i1" using step_ok_own [OF edit_okD(1) [OF ed] fo(5)] by simp
      have wf: "wf_inode ?j" using same_ptrs_own [OF sp] own_okD(1) [OF own] by simp
      have "vol_ok ?s2" using view_invD(1) [OF step_okD(1) [OF edit_okD(1) [OF ed2]]] .
      have "nfree_blocks (put_inode ino ?j ?s2) = nfree_blocks ?s2"
        by (rule nfree_cong(1) [OF put_inode_used(1) [OF \<open>vol_ok ?s2\<close> live_valid [OF fo(5)] wf]])
      also have "\<dots> = nfree_blocks s1" by (rule nfree_cong(1)) simp
      finally show ?thesis .
    qed
    moreover have "m \<le> nfree_blocks s1" using wl(2) by (simp add: need_def)
    ultimately show ?thesis
      using fo rd perm wl(1) Inr co(1) by (auto simp: fs_write_def Let_def ts_now_def)
  qed
qed

lemma fs_write_total:
  assumes inv: "vol_inv s" and fd: "fd_open s fd ino off True"
    and perm: "perm_can_write (inode_at s ino) (g_uid s)"
    and room: "need (inode_at s ino) (blocks_touched off (length buf)) \<le> nfree_blocks s"
  shows "\<exists>r t. fs_write fd buf s = Some (r, t)"
  using fs_write_room [OF inv fd perm, of buf 0] room by auto

text \<open>
  Reading: the call copies the file's bytes from the offset on and advances the offset by as
  many, stopping at the end of the file, after \<open>len\<close> bytes, or at a hole.
\<close>

lemma fs_read_ok:
  assumes inv: "vol_inv s" and fd: "fd_open s fd ino off w"
    and perm: "perm_can_read (inode_at s ino) (g_uid s)" and r: "fs_read fd len s = (r, out, t)"
  shows "file_step s ino t \<and>
    (\<exists>p. r = int (p - off) \<and> out = map (file_at s ino) [off..<p] \<and> fd_open t fd ino p w \<and>
       read_upto s (inode_at s ino) off (min len (file_size s ino - off)) p) \<and>
    file_at t ino = file_at s ino \<and> file_size t ino = file_size s ino \<and>
    (\<forall>q. hole_at t ino q = hole_at s ino q) \<and>
    i_mode (inode_at t ino) = i_mode (inode_at s ino) \<and> i_uid (inode_at t ino) = i_uid (inode_at s ino) \<and> blk_used t = blk_used s \<and>
    table_kept s fd t \<and>
    inode_at t ino = (if file_size s ino \<le> off then inode_at s ino else (inode_at s ino)\<lparr>i_atime := clock s (tick s)\<rparr>)"
proof -
  note fo = fd_openD [OF fd]
  have vs: "view_inv s (inode_at s)" using inv by (simp add: vol_inv_def)
  have rd: "read_inode ino s = Some (inode_at s ino)"
    using view_invD(1) [OF vs] live_valid [OF fo(5)] by (rule read_inode_ok)
  show ?thesis
  proof (cases "file_size s ino \<le> off")
    case True
    then have "r = 0" "out = []" "t = s" using r fo rd perm by (auto simp: fs_read_def file_size_def Let_def)
    moreover have "file_step s ino s" "table_kept s fd s" using inv by (simp_all add: file_step_def table_kept_same)
    ultimately show ?thesis using True fd by (auto simp: read_upto_def intro!: exI [of _ off])
  next
    case False
    let ?n = "min len (file_size s ino - off)"
    obtain p where p: "read_loop (inode_at s ino) off 0 ?n [] s = (Inr p, map (file_byte s (inode_at s ino)) [off..<p])"
      "read_upto s (inode_at s ino) off ?n p"
      using read_loop_ok [OF vs fo(5), of off 0 ?n "[]"] by auto
    have "p \<le> off + ?n" using p(2) by (simp add: read_upto_def)
    also have "\<dots> \<le> file_size s ino" using False by linarith
    also have "\<dots> < 2 ^ 32" using unsigned_less [of "i_size (inode_at s ino)", where 'a = nat] by (simp add: file_size_def)
    finally have p32: "p < 2 ^ 32" .
    let ?j = "(inode_at s ino)\<lparr>i_atime := clock s (tick s)\<rparr>"
    let ?s2 = "tick_update (\<lambda>_. Suc (tick s)) (fd_set (nat fd) (\<lambda>f. f\<lparr>of_offset := of_nat p\<rparr>) s)"
    let ?v = "put_inode ino ?j ?s2"
    have sp: "same_ptrs ?j (inode_at s ino)" by (simp add: same_ptrs_def)
    have res: "r = int (p - off)" "out = map (file_at s ino) [off..<p]" "t = ?v"
      using r fo rd perm False p(1)
      by (auto simp: fs_read_def file_size_def file_at_def Let_def ts_now_def put_inode_def)
    have inv2: "vol_inv ?s2" using inv by simp
    have l2: "live ?s2 ino" using fo(5) by simp
    have sp2: "same_ptrs ?j (inode_at ?s2 ino)" using sp by simp
    note co = edit_commit [OF edit_ok_refl [OF inv2] l2 sp2]
    have t1: "g_ofile t = g_ofile ?s2" "live t = live ?s2" unfolding res(3) by (rule only_changedD [OF co(2)])+
    have wf: "wf_inode ?j" using same_ptrs_own [OF sp] own_okD(1) [OF view_invD(4) [OF vs fo(5)]] by simp
    have "vol_ok ?s2" using view_invD(1) [OF vs] inv2 by (simp add: vol_inv_def view_invD(1))
    then have "blk_used t = blk_used s"
      unfolding res(3) using put_inode_used(1) [OF _ live_valid [OF fo(5)] wf, of ?s2] by (simp add: fun_eq_iff blk_used_def)
    moreover have "table_kept s fd t" using t1(1) by (auto simp: table_kept_def fd_set_def)
    moreover have "fd_open t fd ino p w"
      using fd fo(6) p32 t1 by (simp add: fd_open_def fd_set_def live_def)
    moreover have "inode_at t ino = ?j" "file_byte t ?j = file_byte s (inode_at s ino)"
      "phys t ?j = phys s (inode_at s ino)"
      unfolding res(3) using co(3-5) by simp_all
    moreover have "file_step ?s2 ino t"
      unfolding res(3) by (rule file_stepI [OF co(2) inv2 l2]) (rule disjI1, rule refl)
    then have "file_step s ino t" by simp
    ultimately show ?thesis
      using res(1,2) p(2) False by (auto simp: file_at_def file_size_def hole_at_def)
  qed
qed

text \<open>Closing and seeking.\<close>

lemma fs_seek_ok:
  assumes fd: "fd_open s fd ino off w" and n: "n < 2 ^ 31"
  shows "\<exists>t. fs_seek fd (of_nat n) s = (FS_OK, t) \<and> fd_open t fd ino n w \<and> t = fd_set (nat fd) (\<lambda>f. f\<lparr>of_offset := of_nat n\<rparr>) s"
proof -
  have "\<not> sint (of_nat n :: 32 word) < 0"
  proof -
    have "uint (of_nat n :: 32 word) = int n" using n by (simp add: uint_nat unat_of_nat)
    with n show ?thesis by (simp add: sint_uint signed_take_bit_int_eq_self)
  qed
  then have "fs_seek fd (of_nat n) s = (FS_OK, fd_set (nat fd) (\<lambda>f. f\<lparr>of_offset := of_nat n\<rparr>) s)"
    using fd_openD(1) [OF fd] by (simp add: fs_seek_def)
  moreover have "fd_open (fd_set (nat fd) (\<lambda>f. f\<lparr>of_offset := of_nat n\<rparr>) s) fd ino n w"
    using fd fd_openD(6) [OF fd] n by (simp add: fd_open_def fd_set_def)
  ultimately show ?thesis by blast
qed

lemma fs_close_ok:
  assumes "fd_open s fd ino off w"
  shows "\<exists>t. fs_close fd s = (FS_OK, t) \<and> fd_bad fd t \<and> (vol_inv s \<longrightarrow> vol_inv t) \<and>
    (\<forall>k. k \<noteq> nat fd \<longrightarrow> g_ofile t ! k = g_ofile s ! k)"
  using fd_openD(1,6) [OF assms] by (auto simp: fs_close_def fd_bad_def fd_set_def)

text \<open>What has been written is read back.\<close>

lemma read_upto_full:
  assumes "read_upto s i pos n p" and "\<And>q. pos \<le> q \<Longrightarrow> q < pos + n \<Longrightarrow> phys s i (q div BLOCK_SIZE) \<noteq> 0"
  shows "p = pos + n"
  using assms(1) assms(2) [of p] by (fastforce simp: read_upto_def)

lemma write_read_back:
  assumes inv: "vol_inv s" and fd: "fd_open s fd ino off True" and off: "off < 2 ^ 31"
    and pw: "perm_can_write (inode_at s ino) (g_uid s)" and pr: "perm_can_read (inode_at s ino) (g_uid s)"
    and w: "fs_write fd buf s = Some (r, t)" and r: "0 \<le> r"
    and k: "fs_seek fd (of_nat off) t = (k, v)" and rd: "fs_read fd (length buf) v = (n, out, u)"
  shows "n = int (length buf) \<and> out = buf \<and> vol_inv u"
proof -
  have o: "r = int (length buf)" "fd_open t fd ino (off + length buf) True"
    "file_size t ino = max (file_size s ino) (off + length buf)"
    "i_mode (inode_at t ino) = i_mode (inode_at s ino)" "i_uid (inode_at t ino) = i_uid (inode_at s ino)"
    "\<forall>q. file_at t ino q = (if off \<le> q \<and> q < off + length buf then buf ! (q - off) else file_at s ino q)"
    "\<forall>q. off \<le> q \<and> q < off + length buf \<longrightarrow> \<not> hole_at t ino q" "vol_inv t"
    and uid: "g_uid t = g_uid s"
    using fs_write_ok [OF inv fd pw w] r by (auto simp: file_step_def)
  obtain v' where v': "fs_seek fd (of_nat off) t = (FS_OK, v')" "fd_open v' fd ino off True"
    "v' = fd_set (nat fd) (\<lambda>f. f\<lparr>of_offset := of_nat off\<rparr>) t"
    using fs_seek_ok [OF o(2) off] by blast
  have v: "fd_open v fd ino off True" "v = fd_set (nat fd) (\<lambda>f. f\<lparr>of_offset := of_nat off\<rparr>) t" using v' k by simp_all
  have same: "inode_at v = inode_at t" "file_at v = file_at t" "hole_at v = hole_at t" "g_uid v = g_uid t" "vol_inv v"
    using o(8) by (simp_all add: v(2) fun_eq_iff file_at_def hole_at_def)
  have "perm_can_read (inode_at v ino) (g_uid v)"
    using pr o(4,5) uid by (simp add: same perm_can_read_def)
  note ro = fs_read_ok [OF same(5) v(1) this rd]
  then obtain p where p: "n = int (p - off)" "out = map (file_at t ino) [off..<p]"
    "read_upto v (inode_at v ino) off (min (length buf) (file_size v ino - off)) p"
    by (auto simp: same)
  have m: "min (length buf) (file_size v ino - off) = length buf"
    using o(3) same(1) by (simp add: file_size_def)
  have "phys v (inode_at v ino) (q div BLOCK_SIZE) \<noteq> 0" if "off \<le> q" "q < off + length buf" for q
    using o(7) that by (simp add: hole_at_def v(2))
  then have "p = off + length buf" by (rule read_upto_full [OF p(3) [unfolded m]])
  with p o(6) have "n = int (length buf)" "out = buf" by (auto intro: nth_equalityI)
  with ro show ?thesis by (simp add: file_step_def)
qed

end
