(* ===== verification/Opening.thy ===== *)
theory Opening
  imports FileIO
begin

text \<open>
  What \<open>fs_open\<close> does: opening an existing file, with its permission check, and creating a new
  one, which takes an inode, writes it and enters it in the parent directory.
\<close>

section \<open>A new inode\<close>

definition blank :: "inode \<Rightarrow> bool" where
  "blank j \<longleftrightarrow> wf_inode j \<and> i_direct j = replicate NDIRECT 0 \<and> i_indirect1 j = 0"

lemma blank_owns: "blank j \<Longrightarrow> owned s j = [] \<and> own_ok s j"
  by (simp add: blank_def owned_def ptr_list_def own_ok_def)

lemma blank_byte: "blank j \<Longrightarrow> file_byte s j q = 0 \<and> phys s j bn = 0"
  by (simp add: blank_def file_byte_def phys_def ptr_list_def nth_append slot_of_def)

text \<open>
  Between \<open>alloc_inode\<close> and the first \<open>write_inode\<close> the table holds stale data for the new
  number; the invariant holds of the view that has the new inode in its place.
\<close>

lemma view_inv_new_inode:
  assumes inv: "view_inv s f" and a: "alloc_inode s = Some (r, t)" and r: "0 \<le> r" and j: "blank j"
  obtains n where "r = int n" "valid_ino n" "\<not> live s n" "view_inv t (f(n := j))" "live t = (live s)(n := True)"
    "blk_used t = blk_used s" "same_session s t" "tick t = tick s"
    "\<And>k. valid_ino k \<Longrightarrow> inode_at t k = inode_at s k"
    "\<And>b. BLK_IMAP < b \<Longrightarrow> b < TOTAL_BLOCKS \<Longrightarrow> blk t b = blk s b"
proof -
  note v = view_invD(1) [OF inv]
  obtain n where n: "r = int n" "1 \<le> n" "n \<le> MAX_INODES" "\<not> ino_used s n"
    "bit_step ino_used blk_used n True s t"
    using alloc_inode_total [OF v] a r by auto
  note b = bit_stepD [OF n(5)]
  have l: "live t = (live s)(n := True)" using n(2,3) b(2) by (auto simp: fun_eq_iff live_def)
  have ptr: "ptr_list t (f i) = ptr_list s (f i)" if "live s i" for i
  proof (rule ptr_list_cong)
    assume "i_indirect1 (f i) \<noteq> 0"
    from step_table_frame(1,2) [OF inv that this]
    show "blk t (unat (i_indirect1 (f i))) = blk s (unat (i_indirect1 (f i)))" by (intro b(7)) simp_all
  qed
  have o1: "owned t (f i) = owned s (f i)" if "live s i" for i by (rule owned_cong) (rule ptr [OF that])
  have o2: "own_ok t (f i)" if "live s i" for i
    using view_invD(4) [OF inv that] unfolding own_ok_def o1 [OF that] b(3) .
  have "view_inv t (f(n := j))"
    unfolding view_inv_def l
    using b(1) alloc_inode_counters [OF v view_invD(2) [OF inv] a] o1 o2 view_invD(6) [OF inv] blank_owns [OF j, of t]
    by (auto simp: live_def n(4))
  moreover have "inode_at t k = inode_at s k" if "valid_ino k" for k
    using inode_at_cong [OF that, of t s] b(7) by simp
  ultimately show thesis
    using n l b by (intro that [of n]) (auto simp: live_def)
qed

text \<open>
  The inode once it has been written: it is live and blank, and everything else is as it was. The
  clock may have been read between the two calls.
\<close>

definition born :: "fs \<Rightarrow> nat \<Rightarrow> inode \<Rightarrow> fs \<Rightarrow> bool" where
  "born s n i t \<longleftrightarrow> vol_inv t \<and> same_session s t \<and> valid_ino n \<and> \<not> live s n \<and> live t = (live s)(n := True) \<and> inode_at t n = i \<and>
     (\<forall>k. live s k \<longrightarrow> inode_at t k = inode_at s k \<and> file_at t k = file_at s k \<and> hole_at t k = hole_at s k) \<and>
     (\<forall>k. dir_wf s k \<longrightarrow> dir_wf t k \<and> dir_entries t k = dir_entries s k) \<and> blk_used t = blk_used s"

lemma born_ok:
  assumes inv: "vol_inv s" and a: "alloc_inode s = Some (r, s1)" and r: "0 \<le> r" and bi: "blank i"
  obtains t where "write_inode (nat r) i (s1\<lparr>tick := m\<rparr>) = (FS_OK, t)" "born s (nat r) i t"
    "same_session s s1" "tick s1 = tick s"
proof -
  have vs: "view_inv s (inode_at s)" using inv by (simp add: vol_inv_def)
  have bz: "blank zero_inode" by (simp add: blank_def) (simp add: zero_inode_def)
  obtain n where n: "r = int n" "valid_ino n" "\<not> live s n" "view_inv s1 ((inode_at s)(n := i))"
    "live s1 = (live s)(n := True)" "blk_used s1 = blk_used s" "same_session s s1" "tick s1 = tick s"
    "\<And>k. valid_ino k \<Longrightarrow> inode_at s1 k = inode_at s k"
    "\<And>b. BLK_IMAP < b \<Longrightarrow> b < TOTAL_BLOCKS \<Longrightarrow> blk s1 b = blk s b"
    by (rule view_inv_new_inode [OF vs a r bi]) blast
  let ?w = "s1\<lparr>tick := m\<rparr>"
  let ?t = "put_inode n i ?w"
  have w: "wf_inode i" using bi by (simp add: blank_def)
  have vw: "vol_ok ?w" using view_invD(1) [OF n(4)] by simp
  note p = put_inode_ok [OF vw n(2) w] put_inode_used [OF vw n(2) w] put_inode_data [OF vw n(2) w]
  have "view_inv ?w ((inode_at s1)(n := i))"
    unfolding view_inv_tick by (rule view_inv_cong [OF n(4)]) (use n(9) in \<open>auto dest: live_valid\<close>)
  then have v2: "vol_inv ?t" by (rule view_inv_put_inode [OF _ n(2) w]) simp
  have dt: "dev_ok ?t" using v2 by (simp add: vol_inv_def view_invD(3))
  have l: "live ?t = (live s)(n := True)" using p(6) n(5) by (auto simp: fun_eq_iff live_def)
  have old: "inode_at ?t k = inode_at s k" if "live s k" for k
    using p(4) [of k] n(9) [OF live_valid [OF that]] that n(3) live_valid [OF that] by auto
  have own_blk: "blk ?t b = blk s b" if "live s k" "b \<in> set (owned s (inode_at s k))" for k b
    using p n(10) [of b] view_invD(7) [OF vs that] by simp
  have ptr: "ptr_list ?t (inode_at s k) = ptr_list s (inode_at s k)" if "live s k" for k
    by (rule ptr_list_cong) (rule own_blk [OF that indirect_owned])
  have fb: "file_at ?t k = file_at s k" if "live s k" for k
    unfolding file_at_def old [OF that]
    using that by (intro file_byte_cong [OF ptr] view_invD(4) [OF vs] own_blk) auto
  have hb: "hole_at ?t k = hole_at s k" if "live s k" for k
    by (simp add: fun_eq_iff hole_at_def old [OF that] phys_cong [OF ptr [OF that]])
  have dirs: "dir_wf ?t k \<and> dir_entries ?t k = dir_entries s k" if "dir_wf s k" for k
  proof -
    have lk: "live s k" using that by (simp add: dir_wf_def)
    have "dir_wf ?t k" using that old [OF lk] n(5) l by (simp add: dir_wf_def)
    moreover have "dir_entries ?t k = dir_entries s k"
      by (rule dir_entries_cong [OF old [OF lk] that inv dt]) (rule own_blk [OF lk])
    ultimately show ?thesis by simp
  qed
  have ss: "same_session s ?t" using n(7) by (simp add: same_session_def)
  show thesis
  proof (rule that [of ?t])
    show "write_inode (nat r) i ?w = (FS_OK, ?t)" using put_inode_eq(1) [OF vw n(2), of i] n(1) by simp
    show "born s (nat r) i ?t"
      unfolding born_def using v2 ss n(1-3) l old fb hb dirs p(3,5) n(6) by simp
  qed (rule n(7,8))+
qed

lemma new_file_born:
  assumes inv: "vol_inv s" and a: "alloc_inode s = Some (r, s1)" and r: "0 \<le> r"
  obtains i t where "new_file (nat r) s1 = (FS_OK, t)" "born s (nat r) i t" "blank i" "i_mode i = MODE_FILE" "i_size i = 0"
    "i_indirect1 i = 0" "i_uid i = of_int (g_uid s)"
proof -
  let ?i = "zero_inode\<lparr>i_mode := MODE_FILE, i_links := 1, i_uid := of_int (g_uid s1), i_ctime := clock s1 (tick s1),
        i_mtime := clock s1 (Suc (tick s1)), i_atime := clock s1 (Suc (Suc (tick s1)))\<rparr>"
  have bi: "blank ?i" using wf_zero_inode by (simp add: blank_def wf_inode_def zero_inode_def)
  obtain t where t: "write_inode (nat r) ?i (s1\<lparr>tick := Suc (Suc (Suc (tick s1)))\<rparr>) = (FS_OK, t)" "born s (nat r) ?i t"
    "same_session s s1" "tick s1 = tick s"
    by (rule born_ok [OF inv a r bi]) blast
  show thesis
  proof (rule that [OF _ t(2) bi])
    show "new_file (nat r) s1 = (FS_OK, t)" using t(1) by (simp add: new_file_def ts_now_def)
    show "i_uid ?i = of_int (g_uid s)" using t(3) by (simp add: same_session_def)
  qed (simp_all add: zero_inode_def)
qed

section \<open>Creating a file\<close>

text \<open>
  \<open>create_file\<close>: without a free inode nothing changes; with a full directory the new inode
  stays behind without an entry; otherwise the directory has the new file at its end.
\<close>

definition created :: "fs \<Rightarrow> nat \<Rightarrow> nat \<Rightarrow> fs \<Rightarrow> bool" where
  "created s d n t \<longleftrightarrow> vol_inv t \<and> same_session s t \<and> \<not> live s n \<and> live t = (live s)(n := True) \<and>
     (\<forall>k. live s k \<and> k \<noteq> d \<longrightarrow> inode_at t k = inode_at s k \<and> file_at t k = file_at s k \<and> hole_at t k = hole_at s k) \<and>
     (\<forall>k. dir_wf s k \<and> k \<noteq> d \<longrightarrow> dir_wf t k \<and> dir_entries t k = dir_entries s k) \<and>
     i_mode (inode_at t n) = MODE_FILE \<and> i_uid (inode_at t n) = of_int (g_uid s) \<and>
     file_size t n = 0 \<and> (\<forall>q. file_at t n q = 0 \<and> hole_at t n q) \<and>
     nfree_blocks s \<le> Suc (nfree_blocks t) \<and> i_indirect1 (inode_at t n) = 0 \<and>
     n_slots (inode_at t d) \<le> Suc (n_slots (inode_at s d))"

lemma create_file_ok:
  assumes inv: "vol_inv s" and dw: "dir_wf s d" and c: "create_file d name s = Some (r, t)"
  shows "(r = FS_ENOSPC \<and> t = s \<and> (\<forall>k. valid_ino k \<longrightarrow> live s k)) \<or>
    (r = FS_ERR \<and> n_slots (inode_at s d) = 80 \<and> (\<exists>n. created s d n t) \<and> dir_entries t d = dir_entries s d) \<or>
    (\<exists>n. r = int n \<and> valid_ino n \<and> created s d n t \<and> dir_wf t d \<and>
       dir_entries t d = dir_entries s d @ [(take (NAME_MAX_LEN - 1) (cstr name), n)])"
proof -
  have vs: "view_inv s (inode_at s)" and ld: "live s d" using inv dw by (simp_all add: vol_inv_def dir_wf_def)
  note v = view_invD(1) [OF vs]
  obtain r1 s1 where a: "alloc_inode s = Some (r1, s1)"
    using c by (auto simp: create_file_def Option.bind_eq_Some_conv)
  show ?thesis
  proof (cases "0 \<le> r1")
    case False
    then show ?thesis using alloc_inode_total [OF v] a c by (auto simp: create_file_def live_def)
  next
    case True
    obtain i s2 where f: "new_file (nat r1) s1 = (FS_OK, s2)" "born s (nat r1) i s2" "blank i" "i_mode i = MODE_FILE"
      "i_size i = 0" "i_indirect1 i = 0" "i_uid i = of_int (g_uid s)"
      by (rule new_file_born [OF inv a True]) blast
    define n where "n = nat r1"
    have n: "r1 = int n" using True by (simp add: n_def)
    note nf = f(1) [folded n_def] and b = f(2) [folded n_def, unfolded born_def]
    have f2: "vol_inv s2" and l2: "live s2 = (live s)(n := True)" and nl: "\<not> live s n" and vn: "valid_ino n"
      and ss: "same_session s s2" and at: "inode_at s2 n = i"
      and old: "\<And>k. live s k \<Longrightarrow> inode_at s2 k = inode_at s k" and fb: "\<And>k. live s k \<Longrightarrow> file_at s2 k = file_at s k"
      and hb: "\<And>k. live s k \<Longrightarrow> hole_at s2 k = hole_at s k"
      and dirs: "\<And>k. dir_wf s k \<Longrightarrow> dir_wf s2 k \<and> dir_entries s2 k = dir_entries s k"
      and bu: "blk_used s2 = blk_used s"
      using b by blast+
    have dn: "d \<noteq> n" using ld nl by auto
    have fz: "file_size s2 n = 0" "\<forall>q. file_at s2 n q = 0 \<and> hole_at s2 n q"
      using blank_byte [OF f(3), of s2] f(5) unfolding file_size_def file_at_def hole_at_def at by simp_all
    have c2: "created s d n s2"
      unfolding created_def at using f2 ss nl l2 old fb hb dirs f(4-7) fz nfree_cong(1) [OF bu] ld by simp
    have dw2: "dir_wf s2 d" and e2: "dir_entries s2 d = dir_entries s d" using dirs [OF dw] by simp_all
    obtain rd s3 where ad: "dir_add d name FT_REG n s2 = Some (rd, s3)"
      and rt: "(r, t) = (if rd \<noteq> FS_OK then (FS_ERR, s3) else (int n, s3))"
      using c a nf n by (auto simp: create_file_def Option.bind_eq_Some_conv split: if_splits)
    show ?thesis
    proof (cases "n_slots (inode_at s2 d) = 80")
      case True
      with dir_add_80 [OF f2 dw2 True, of name FT_REG n] ad rt have "r = FS_ERR" "t = s2" by auto
      with True c2 e2 old [OF ld] show ?thesis by auto
    next
      case False
      then have lt: "n_slots (inode_at s2 d) < 80" using dw2 by (simp add: dir_wf_def)
      have n32: "0 < n" "n < 2 ^ 32" using vn by simp_all
      note da = dir_add_ok [OF f2 dw2 refl lt n32 ad]
      have t: "r = int n" "t = s3" using rt da(1) by auto
      have ln2: "live s2 n" using l2 by simp
      have ld2: "live s2 d" using dw2 by (simp add: dir_wf_def)
      note oc = only_changed_other [OF da(2) f2 _ _ ld2]
      have "created s d n s3"
        unfolding created_def
      proof (intro conjI allI impI)
        show "vol_inv s3" "same_session s s3" "live s3 = (live s)(n := True)"
          using only_changedD [OF da(2)] ss l2 by (auto intro: same_session_trans)
        show "\<not> live s n" by (rule nl)
        fix k
        assume k: "live s k \<and> k \<noteq> d"
        then have "live s2 k" "k \<noteq> d" using l2 by auto
        with oc [of k] k old fb hb
        show "inode_at s3 k = inode_at s k" "file_at s3 k = file_at s k" "hole_at s3 k = hole_at s k"
          by (auto simp: file_at_def hole_at_def fun_eq_iff)
      next
        fix k
        assume k: "dir_wf s k \<and> k \<noteq> d"
        with dirs [of k] have "dir_wf s2 k" "k \<noteq> d" by simp_all
        from only_changed_dir [OF da(2) f2 this ld2] dirs [of k] k
        show "dir_wf s3 k" "dir_entries s3 k = dir_entries s k" by simp_all
      next
        show "n_slots (inode_at s3 d) \<le> Suc (n_slots (inode_at s d))" using da(5) old [OF ld] by simp
        show "nfree_blocks s \<le> Suc (nfree_blocks s3)"
          using da(6) nfree_cong(1) [OF bu] by (simp add: of_bool_def split: if_splits)
      qed (use oc [OF ln2 dn [symmetric]] c2 in \<open>auto simp: created_def file_size_def file_at_def hole_at_def\<close>)
      with t vn da(3,4) e2 show ?thesis by auto
    qed
  qed
qed

section \<open>Opening\<close>

text \<open>The first unused descriptor is taken.\<close>

lemma open_fd_ok:
  assumes l: "length (g_ofile s) = MAX_OPEN" and ino: "live s ino" and o: "open_fd ino w s = (r, t)"
  shows "r = FS_ERR \<and> t = s \<and> (\<forall>f \<in> set (g_ofile s). of_used f) \<or>
    fd_open t r ino 0 w \<and> fd_bad r s \<and>
    t = fd_set (nat r) (\<lambda>_. \<lparr>of_used = True, of_ino = of_nat ino, of_offset = 0, of_writable = w\<rparr>) s"
proof (cases "List.find (\<lambda>fd. \<not> of_used (g_ofile s ! fd)) [0..<MAX_OPEN]")
  case None
  then have "\<forall>f \<in> set (g_ofile s). of_used f" using l by (auto simp: find_None_iff in_set_conv_nth)
  with None o show ?thesis by (simp add: open_fd_def)
next
  case (Some fd)
  then have fd: "fd < MAX_OPEN" "\<not> of_used (g_ofile s ! fd)" by (auto simp: find_Some_iff)
  have rt: "r = int fd" "t = fd_set fd (\<lambda>_. \<lparr>of_used = True, of_ino = of_nat ino, of_offset = 0, of_writable = w\<rparr>) s"
    using o Some by (auto simp: open_fd_def)
  have "fd_open t r ino 0 w" unfolding rt using fd l ino by (simp add: fd_open_def fd_set_def)
  moreover have "fd_bad r s" using fd rt(1) by (simp add: fd_bad_def)
  ultimately show ?thesis using rt by simp
qed

text \<open>
  An existing file: the mode's permission decides, and the descriptor starts at offset 0.
\<close>

lemma fs_open_existing:
  assumes inv: "vol_inv s" and l: "length (g_ofile s) = MAX_OPEN" and n: "namei path s = Inr ino" and ino: "live s ino"
    and o: "fs_open path mode s = Some (r, t)"
  shows "(let w = 119 \<in> set mode; i = inode_at s ino in
    if \<not> (if w then perm_can_write i (g_uid s) else perm_can_read i (g_uid s)) then r = FS_EPERM \<and> t = s
    else r = FS_ERR \<and> t = s \<and> (\<forall>f \<in> set (g_ofile s). of_used f) \<or>
      fd_open t r ino 0 w \<and> fd_bad r s \<and> file_step s ino t \<and> inode_at t ino = i \<and> file_at t ino = file_at s ino)"
proof -
  have "read_inode ino s = Some (inode_at s ino)"
    using inv live_valid [OF ino] by (simp add: vol_inv_def view_invD(1) read_inode_ok)
  with o n have e: "(if 119 \<in> set mode then perm_can_write (inode_at s ino) (g_uid s) else perm_can_read (inode_at s ino) (g_uid s)) \<and>
      open_fd ino (119 \<in> set mode) s = (r, t) \<or>
    \<not> (if 119 \<in> set mode then perm_can_write (inode_at s ino) (g_uid s) else perm_can_read (inode_at s ino) (g_uid s)) \<and>
      r = FS_EPERM \<and> t = s"
    by (auto simp: fs_open_def Let_def split: if_splits)
  have fr: "file_step s ino s" using inv by (simp add: file_step_def)
  have fs: "file_step s ino (fd_set k g s)" for k g
    using inv by (simp add: file_step_def file_at_def)
  show ?thesis
    using e open_fd_ok [OF l ino, of "119 \<in> set mode" r t] fs
    by (auto simp: Let_def file_at_def)
qed

text \<open>A new file, when the path has none and the mode is for writing.\<close>

lemma fs_open_new:
  assumes inv: "vol_inv s" and l: "length (g_ofile s) = MAX_OPEN" and n: "namei path s = Inl e" and m: "119 \<in> set mode"
    and tgt: "open_target path s = Some (d, name)" and dw: "dir_wf s d" and o: "fs_open path mode s = Some (r, t)"
  shows "(r < 0 \<and> (t = s \<or> (\<exists>n. created s d n t)) \<and> ((\<forall>k. valid_ino k \<longrightarrow> live s k) \<or>
       n_slots (inode_at s d) = 80 \<or> (\<forall>f \<in> set (g_ofile s). of_used f))) \<or>
    (\<exists>n u. fd_open t r n 0 True \<and> created s d n u \<and> dir_wf u d \<and>
       t = fd_set (nat r) (\<lambda>_. \<lparr>of_used = True, of_ino = of_nat n, of_offset = 0, of_writable = True\<rparr>) u \<and>
       dir_entries u d = dir_entries s d @ [(take (NAME_MAX_LEN - 1) (cstr name), n)])"
proof -
  obtain q u where c: "create_file d name s = Some (q, u)"
    using o n m tgt by (auto simp: fs_open_def Option.bind_eq_Some_conv)
  then have rt: "(r, t) = (if q < 0 then (q, u) else open_fd (nat q) True u)"
    using o n m tgt by (auto simp: fs_open_def)
  from create_file_ok [OF inv dw c] consider "q < 0" "u = s \<or> (\<exists>n. created s d n u)"
      "(\<forall>k. valid_ino k \<longrightarrow> live s k) \<or> n_slots (inode_at s d) = 80"
    | k where "q = int k" "created s d k u" "dir_wf u d"
      "dir_entries u d = dir_entries s d @ [(take (NAME_MAX_LEN - 1) (cstr name), k)]"
    by fastforce
  then show ?thesis
  proof cases
    case 1
    with rt show ?thesis by auto
  next
    case (2 k)
    have "length (g_ofile u) = MAX_OPEN" "live u k" using 2(2) l by (simp_all add: created_def same_session_def)
    moreover have "open_fd k True u = (r, t)" using rt 2(1) by simp
    ultimately have "r = FS_ERR \<and> t = u \<and> (\<forall>f \<in> set (g_ofile u). of_used f) \<or> fd_open t r k 0 True \<and>
      t = fd_set (nat r) (\<lambda>_. \<lparr>of_used = True, of_ino = of_nat k, of_offset = 0, of_writable = True\<rparr>) u"
      using open_fd_ok by blast
    moreover have "g_ofile u = g_ofile s" using 2(2) by (simp add: created_def same_session_def)
    ultimately show ?thesis using 2 by auto
  qed
qed

text \<open>With a free block the outcome is determined.\<close>

lemma create_file_total:
  assumes inv: "vol_inv s" and dw: "dir_wf s d" and n: "0 < nfree_blocks s"
  shows "\<exists>r t. create_file d name s = Some (r, t)"
proof -
  have vs: "view_inv s (inode_at s)" and ld: "live s d" using inv dw by (simp_all add: vol_inv_def dir_wf_def)
  note v = view_invD(1) [OF vs]
  obtain r1 s1 where a: "alloc_inode s = Some (r1, s1)" using alloc_inode_total [OF v] by blast
  show ?thesis
  proof (cases "0 \<le> r1")
    case False
    then show ?thesis using a by (simp add: create_file_def)
  next
    case True
    obtain i s2 where f: "new_file (nat r1) s1 = (FS_OK, s2)" "born s (nat r1) i s2"
      by (rule new_file_born [OF inv a True]) blast
    have b: "vol_inv s2" "dir_wf s2 d" "blk_used s2 = blk_used s" using f(2) dw by (auto simp: born_def)
    have "0 < nfree_blocks s2" using n nfree_cong(1) [OF b(3)] by simp
    then have "\<exists>b. BLK_DATA_START \<le> b \<and> b < 4096 \<and> \<not> blk_used s2 b"
      by (auto simp: nfree_blocks_def n_free_def card_gt_0_iff)
    then obtain r3 s3 where "dir_add d name FT_REG (nat r1) s2 = Some (r3, s3)"
      using dir_add_total [OF b(1,2)] by blast
    with a f(1) True show ?thesis by (auto simp: create_file_def)
  qed
qed

section \<open>Paths\<close>

text \<open>
  Path resolution against a reference: the path is split at its slashes, empty segments are
  dropped, long ones cut to 55 bytes, and each is looked up in the directory found so far.
\<close>

fun split_on :: "'a \<Rightarrow> 'a list \<Rightarrow> 'a list list" where
  "split_on c [] = [[]]"
| "split_on c (x # xs) =
     (if x = c then [] # split_on c xs else (x # hd (split_on c xs)) # tl (split_on c xs))"

definition segments :: "bytes \<Rightarrow> bytes list" where
  "segments p = map (take (NAME_MAX_LEN - 1)) (filter (\<lambda>w. w \<noteq> []) (split_on 47 p))"

fun walk :: "fs \<Rightarrow> nat \<Rightarrow> bytes list \<Rightarrow> int + nat" where
  "walk s cur [] = Inr cur"
| "walk s cur (w # ws) = (case dir_lookup cur w s of Inl e \<Rightarrow> Inl e | Inr x \<Rightarrow> walk s x ws)"

lemma split_on_rest:
  "split_on c p = takeWhile (\<lambda>x. x \<noteq> c) p #
     (if c \<in> set p then split_on c (drop 1 (dropWhile (\<lambda>x. x \<noteq> c) p)) else [])"
  by (induction p) auto

lemma segments_rest:
  "p \<noteq> [] \<Longrightarrow> segments p =
     (let w = take (NAME_MAX_LEN - 1) (takeWhile (\<lambda>x. x \<noteq> 47) p); rest = drop 1 (dropWhile (\<lambda>x. x \<noteq> 47) p) in
      if w = [] then segments rest else w # segments rest)"
proof -
  assume p: "p \<noteq> []"
  have z: "split_on (47 :: u8) [] = [[]]" by simp
  show ?thesis
  proof (cases "47 \<in> set p")
    case True
    then show ?thesis by (simp add: segments_def split_on_rest [of 47 p] Let_def)
  next
    case False
    then have "takeWhile (\<lambda>x. x \<noteq> 47) p = p" "dropWhile (\<lambda>x. x \<noteq> 47) p = []"
      by (auto simp: takeWhile_eq_all_conv dropWhile_eq_Nil_conv)
    with False p show ?thesis
      by (simp add: segments_def split_on_rest [of 47 p] Let_def del: dropWhile_eq_Nil_conv takeWhile_eq_all_conv)
  qed
qed

lemma namei_loop_walk: "namei_loop p cur s = walk s cur (segments p)"
proof (induction p cur s rule: namei_loop.induct)
  case (1 p cur s)
  show ?case
  proof (cases "p = []")
    case True
    then show ?thesis by (simp add: namei_loop.simps [of "[]"] segments_def)
  next
    case False
    with 1 segments_rest [OF False] show ?thesis
      by (simp add: namei_loop.simps [of p] Let_def split: sum.split)
  qed
qed

end
