(* ===== verification/Cstdlib.thy ===== *)
theory Cstdlib
  imports Prelude
begin

text \<open>
  What the programs use of the C library to read and print numbers and lines: \<open>atoi\<close>, \<open>puts\<close> and
  the padded conversions of \<open>printf\<close>, with the facts that printed numbers are read back.
\<close>

section \<open>Decimal numbers\<close>

text \<open>
  \<open>atoi\<close>: white space, a sign, digits. As \<open>(int) strtol(s, NULL, 10)\<close> does, the value saturates
  at the bounds of a 64-bit \<open>long\<close> and is cut to 32 bits.
\<close>

definition is_digit :: "u8 \<Rightarrow> bool" where
  "is_digit c \<longleftrightarrow> 48 \<le> c \<and> c \<le> 57"

definition is_space :: "u8 \<Rightarrow> bool" where
  "is_space c \<longleftrightarrow> c = 32 \<or> 9 \<le> c \<and> c \<le> 13"

fun digits_val :: "nat \<Rightarrow> bytes \<Rightarrow> nat" where
  "digits_val acc [] = acc"
| "digits_val acc (c # cs) = (if is_digit c then digits_val (10 * acc + unat (c - 48)) cs else acc)"

definition atoi :: "bytes \<Rightarrow> int" where
  "atoi s =
     (let t = dropWhile is_space s;
          v = (if t \<noteq> [] \<and> hd t = 45 then - int (digits_val 0 (tl t))
               else if t \<noteq> [] \<and> hd t = 43 then int (digits_val 0 (tl t)) else int (digits_val 0 t)) in
      sint (of_int (max (- (2 ^ 63)) (min (2 ^ 63 - 1) v)) :: 32 word))"

section \<open>Lines and padding\<close>

definition puts :: "bytes \<Rightarrow> bytes" where
  "puts x = x @ [10]"

text \<open>The conversions \<open>%-nd\<close> and \<open>%-ns\<close>, and \<open>%0nd\<close> of a natural number.\<close>

definition pad_right :: "nat \<Rightarrow> bytes \<Rightarrow> bytes" where
  "pad_right n x = x @ replicate (n - length x) 32"

definition pad_zero :: "nat \<Rightarrow> nat \<Rightarrow> bytes" where
  "pad_zero n k = replicate (n - length (fmt_u k)) 48 @ fmt_u k"

section \<open>A printed number is read back\<close>

lemma digit_of_nat: "n < 10 \<Longrightarrow> is_digit (of_nat (48 + n) :: u8) \<and> unat ((of_nat (48 + n) :: u8) - 48) = n"
proof -
  assume n: "n < 10"
  have "(of_nat (48 + n) :: u8) - 48 = of_nat n" by simp
  moreover have "unat (of_nat n :: u8) = n" "unat (of_nat (48 + n) :: u8) = 48 + n" using n by (simp_all only: unat_of_nat) simp_all
  ultimately show ?thesis using n by (simp add: is_digit_def word_le_nat_alt)
qed

lemma fmt_u_digits: "\<forall>c \<in> set (fmt_u n). is_digit c" and fmt_u_Cons: "fmt_u n \<noteq> []"
proof -
  show "\<forall>c \<in> set (fmt_u n). is_digit c"
  proof (induction n rule: fmt_u.induct)
    case (1 n)
    then show ?case using digit_of_nat [of n] digit_of_nat [of "n mod 10"] by (auto simp: fmt_u.simps [of n])
  qed
  show "fmt_u n \<noteq> []" by (simp add: fmt_u.simps [of n])
qed

lemma digits_val_append:
  "\<forall>c \<in> set xs. is_digit c \<Longrightarrow> digits_val acc (xs @ ys) = digits_val (digits_val acc xs) ys"
  by (induction xs arbitrary: acc) auto

lemma digits_val_fmt_u: "digits_val 0 (fmt_u n) = n"
proof (induction n rule: fmt_u.induct)
  case (1 n)
  show ?case
  proof (cases "n < 10")
    case True
    then show ?thesis using digit_of_nat [of n] by (simp add: fmt_u.simps [of n])
  next
    case False
    then have "digits_val 0 (fmt_u n) = digits_val (n div 10) [of_nat (48 + n mod 10)]"
      using 1 digits_val_append [OF fmt_u_digits] by (subst fmt_u.simps) simp
    also have "\<dots> = 10 * (n div 10) + n mod 10" using digit_of_nat [of "n mod 10"] by simp
    finally show ?thesis by simp
  qed
qed

lemma length_fmt_u: "n < 10 ^ Suc k \<Longrightarrow> length (fmt_u n) \<le> Suc k"
proof (induction n arbitrary: k rule: fmt_u.induct)
  case (1 n)
  show ?case
  proof (cases "n < 10")
    case True
    then show ?thesis by (simp add: fmt_u.simps [of n])
  next
    case False
    with "1.prems" obtain m where m: "k = Suc m" by (cases k) auto
    with "1.prems" have "n div 10 < 10 ^ Suc m" by (simp add: div_less_iff_less_mult)
    with "1.IH" [OF False] m show ?thesis by (simp add: fmt_u.simps [of n])
  qed
qed

lemma digit_props: "is_digit c \<Longrightarrow> \<not> is_space c \<and> c \<noteq> 45 \<and> c \<noteq> 43 \<and> c \<noteq> 10 \<and> c \<noteq> 58 \<and> c \<noteq> 0"
  by (auto simp: is_digit_def is_space_def word_le_nat_alt)

lemma sint_of_int32: "- (2 ^ 31) \<le> i \<Longrightarrow> i < 2 ^ 31 \<Longrightarrow> sint (of_int i :: 32 word) = i"
  by (simp add: sint_sbintrunc' signed_take_bit_int_eq_self)

lemma atoi_fmt_d:
  assumes "- (2 ^ 31) \<le> i" and "i < 2 ^ 31"
  shows "atoi (fmt_d i) = i"
proof (cases "i < 0")
  case True
  have "\<not> is_space 45" by (simp add: is_space_def word_le_nat_alt)
  with True assms show ?thesis
    by (simp add: atoi_def fmt_d_def Let_def digits_val_fmt_u) (use sint_of_int32 [OF assms] in simp)
next
  case False
  obtain c cs where c: "fmt_u (nat i) = c # cs" using fmt_u_Cons [of "nat i"] by (cases "fmt_u (nat i)") auto
  then have "is_digit c" using fmt_u_digits [of "nat i"] by simp
  note p = digit_props [OF this]
  have v: "digits_val 0 (c # cs) = nat i" using digits_val_fmt_u [of "nat i"] c by simp
  have "atoi (fmt_d i) = sint (of_int (max (- (2 ^ 63)) (min (2 ^ 63 - 1) (int (digits_val 0 (c # cs))))) :: 32 word)"
    using False c p by (simp add: atoi_def fmt_d_def Let_def del: digits_val.simps)
  moreover have "max (- (2 ^ 63)) (min (2 ^ 63 - 1) (int (nat i))) = i" using assms False by simp
  ultimately show ?thesis using sint_of_int32 [OF assms] unfolding v by simp
qed

lemma digits_val_stop: "\<not> is_digit c \<Longrightarrow> digits_val a (fmt_u n @ c # s) = digits_val a (fmt_u n)"
  using digits_val_append [OF fmt_u_digits, of a n "c # s"] digits_val_append [OF fmt_u_digits, of a n "[]"] by simp

lemma atoi_stop: "\<not> is_digit c \<Longrightarrow> atoi (fmt_d i @ c # s) = atoi (fmt_d i)"
proof (cases "i < 0")
  case True
  assume "\<not> is_digit c"
  moreover have "\<not> is_space 45" by (simp add: is_space_def word_le_nat_alt)
  ultimately show ?thesis using True by (simp add: atoi_def fmt_d_def Let_def digits_val_stop)
next
  case False
  assume c: "\<not> is_digit c"
  obtain d ds where d: "fmt_u (nat i) = d # ds" using fmt_u_Cons [of "nat i"] by (cases "fmt_u (nat i)") auto
  then have "is_digit d" using fmt_u_digits [of "nat i"] by simp
  note p = digit_props [OF this]
  have "digits_val 0 (d # ds @ c # s) = digits_val 0 (d # ds)" using digits_val_stop [OF c, of 0 "nat i" s] d by simp
  with False d p show ?thesis by (simp add: atoi_def fmt_d_def Let_def del: digits_val.simps)
qed

end
