(* ===== verification/Security.thy ===== *)
theory Security
  imports Opening Cstdlib
begin

text \<open>
  \<open>project3/src/security.c\<close>: the table of users in \<open>/.users\<close>, one line \<open>name:pass:uid\<close> each,
  and the saved session in \<open>/.session\<close>. A failing \<open>realloc\<close> is not modelled. The whole-file
  buffer is not terminated by the code: \<open>junk\<close> stands for the uninitialised bytes that follow the
  file's contents in it. They are scanned like the contents, up to the first zero byte; without a
  zero among them a scan that is not over before leaves the buffer (\<open>None\<close>).
\<close>

section \<open>Lines of the user table\<close>

text \<open>\<open>strchr\<close>: what precedes the first occurrence of a byte and what follows it.\<close>

definition split_first :: "u8 \<Rightarrow> bytes \<Rightarrow> (bytes \<times> bytes) option" where
  "split_first c s =
     (if c \<in> set s then Some (takeWhile (\<lambda>x. x \<noteq> c) s, tl (dropWhile (\<lambda>x. x \<noteq> c) s)) else None)"

text \<open>58 is the colon, 10 the newline.\<close>

definition parse_line :: "bytes \<Rightarrow> (bytes \<times> bytes \<times> int) option" where
  "parse_line line = do {
     (name, r1) \<leftarrow> split_first 58 line;
     (pass, r2) \<leftarrow> split_first 58 r1;
     let u = takeWhile (\<lambda>c. c \<noteq> 10) r2 in
     if length name \<ge> MAX_USER_LEN \<or> length pass \<ge> MAX_USER_LEN \<or> length u \<ge> 16 then None
     else Some (name, pass, atoi u) }"

definition fmt_line :: "bytes \<Rightarrow> bytes \<Rightarrow> int \<Rightarrow> bytes" where
  "fmt_line name pass uid = name @ [58] @ pass @ [58] @ fmt_d uid @ [10]"

text \<open>
  The loop over the lines of a string: each line is cut to 255 bytes and parsed; the loop ends
  at the end of the string.
\<close>

function user_lines :: "bytes \<Rightarrow> (bytes \<times> bytes \<times> int) list" where
  "user_lines s =
     (if s = [] then []
      else
        let line = take 255 (takeWhile (\<lambda>c. c \<noteq> 10) s);
            rest = (case split_first 10 s of None \<Rightarrow> [] | Some (_, r) \<Rightarrow> user_lines r) in
        (case parse_line line of None \<Rightarrow> rest | Some e \<Rightarrow> e # rest))"
  by pat_completeness auto
termination
proof (relation "measure length", goal_cases)
  case 1
  then show ?case by simp
next
  case (2 s line x2 a b)
  then have m: "10 \<in> set s" and b: "b = tl (dropWhile (\<lambda>c. c \<noteq> 10) s)"
    by (auto simp: split_first_def split: if_splits)
  from m have "dropWhile (\<lambda>c. c \<noteq> 10) s \<noteq> []" by auto
  moreover have "length (dropWhile (\<lambda>c. c \<noteq> 10) s) \<le> length s" by (rule length_dropWhile_le)
  ultimately show ?case unfolding b by (cases "dropWhile (\<lambda>c. c \<noteq> 10) s") auto
qed

declare user_lines.simps [simp del]

section \<open>Whole files\<close>

text \<open>
  The reading loop, with the capacity of the buffer; \<open>None\<close> is a read past it or a loop that
  does not end.
\<close>

partial_function (option) read_all :: "int \<Rightarrow> nat \<Rightarrow> bytes \<Rightarrow> fs \<Rightarrow> (int \<times> bytes \<times> nat \<times> fs) option" where
  "read_all fd cap acc s =
     (let cap1 = (if cap - length acc < 4096 then (if cap = 0 then 4096 else cap * 2) else cap) in
      case fs_read fd 4096 s of
        (r, out, s1) \<Rightarrow>
          if cap1 < length acc + length out then None
          else if r < 0 then Some (r, [], cap1, s1)
          else if r = 0 then Some (FS_OK, acc, cap1, s1)
          else read_all fd cap1 (acc @ out) s1)"

definition read_whole_file :: "bytes \<Rightarrow> fs \<Rightarrow> ((int + bytes) \<times> fs) option" where
  "read_whole_file path s = do {
     (fd, s1) \<leftarrow> fs_open path (bytes_of ''r'') s;
     if fd < 0 then Some (Inl fd, s1)
     else do {
       (r, buf, _, s2) \<leftarrow> read_all fd 0 [] s1;
       Some (if r < 0 then Inl r else Inr buf, snd (fs_close fd s2)) } }"

text \<open>
  What the loop over the lines meets in a buffer, and whether it ends at a zero byte. Without one it
  meets the lines that a newline ends and leaves the buffer in search of the next newline.
\<close>

definition full_lines :: "bytes \<Rightarrow> bytes" where
  "full_lines s = rev (dropWhile (\<lambda>c. c \<noteq> 10) (rev s))"

definition c_lines :: "bytes \<Rightarrow> (bytes \<times> bytes \<times> int) list \<times> bool" where
  "c_lines buf = (if 0 \<in> set buf then (user_lines (cstr buf), True) else (user_lines (full_lines buf), False))"

definition append_line :: "bytes \<Rightarrow> bytes \<Rightarrow> fs \<Rightarrow> (int \<times> fs) option" where
  "append_line path line s = do {
     (fd, s1) \<leftarrow> fs_open path (bytes_of ''w'') s;
     if fd < 0 then Some (fd, s1)
     else case read_inode (unat (of_ino (g_ofile s1 ! nat fd))) s1 of
            None \<Rightarrow> Some (FS_ERR, snd (fs_close fd s1))
          | Some i \<Rightarrow> do {
              (n, s2) \<leftarrow> fs_write fd line (snd (fs_seek fd (i_size i) s1));
              Some (if n < 0 then n else FS_OK, snd (fs_close fd s2)) } }"

text \<open>
  The truncation of \<open>session_save\<close> and \<open>users_change_password\<close>: only the size is set to 0; a
  failed read of the inode is passed over, a failed write is not.
\<close>

definition zero_size :: "nat \<Rightarrow> fs \<Rightarrow> int \<times> fs" where
  "zero_size ino s =
     (case read_inode ino s of
        None \<Rightarrow> (FS_OK, s)
      | Some i \<Rightarrow> write_inode ino (i\<lparr>i_size := 0\<rparr>) s)"

section \<open>Sessions\<close>

abbreviation (input) "SESSION_PATH \<equiv> bytes_of ''/.session''"
abbreviation (input) "USERS_PATH \<equiv> bytes_of ''/.users''"

definition session_text :: "int \<Rightarrow> bytes \<Rightarrow> bytes" where
  "session_text uid user = bytes_of ''uid:'' @ fmt_d uid @ [10] @ bytes_of ''user:'' @ user @ [10]"

definition session_save :: "int \<Rightarrow> bytes \<Rightarrow> fs \<Rightarrow> (int \<times> fs) option" where
  "session_save uid user s = do {
     (fd, s1) \<leftarrow> fs_open SESSION_PATH (bytes_of ''w'') s;
     if fd < 0 then Some (fd, s1)
     else let (rc, s2) = zero_size (unat (of_ino (g_ofile s1 ! nat fd))) s1 in
          if rc \<noteq> FS_OK then Some (FS_ERR, snd (fs_close fd s2))
          else do {
            (w, s3) \<leftarrow> fs_write fd (session_text uid user) (snd (fs_seek fd 0 s2));
            Some (if w < 0 then w else FS_OK, snd (fs_close fd s3)) } }"

text \<open>\<open>strstr\<close>: the suffix that follows the first occurrence of \<open>pat\<close>.\<close>

fun after_str :: "bytes \<Rightarrow> bytes \<Rightarrow> bytes option" where
  "after_str pat s =
     (if take (length pat) s = pat then Some (drop (length pat) s)
      else case s of [] \<Rightarrow> None | _ # t \<Rightarrow> after_str pat t)"

declare after_str.simps [simp del]

definition session_parse :: "bytes \<Rightarrow> (int \<times> bytes) option" where
  "session_parse buf =
     (let uid = (case after_str (bytes_of ''uid:'') buf of Some r \<Rightarrow> atoi r | None \<Rightarrow> 0);
          user = (case after_str (bytes_of ''user:'') buf of
                    Some r \<Rightarrow> take (MAX_USER_LEN - 1) (takeWhile (\<lambda>c. c \<noteq> 10) r) | None \<Rightarrow> []) in
      if user = [] then None else Some (uid, user))"

definition session_load :: "fs \<Rightarrow> (int \<times> fs) option" where
  "session_load s =
     (case namei SESSION_PATH s of
        Inl _ \<Rightarrow> Some (FS_ERR, s)
      | Inr _ \<Rightarrow> do {
          (fd, s1) \<leftarrow> fs_open SESSION_PATH (bytes_of ''r'') s;
          if fd < 0 then Some (fd, s1)
          else let (r, out, s2) = fs_read fd 127 s1; s3 = snd (fs_close fd s2) in
               if r \<le> 0 then Some (FS_ERR, s3)
               else case session_parse (cstr out) of
                      None \<Rightarrow> Some (FS_ERR, s3)
                    | Some (uid, user) \<Rightarrow> Some (FS_OK, s3\<lparr>g_uid := uid, g_user := user\<rparr>) })"

section \<open>Users\<close>

definition users_bootstrap :: "fs \<Rightarrow> (int \<times> fs) option" where
  "users_bootstrap s =
     (case namei USERS_PATH s of
        Inr _ \<Rightarrow> Some (FS_OK, s)
      | Inl _ \<Rightarrow> do {
          (fd, s1) \<leftarrow> fs_open USERS_PATH (bytes_of ''w'') s;
          if fd < 0 then Some (fd, s1)
          else do {
            (n, s2) \<leftarrow> fs_write fd (fmt_line (bytes_of ''root'') (bytes_of ''root'') 0) s1;
            Some (if n < 0 then n else FS_OK, snd (fs_close fd s2)) } })"

definition users_login :: "bytes \<Rightarrow> bytes \<Rightarrow> bytes \<Rightarrow> fs \<Rightarrow> (int \<times> fs) option" where
  "users_login junk name pass s = do {
     (r, s1) \<leftarrow> read_whole_file USERS_PATH s;
     case r of
       Inl _ \<Rightarrow> Some (FS_ERR, s1)
     | Inr buf \<Rightarrow>
         let (es, ends) = c_lines (buf @ junk) in
         case List.find (\<lambda>(u, p, _). u = name \<and> p = pass) es of
           None \<Rightarrow> if ends then Some (FS_ERR, s1) else None
         | Some (_, _, uid) \<Rightarrow> do {
             let user = take (MAX_USER_LEN - 1) name;
             (_, s2) \<leftarrow> session_save uid user (s1\<lparr>g_uid := uid, g_user := user\<rparr>);
             Some (FS_OK, s2) } }"

text \<open>The largest uid; \<open>max_uid + 1\<close> is undefined when it is the largest \<open>int\<close>.\<close>

definition max_uid :: "(bytes \<times> bytes \<times> int) list \<Rightarrow> int" where
  "max_uid es = fold (\<lambda>(_, _, u) a. max u a) es 0"

definition users_add :: "bytes \<Rightarrow> bytes \<Rightarrow> bytes \<Rightarrow> fs \<Rightarrow> (int \<times> fs) option" where
  "users_add junk name pass s =
     (if g_uid s \<noteq> 0 then Some (FS_EPERM, s)
      else do {
        (r, s1) \<leftarrow> read_whole_file USERS_PATH s;
        case r of
          Inl _ \<Rightarrow> Some (FS_ERR, s1)
        | Inr buf \<Rightarrow>
            let (es, ends) = c_lines (buf @ junk) in
            if \<exists>e \<in> set es. fst e = name then Some (FS_EEXIST, s1)
            else if \<not> ends \<or> max_uid es = 2 ^ 31 - 1 then None
            else append_line USERS_PATH (take 255 (fmt_line name pass (max_uid es + 1))) s1 })"

text \<open>The rewriting loop of \<open>users_change_password\<close>; the results of its writes are ignored.\<close>

fun rewrite_users :: "int \<Rightarrow> bytes \<Rightarrow> bytes \<Rightarrow> (bytes \<times> bytes \<times> int) list \<Rightarrow> fs \<Rightarrow> fs option" where
  "rewrite_users fd name pass [] s = Some s"
| "rewrite_users fd name pass ((u, p, i) # es) s = do {
     (_, s1) \<leftarrow> fs_write fd (take 255 (fmt_line u (if u = name then pass else p) i)) s;
     rewrite_users fd name pass es s1 }"

definition users_change_password :: "bytes \<Rightarrow> bytes \<Rightarrow> bytes \<Rightarrow> fs \<Rightarrow> (int \<times> fs) option" where
  "users_change_password junk name pass s =
     (if \<not> (g_uid s = 0 \<or> g_user s = name) then Some (FS_EPERM, s)
      else do {
        (r, s1) \<leftarrow> read_whole_file USERS_PATH s;
        case r of
          Inl _ \<Rightarrow> Some (FS_ERR, s1)
        | Inr buf \<Rightarrow> do {
            (fd, s2) \<leftarrow> fs_open USERS_PATH (bytes_of ''w'') s1;
            if fd < 0 then Some (fd, s2)
            else let (rc, s3) = zero_size (unat (of_ino (g_ofile s2 ! nat fd))) s2 in
                 if rc \<noteq> FS_OK then Some (FS_ERR, snd (fs_close fd s3))
                 else let (es, ends) = c_lines (buf @ junk) in do {
                   s4 \<leftarrow> rewrite_users fd name pass es (snd (fs_seek fd 0 s3));
                   if ends then Some (FS_OK, snd (fs_close fd s4)) else None } } })"

section \<open>Printing and parsing\<close>

text \<open>An entry that the parser can hold: no separators, at most 15 bytes.\<close>

definition wf_user :: "bytes \<times> bytes \<times> int \<Rightarrow> bool" where
  "wf_user e = (case e of (n, p, u) \<Rightarrow> length n < MAX_USER_LEN \<and> length p < MAX_USER_LEN \<and>
     0 \<notin> set n \<and> 10 \<notin> set n \<and> 58 \<notin> set n \<and> 0 \<notin> set p \<and> 10 \<notin> set p \<and> 58 \<notin> set p \<and>
     - (2 ^ 31) \<le> u \<and> u < 2 ^ 31)"

lemma split_first_app: "c \<notin> set a \<Longrightarrow> split_first c (a @ c # b) = Some (a, b)"
  by (simp add: split_first_def takeWhile_append2 dropWhile_append2) (auto simp: takeWhile_tail dropWhile_append)

lemma length_fmt_d: "- (2 ^ 31) \<le> i \<Longrightarrow> i < 2 ^ 31 \<Longrightarrow> length (fmt_d i) < 12"
  using length_fmt_u [of "nat i" 9] length_fmt_u [of "nat (- i)" 9] by (auto simp: fmt_d_def nat_less_iff)

lemma fmt_d_chars: "c \<in> set (fmt_d i) \<Longrightarrow> c \<noteq> 10 \<and> c \<noteq> 58 \<and> c \<noteq> 0"
  using fmt_u_digits [of "nat i"] fmt_u_digits [of "nat (- i)"] digit_props by (auto simp: fmt_d_def split: if_splits)

lemma parse_fmt_line:
  assumes "wf_user (n, p, u)"
  shows "parse_line (n @ [58] @ p @ [58] @ fmt_d u) = Some (n, p, u)"
proof -
  have t: "takeWhile (\<lambda>c. c \<noteq> 10) (fmt_d u) = fmt_d u"
    using fmt_d_chars by (auto simp: takeWhile_eq_all_conv)
  have "length (fmt_d u) < 12" using assms by (intro length_fmt_d) (simp_all add: wf_user_def)
  with assms atoi_fmt_d [of u] show ?thesis
    by (simp add: parse_line_def wf_user_def split_first_app t Let_def)
qed

text \<open>The printed table is read back.\<close>

definition fmt_users :: "(bytes \<times> bytes \<times> int) list \<Rightarrow> bytes" where
  "fmt_users es = concat (map (\<lambda>(n, p, u). fmt_line n p u) es)"

lemma user_lines_fmt:
  assumes "wf_user (n, p, u)"
  shows "user_lines (fmt_line n p u @ s) = (n, p, u) # user_lines s"
proof -
  let ?l = "n @ [58] @ p @ [58] @ fmt_d u"
  have l: "fmt_line n p u @ s = ?l @ 10 # s" by (simp add: fmt_line_def)
  have no: "10 \<notin> set ?l" using assms fmt_d_chars [of 10 u] by (auto simp: wf_user_def)
  have "length ?l < 255" using assms length_fmt_d [of u] by (simp add: wf_user_def)
  then have tk: "take 255 ?l = ?l" by simp
  have tw: "takeWhile (\<lambda>c. c \<noteq> 10) (?l @ 10 # s) = ?l" using no by (subst takeWhile_append2) auto
  have "?l @ 10 # s \<noteq> []" by simp
  then have "user_lines (?l @ 10 # s) =
      (case parse_line ?l of None \<Rightarrow> user_lines s | Some e \<Rightarrow> e # user_lines s)"
    unfolding user_lines.simps [of "?l @ 10 # s"] Let_def tw tk split_first_app [OF no] by (auto split: option.split)
  then show ?thesis unfolding l parse_fmt_line [OF assms] by simp
qed

lemma user_lines_fmt_users: "\<forall>e \<in> set es. wf_user e \<Longrightarrow> user_lines (fmt_users es @ s) = es @ user_lines s"
proof (induction es)
  case Nil
  then show ?case by (simp add: fmt_users_def)
next
  case (Cons e es)
  obtain n p u where e: "e = (n, p, u)" by (cases e)
  have "user_lines (fmt_users (e # es) @ s) = user_lines (fmt_line n p u @ (fmt_users es @ s))"
    by (simp add: fmt_users_def e)
  also have "\<dots> = (n, p, u) # user_lines (fmt_users es @ s)" using Cons.prems e by (intro user_lines_fmt) simp
  finally show ?case using Cons e by simp
qed

text \<open>The lines behind the table are those of the uninitialised bytes; every line met is an entry the parser can hold.\<close>

lemma fmt_users_Cons: "fmt_users ((u, p, i) # es) = fmt_line u p i @ fmt_users es"
  by (simp add: fmt_users_def)

lemma fmt_users_no_zero: "\<forall>e \<in> set es. wf_user e \<Longrightarrow> 0 \<notin> set (fmt_users es)"
proof (induction es)
  case (Cons e es)
  obtain u p i where e: "e = (u, p, i)" by (cases e)
  have "0 \<notin> set (fmt_d i)" using fmt_d_chars by blast
  with Cons show ?case by (simp add: e fmt_users_Cons fmt_line_def wf_user_def)
qed (simp add: fmt_users_def)

lemma fmt_users_last: "es \<noteq> [] \<Longrightarrow> \<exists>x. fmt_users es = x @ [10]"
proof (induction es rule: rev_induct)
  case (snoc e es)
  obtain n p u where e: "e = (n, p, u)" by (cases e)
  then have "fmt_users (es @ [e]) = (fmt_users es @ n @ [58] @ p @ [58] @ fmt_d u) @ [10]" by (simp add: fmt_users_def fmt_line_def)
  then show ?case by blast
qed simp

lemma full_lines_append: "full_lines (x @ 10 # y) = x @ 10 # full_lines y"
proof (cases "10 \<in> set y")
  case True
  then show ?thesis by (simp add: full_lines_def dropWhile_append1 [of 10 "rev y"])
next
  case False
  then have "dropWhile (\<lambda>c. c \<noteq> 10) (rev y) = []" by (auto simp: dropWhile_eq_Nil_conv)
  moreover have "dropWhile (\<lambda>c. c \<noteq> 10) (rev y @ 10 # rev x) = dropWhile (\<lambda>c. c \<noteq> 10) (10 # rev x)"
    by (rule dropWhile_append2) (use False in auto)
  ultimately show ?thesis by (simp add: full_lines_def)
qed

lemma c_lines_fmt:
  assumes "\<forall>e \<in> set es. wf_user e"
  shows "c_lines (fmt_users es @ junk) = (es @ fst (c_lines junk), snd (c_lines junk))"
proof -
  have z: "0 \<notin> set (fmt_users es)" by (rule fmt_users_no_zero [OF assms])
  then have "\<forall>x \<in> set (fmt_users es). x \<noteq> 0" by metis
  then have "cstr (fmt_users es @ junk) = fmt_users es @ cstr junk" by (simp add: cstr_def takeWhile_append2)
  moreover have "full_lines (fmt_users es @ junk) = fmt_users es @ full_lines junk"
  proof (cases "es = []")
    case True
    then show ?thesis by (simp add: fmt_users_def)
  next
    case False
    then obtain x where "fmt_users es = x @ [10]" using fmt_users_last by blast
    then show ?thesis using full_lines_append [of x junk] by simp
  qed
  ultimately show ?thesis using z user_lines_fmt_users [OF assms] by (simp add: c_lines_def)
qed

lemma split_first_sub: "split_first c s = Some (a, b) \<Longrightarrow> set a \<subseteq> set s \<and> set b \<subseteq> set s \<and> c \<notin> set a"
proof -
  assume "split_first c s = Some (a, b)"
  then have e: "a = takeWhile (\<lambda>x. x \<noteq> c) s" "b = tl (dropWhile (\<lambda>x. x \<noteq> c) s)" by (simp_all add: split_first_def split: if_splits)
  have "set (tl l) \<subseteq> set l" for l :: bytes by (cases l) auto
  moreover have "set (dropWhile (\<lambda>x. x \<noteq> c) s) \<subseteq> set s" by (rule subsetI) (rule set_dropWhileD)
  moreover have "set (takeWhile (\<lambda>x. x \<noteq> c) s) \<subseteq> set s" "c \<notin> set (takeWhile (\<lambda>x. x \<noteq> c) s)" by (auto dest: set_takeWhileD)
  ultimately show ?thesis unfolding e by blast
qed

lemma parse_line_wf:
  assumes "parse_line line = Some e" and "0 \<notin> set line" and "10 \<notin> set line"
  shows "wf_user e"
proof -
  obtain n r1 p r2 where s: "split_first 58 line = Some (n, r1)" "split_first 58 r1 = Some (p, r2)"
    using assms(1) by (auto simp: parse_line_def Option.bind_eq_Some_conv)
  then have e: "e = (n, p, atoi (takeWhile (\<lambda>c. c \<noteq> 10) r2))" "length n < MAX_USER_LEN" "length p < MAX_USER_LEN"
    using assms(1) by (auto simp: parse_line_def Let_def split: if_splits)
  have "- (2 ^ 31) \<le> atoi x \<and> atoi x < 2 ^ 31" for x
    using sint_greater_eq [where 'a = 32] sint_less [where 'a = 32] by (simp add: atoi_def Let_def)
  with e split_first_sub [OF s(1)] split_first_sub [OF s(2)] assms(2,3) show ?thesis by (auto simp: wf_user_def)
qed

lemma user_lines_wf: "0 \<notin> set s \<Longrightarrow> e \<in> set (user_lines s) \<Longrightarrow> wf_user e"
proof (induction s rule: user_lines.induct)
  case (1 s)
  let ?l = "take 255 (takeWhile (\<lambda>c. c \<noteq> 10) s)"
  have l: "0 \<notin> set ?l" "10 \<notin> set ?l" using "1.prems"(1) by (auto dest!: in_set_takeD dest: set_takeWhileD)
  have s: "s \<noteq> []" using "1.prems"(2) by (auto simp: user_lines.simps [of s])
  consider "parse_line ?l = Some e" | a b where "split_first 10 s = Some (a, b)" "e \<in> set (user_lines b)"
    using "1.prems"(2) s unfolding user_lines.simps [of s] Let_def by (auto split: option.splits dest: sym)
  then show ?case
  proof cases
    case 1
    then show ?thesis using parse_line_wf l by blast
  next
    case (2 a b)
    then have "0 \<notin> set b" using split_first_sub [OF 2(1)] "1.prems"(1) by blast
    then show ?thesis using "1.IH" [OF s refl 2(1) refl] 2(2) by blast
  qed
qed

lemma c_lines_wf: "e \<in> set (fst (c_lines x)) \<Longrightarrow> wf_user e"
proof (cases "0 \<in> set x")
  case True
  assume "e \<in> set (fst (c_lines x))"
  with True have "e \<in> set (user_lines (cstr x))" by (simp add: c_lines_def)
  then show ?thesis by (rule user_lines_wf [OF cstr_no_zero])
next
  case False
  assume e: "e \<in> set (fst (c_lines x))"
  have "0 \<notin> set (full_lines x)" using False by (auto simp: full_lines_def dest: set_dropWhileD)
  moreover have "e \<in> set (user_lines (full_lines x))" using e False by (simp add: c_lines_def)
  ultimately show ?thesis by (rule user_lines_wf)
qed

text \<open>The saved session is read back.\<close>

lemma after_str_here: "after_str pat (pat @ s) = Some s"
  by (simp add: after_str.simps [of pat "pat @ s"])

lemma after_str_skip: "c \<noteq> p \<Longrightarrow> after_str (p # ps) (c # s) = after_str (p # ps) s"
  by (simp add: after_str.simps [of "p # ps" "c # s"])

lemma after_str_skips: "\<forall>c \<in> set xs. c \<noteq> p \<Longrightarrow> after_str (p # ps) (xs @ s) = after_str (p # ps) s"
  by (induction xs) (auto simp: after_str_skip)

lemma takeWhile_tail_digits: "dropWhile P (xs @ ys) = (if \<forall>x \<in> set xs. P x then dropWhile P ys else dropWhile P xs @ ys)"
  by (induction xs) auto

lemma session_roundtrip:
  assumes u: "- (2 ^ 31) \<le> uid" "uid < 2 ^ 31" and n: "user \<noteq> []" "length user < MAX_USER_LEN" "10 \<notin> set user"
  shows "session_parse (session_text uid user) = Some (uid, user)"
proof -
  let ?rest = "bytes_of ''user:'' @ user @ [10]"
  have b: "bytes_of ''uid:'' = [117, 105, 100, 58]" "bytes_of ''user:'' = [117, 115, 101, 114, 58]"
    by (simp_all add: bytes_of_def)
  have st: "session_text uid user = bytes_of ''uid:'' @ (fmt_d uid @ 10 # ?rest)" by (simp add: session_text_def)
  have "\<not> is_digit 10" by (simp add: is_digit_def word_le_nat_alt)
  then have a: "atoi (fmt_d uid @ 10 # ?rest) = uid" using atoi_stop atoi_fmt_d [OF u] by simp
  have nou: "\<forall>c \<in> set (fmt_d uid @ [10]). c \<noteq> 117"
    using fmt_u_digits [of "nat uid"] fmt_u_digits [of "nat (- uid)"]
    by (auto simp: fmt_d_def is_digit_def word_le_nat_alt split: if_splits)
  have "after_str (bytes_of ''user:'') (session_text uid user) =
      after_str (bytes_of ''user:'') ((fmt_d uid @ [10]) @ ?rest)"
    unfolding st b by (simp add: after_str.simps [of "[117, 115, 101, 114, 58]" "117 # _"] after_str_skip)
  also have "\<dots> = after_str (bytes_of ''user:'') ?rest"
    using after_str_skips [OF nou, of "[115, 101, 114, 58]" ?rest] unfolding b by simp
  also have "\<dots> = Some (user @ [10])" by (rule after_str_here)
  finally have usr: "after_str (bytes_of ''user:'') (session_text uid user) = Some (user @ [10])" .
  have uids: "after_str (bytes_of ''uid:'') (session_text uid user) = Some (fmt_d uid @ 10 # ?rest)"
    unfolding st by (rule after_str_here)
  have "takeWhile (\<lambda>c. c \<noteq> 10) (user @ [10]) = user" using n(3) by (subst takeWhile_append2) auto
  with n show ?thesis unfolding session_parse_def usr uids by (simp add: a Let_def)
qed

end
