(* ===== verification/Format.thy ===== *)
theory Format
  imports Security
begin

text \<open>
  \<open>project3/src/fs.c\<close>: making a file system on \<open>disk.img\<close> and mounting one. Formatting builds
  a volume that satisfies the invariant, whatever the state before; mounting it reads back
  the metadata that formatting wrote.
\<close>

section \<open>fs_format and fs_mount\<close>

abbreviation (input) "DISK_IMG \<equiv> bytes_of ''disk.img''"

text \<open>\<open>for(i=0;i<TOTAL_BLOCKS;i++) dev_write_block(zero,i)\<close>, for the first \<open>n\<close> blocks.\<close>

fun wipe :: "nat \<Rightarrow> fs \<Rightarrow> fs" where
  "wipe 0 s = s"
| "wipe (Suc n) s = snd (dev_write_block (replicate BLOCK_SIZE 0) n (wipe n s))"

text \<open>\<open>for(i=0;i<BLK_DATA_START;i++) bmap_set(i,1,1)\<close>, for the first \<open>n\<close> blocks.\<close>

fun reserve :: "nat \<Rightarrow> fs \<Rightarrow> fs option" where
  "reserve 0 s = Some s"
| "reserve (Suc n) s = do {
     s1 \<leftarrow> reserve n s;
     (_, s2) \<leftarrow> bmap_set n True True s1;
     Some s2 }"

text \<open>The metadata in memory; the times are 32-bit values stored in zeroed 64-bit fields.\<close>

definition init_sb :: "u32 \<Rightarrow> u32 \<Rightarrow> superblock" where
  "init_sb mt wt = \<lparr>magic = FS_MAGIC, block_size = of_nat BLOCK_SIZE, blocks_count = of_nat TOTAL_BLOCKS,
     inodes_count = of_nat MAX_INODES, free_blocks = of_nat TOTAL_BLOCKS, free_inodes = of_nat MAX_INODES,
     first_data_block = of_nat BLK_DATA_START, inode_table_start = of_nat BLK_ITBL_START,
     block_bitmap_blk = of_nat BLK_BMAP, inode_bitmap_blk = of_nat BLK_IMAP, root_ino = 1,
     mount_time = ucast mt, write_time = ucast wt\<rparr>"

definition init_gd :: group_desc where
  "init_gd = \<lparr>block_bitmap = of_nat BLK_BMAP, inode_bitmap = of_nat BLK_IMAP, inode_table = of_nat BLK_ITBL_START,
     free_blocks_count = of_nat TOTAL_BLOCKS, free_inodes_count = of_nat MAX_INODES\<rparr>"

definition sync_meta :: "fs \<Rightarrow> fs" where
  "sync_meta s = sync_gd (sync_sb s)"

text \<open>Lines 8 to 34: the empty volume, with block 0 to 68 and inode 1 taken.\<close>

definition format_meta :: "fs \<Rightarrow> fs option" where
  "format_meta s = do {
     let s1 = wipe TOTAL_BLOCKS s;
     let (mt, s2) = ts_now s1;
     let (wt, s3) = ts_now s2;
     let s4 = sync_meta (s3\<lparr>g_sb := init_sb mt wt, g_gd := init_gd\<rparr>);
     s5 \<leftarrow> reserve BLK_DATA_START s4;
     let s6 = sync_meta (s5\<lparr>g_sb := (g_sb s5)\<lparr>free_blocks := free_blocks (g_sb s5) - of_nat BLK_DATA_START\<rparr>,
                g_gd := (g_gd s5)\<lparr>free_blocks_count := free_blocks_count (g_gd s5) - of_nat BLK_DATA_START\<rparr>\<rparr>);
     (_, s7) \<leftarrow> bmap_set 1 False True s6;
     Some (sync_meta (s7\<lparr>g_sb := (g_sb s7)\<lparr>free_inodes := free_inodes (g_sb s7) - 1\<rparr>,
            g_gd := (g_gd s7)\<lparr>free_inodes_count := free_inodes_count (g_gd s7) - 1\<rparr>\<rparr>)) }"

text \<open>Lines 36 to 40: the root directory.\<close>

definition format_root :: "fs \<Rightarrow> fs option" where
  "format_root s = do {
     let (ct, s1) = ts_now s;
     let (mt, s2) = ts_now s1;
     let (at, s3) = ts_now s2;
     let s4 = snd (write_inode 1 (zero_inode\<lparr>i_mode := MODE_DIR, i_links := 2, i_ctime := ct,
                i_mtime := mt, i_atime := at\<rparr>) s3);
     (_, s5) \<leftarrow> dir_add 1 (bytes_of ''.'') FT_DIR 1 s4;
     (_, s6) \<leftarrow> dir_add 1 (bytes_of ''..'') FT_DIR 1 s5;
     Some s6 }"

definition fs_format :: "fs \<Rightarrow> (int \<times> fs) option" where
  "fs_format s = do {
     let (r, s1) = dev_open DISK_IMG (bytes_of ''wb+'') (snd (dev_close s));
     if r \<noteq> FS_OK then Some (FS_ERR, s1)
     else do {
       s2 \<leftarrow> format_meta s1;
       s3 \<leftarrow> format_root s2;
       (_, s4) \<leftarrow> users_bootstrap s3;
       Some (FS_OK, snd (dev_close s4)) } }"

text \<open>
  A block read into \<open>g_sb\<close> or \<open>g_gd\<close>: the object and the bytes behind it. A failed read leaves
  memory as it was.
\<close>

definition load_sb :: "fs \<Rightarrow> int \<times> fs" where
  "load_sb s = (case dev_read_block BLK_SUPER s of
     None \<Rightarrow> (FS_ERR, s)
   | Some buf \<Rightarrow> (FS_OK, s\<lparr>g_sb := dec_sb (take 64 buf), sb_slack := drop 64 buf\<rparr>))"

definition load_gd :: "fs \<Rightarrow> int \<times> fs" where
  "load_gd s = (case dev_read_block BLK_GDESC s of
     None \<Rightarrow> (FS_ERR, s)
   | Some buf \<Rightarrow> (FS_OK, s\<lparr>g_gd := dec_gd (take 20 buf), gd_slack := drop 20 buf\<rparr>))"

definition zero_ofile :: ofile where
  "zero_ofile = \<lparr>of_used = False, of_ino = 0, of_offset = 0, of_writable = False\<rparr>"

definition fs_mount :: "bytes \<Rightarrow> fs \<Rightarrow> (int \<times> fs) option" where
  "fs_mount img s =
     (let (r, s1) = dev_open img (bytes_of ''rb+'') s in
      if r \<noteq> FS_OK then Some (FS_ERR, s1)
      else let (r2, s2) = load_sb s1 in
        if r2 \<noteq> FS_OK then Some (FS_ERR, s2)
        else if magic (g_sb s2) \<noteq> FS_MAGIC \<or> block_size (g_sb s2) \<noteq> of_nat BLOCK_SIZE then Some (FS_ERR, s2)
        else let (r3, s3) = load_gd s2 in
          if r3 \<noteq> FS_OK then Some (FS_ERR, s3)
          else do {
            (_, s4) \<leftarrow> users_bootstrap (s3\<lparr>g_cwd := root_ino (g_sb s3), g_ofile := replicate MAX_OPEN zero_ofile\<rparr>);
            (q, s5) \<leftarrow> session_load s4;
            Some (FS_OK, if q \<noteq> FS_OK then s5\<lparr>g_uid := 0, g_user := bytes_of ''root''\<rparr> else s5) })"

text \<open>
  The globals when a process starts, on a host with the files \<open>h\<close>, which refuses none, and a clock
  \<open>c\<close>; the bytes behind the metadata objects are zero here.
\<close>

definition proc_start :: "(bytes \<Rightarrow> image option) \<Rightarrow> (nat \<Rightarrow> u32) \<Rightarrow> fs" where
  "proc_start h c =
     \<lparr>host = h, denied = (\<lambda>_. False), g_dev = None,
      g_sb = \<lparr>magic = 0, block_size = 0, blocks_count = 0, inodes_count = 0, free_blocks = 0, free_inodes = 0,
        first_data_block = 0, inode_table_start = 0, block_bitmap_blk = 0, inode_bitmap_blk = 0, root_ino = 0,
        mount_time = 0, write_time = 0\<rparr>,
      sb_slack = replicate 448 0,
      g_gd = \<lparr>block_bitmap = 0, inode_bitmap = 0, inode_table = 0, free_blocks_count = 0, free_inodes_count = 0\<rparr>,
      gd_slack = replicate 492 0, g_ofile = replicate MAX_OPEN zero_ofile, g_cwd = 1, g_uid = 0,
      g_user = bytes_of ''root'', clock = c, tick = 0\<rparr>"

section \<open>The empty volume\<close>

text \<open>Memory as the program has it: 64 descriptors, and room behind the two metadata objects.\<close>

definition mem_ok :: "fs \<Rightarrow> bool" where
  "mem_ok s \<longleftrightarrow> length (sb_slack s) = 448 \<and> length (gd_slack s) = 492 \<and> length (g_ofile s) = MAX_OPEN"

lemma wipe_ok:
  assumes "g_dev s = Some p" and "host s p = Some im" and "\<forall>b. length (im_blk im b) = BLOCK_SIZE" and "n \<le> TOTAL_BLOCKS"
  shows "\<exists>im'. wipe n s = s\<lparr>host := (host s)(p \<mapsto> im')\<rparr> \<and> im_len im' \<ge> n * BLOCK_SIZE \<and>
    (\<forall>b. length (im_blk im' b) = BLOCK_SIZE) \<and> (\<forall>b < n. im_blk im' b = replicate BLOCK_SIZE 0)"
  using assms(4)
proof (induction n)
  case 0
  have e: "wipe 0 s = s\<lparr>host := (host s)(p \<mapsto> im)\<rparr>" using assms(2) by (simp add: fun_upd_idem)
  show ?case unfolding e using assms(3) by (intro exI [of _ im] conjI refl) simp_all
next
  case (Suc n)
  then have "n \<le> TOTAL_BLOCKS" by simp
  from Suc.IH [OF this] obtain im1 where im1: "wipe n s = s\<lparr>host := (host s)(p \<mapsto> im1)\<rparr>" "im_len im1 \<ge> n * BLOCK_SIZE"
    "\<forall>b. length (im_blk im1 b) = BLOCK_SIZE" "\<forall>b < n. im_blk im1 b = replicate BLOCK_SIZE 0"
    by blast
  let ?im = "host_pwrite im1 n (replicate BLOCK_SIZE 0)"
  have "wipe (Suc n) s = s\<lparr>host := (host s)(p \<mapsto> ?im)\<rparr>"
    using im1(1) assms(1) Suc.prems by (simp add: dev_write_block_def)
  moreover have "im_len ?im \<ge> Suc n * BLOCK_SIZE" by (simp add: host_pwrite_def)
  moreover have "\<forall>b. length (im_blk ?im b) = BLOCK_SIZE" "\<forall>b < Suc n. im_blk ?im b = replicate BLOCK_SIZE 0"
    using im1(3,4) by (auto simp: host_pwrite_def less_Suc_eq)
  ultimately show ?case by blast
qed

text \<open>The wiped device: every block is zeros.\<close>

lemma wiped:
  assumes "dev_open DISK_IMG (bytes_of ''wb+'') (snd (dev_close s)) = (r, s1)" and "\<not> denied s DISK_IMG"
  shows "r = FS_OK" "dev_ok (wipe TOTAL_BLOCKS s1)" "\<And>b. b < TOTAL_BLOCKS \<Longrightarrow> blk (wipe TOTAL_BLOCKS s1) b = replicate BLOCK_SIZE 0"
    and "same_session s1 (wipe TOTAL_BLOCKS s1)" "sb_slack (wipe TOTAL_BLOCKS s1) = sb_slack s"
    "gd_slack (wipe TOTAL_BLOCKS s1) = gd_slack s" "g_ofile s1 = g_ofile s" "g_uid s1 = g_uid s"
    "g_dev s1 = Some DISK_IMG" "g_cwd s1 = g_cwd s"
proof -
  let ?s0 = "snd (dev_close s)"
  have s0: "g_dev ?s0 = None" "host ?s0 = host s" "denied ?s0 = denied s" "sb_slack ?s0 = sb_slack s" "gd_slack ?s0 = gd_slack s"
    "g_ofile ?s0 = g_ofile s" "g_uid ?s0 = g_uid s" "g_cwd ?s0 = g_cwd s"
    by (simp_all add: dev_close_def)
  have s1: "r = FS_OK" "s1 = ?s0\<lparr>host := (host s)(DISK_IMG \<mapsto> empty_image), g_dev := Some DISK_IMG\<rparr>"
    using assms s0(1-3) by (auto simp: dev_open_def host_fopen_def)
  have h: "g_dev s1 = Some DISK_IMG" "host s1 DISK_IMG = Some empty_image"
    "\<forall>b. length (im_blk empty_image b) = BLOCK_SIZE" "TOTAL_BLOCKS \<le> TOTAL_BLOCKS"
    using s1(2) by (simp_all add: empty_image_def)
  obtain im where im: "wipe TOTAL_BLOCKS s1 = s1\<lparr>host := (host s1)(DISK_IMG \<mapsto> im)\<rparr>"
    "im_len im \<ge> TOTAL_BLOCKS * BLOCK_SIZE" "\<forall>b. length (im_blk im b) = BLOCK_SIZE"
    "\<forall>b < TOTAL_BLOCKS. im_blk im b = replicate BLOCK_SIZE 0"
    using wipe_ok [OF h] by blast
  let ?w = "s1\<lparr>host := (host s1)(DISK_IMG \<mapsto> im)\<rparr>"
  show "dev_ok (wipe TOTAL_BLOCKS s1)"
    unfolding im(1) dev_ok_def im_ok_def using h(1) im(2,3) by simp
  show "blk (wipe TOTAL_BLOCKS s1) b = replicate BLOCK_SIZE 0" if "b < TOTAL_BLOCKS" for b
    unfolding im(1) using h(1) im(2,4) that by (simp add: blk_def dev_read_block_def host_pread_def)
  show "r = FS_OK" "g_ofile s1 = g_ofile s" "g_uid s1 = g_uid s" "g_dev s1 = Some DISK_IMG" "g_cwd s1 = g_cwd s"
    using s0 s1 by simp_all
  show "same_session s1 (wipe TOTAL_BLOCKS s1)" "sb_slack (wipe TOTAL_BLOCKS s1) = sb_slack s"
    "gd_slack (wipe TOTAL_BLOCKS s1) = gd_slack s"
    unfolding im(1) using s0 s1(2) by (simp_all add: same_session_def)
qed

text \<open>
  \<open>meta_ok s us is\<close>: a device whose bitmaps have exactly the blocks \<open>us\<close> and the inodes \<open>is\<close>,
  with the metadata of both objects on the disk.
\<close>

definition sized :: "fs \<Rightarrow> bool" where
  "sized s \<longleftrightarrow> dev_ok s \<and> length (sb_slack s) = 448 \<and> length (gd_slack s) = 492"

lemma sync_meta_ok:
  assumes "sized s"
  shows "sized (sync_meta s)" "meta_synced (sync_meta s)" "same_session s (sync_meta s)"
    "g_sb (sync_meta s) = g_sb s" "g_gd (sync_meta s) = g_gd s" "tick (sync_meta s) = tick s"
    "\<And>b. BLK_GDESC < b \<Longrightarrow> b < TOTAL_BLOCKS \<Longrightarrow> blk (sync_meta s) b = blk s b"
  using assms
  by (simp_all add: sized_def sync_meta_def sync_sb_def sync_gd_def dev_write_snd meta_synced_def)

lemma bmap_set_ok:
  assumes v: "vol_ok s" and n: "n < 4096"
  shows "\<exists>r t. bmap_set n True True s = Some (r, t) \<and> vol_ok t \<and> blk_used t = (blk_used s)(n := True) \<and>
      ino_used t = ino_used s \<and> same_session s t \<and> tick t = tick s \<and> g_sb t = g_sb s \<and> g_gd t = g_gd s \<and>
      (\<forall>b < TOTAL_BLOCKS. b \<noteq> BLK_BMAP \<longrightarrow> blk t b = blk s b)"
    and "\<exists>r t. bmap_set n False True s = Some (r, t) \<and> vol_ok t \<and> ino_used t = (ino_used s)(n := True) \<and>
      blk_used t = blk_used s \<and> same_session s t \<and> tick t = tick s \<and> g_sb t = g_sb s \<and> g_gd t = g_gd s \<and>
      (\<forall>b < TOTAL_BLOCKS. b \<noteq> BLK_IMAP \<longrightarrow> blk t b = blk s b)"
proof -
  have d: "dev_ok s" using v by (rule vol_okD)
  have l: "n div 8 < length (blk s BLK_BMAP)" "n div 8 < length (blk s BLK_IMAP)"
    using d n by (simp_all add: div_less_iff_less_mult)
  let ?b = "\<lambda>k. (blk s k)[n div 8 := (blk s k ! (n div 8)) OR push_bit (n mod 8) 1]"
  have e: "bmap_set n True True s = Some (FS_OK, put_blk BLK_BMAP (?b BLK_BMAP) s)"
    "bmap_set n False True s = Some (FS_OK, put_blk BLK_IMAP (?b BLK_IMAP) s)"
    using v d l by (simp_all add: bmap_set_def vol_okD dev_read_ok dev_write_ok bitop_def Let_def)
  show "\<exists>r t. bmap_set n True True s = Some (r, t) \<and> vol_ok t \<and> blk_used t = (blk_used s)(n := True) \<and>
      ino_used t = ino_used s \<and> same_session s t \<and> tick t = tick s \<and> g_sb t = g_sb s \<and> g_gd t = g_gd s \<and>
      (\<forall>b < TOTAL_BLOCKS. b \<noteq> BLK_BMAP \<longrightarrow> blk t b = blk s b)"
    unfolding e(1) using v d l(1) bm_bit_set [OF l(1)]
    by (auto simp: blk_used_def ino_used_def fun_eq_iff)
  show "\<exists>r t. bmap_set n False True s = Some (r, t) \<and> vol_ok t \<and> ino_used t = (ino_used s)(n := True) \<and>
      blk_used t = blk_used s \<and> same_session s t \<and> tick t = tick s \<and> g_sb t = g_sb s \<and> g_gd t = g_gd s \<and>
      (\<forall>b < TOTAL_BLOCKS. b \<noteq> BLK_IMAP \<longrightarrow> blk t b = blk s b)"
    unfolding e(2) using v d l(2) bm_bit_set [OF l(2)]
    by (auto simp: blk_used_def ino_used_def fun_eq_iff)
qed

lemma reserve_ok:
  assumes v: "vol_ok s" and n: "n \<le> 4096"
  shows "\<exists>t. reserve n s = Some t \<and> vol_ok t \<and> (\<forall>b. blk_used t b \<longleftrightarrow> b < n \<or> blk_used s b) \<and>
      ino_used t = ino_used s \<and> same_session s t \<and> tick t = tick s \<and> g_sb t = g_sb s \<and> g_gd t = g_gd s \<and>
      (\<forall>b < TOTAL_BLOCKS. b \<noteq> BLK_BMAP \<longrightarrow> blk t b = blk s b)"
  using n
proof (induction n)
  case 0
  with v show ?case by simp
next
  case (Suc n)
  then have "n \<le> 4096" by simp
  from Suc.IH [OF this] obtain u where u: "reserve n s = Some u" "vol_ok u" "\<forall>b. blk_used u b \<longleftrightarrow> b < n \<or> blk_used s b"
    "ino_used u = ino_used s" "same_session s u" "tick u = tick s" "g_sb u = g_sb s" "g_gd u = g_gd s"
    "\<forall>b < TOTAL_BLOCKS. b \<noteq> BLK_BMAP \<longrightarrow> blk u b = blk s b" by blast
  have "n < 4096" using Suc.prems by simp
  from bmap_set_ok(1) [OF u(2) this] obtain r t where t: "bmap_set n True True u = Some (r, t)" "vol_ok t"
    "blk_used t = (blk_used u)(n := True)" "ino_used t = ino_used u" "same_session u t" "tick t = tick u"
    "g_sb t = g_sb u" "g_gd t = g_gd u" "\<forall>b < TOTAL_BLOCKS. b \<noteq> BLK_BMAP \<longrightarrow> blk t b = blk u b" by blast
  have "reserve (Suc n) s = Some t" using u(1) t(1) by simp
  moreover have "same_session s t" using u(5) t(5) by (rule same_session_trans)
  moreover have "\<forall>b. blk_used t b \<longleftrightarrow> b < Suc n \<or> blk_used s b"
  proof
    fix b
    show "blk_used t b \<longleftrightarrow> b < Suc n \<or> blk_used s b"
      unfolding t(3) fun_upd_apply using spec [OF u(3), of b] by (cases "b = n") auto
  qed
  moreover have "ino_used t = ino_used s" "tick t = tick s" "g_sb t = g_sb s" "g_gd t = g_gd s"
    using u(4,6-8) t(4,6-8) by simp_all
  moreover have "\<forall>b < TOTAL_BLOCKS. b \<noteq> BLK_BMAP \<longrightarrow> blk t b = blk s b" using u(9) t(9) by simp
  ultimately show ?case using t(2) by blast
qed

lemma zero_bits: "i < 4096 \<Longrightarrow> \<not> bm_bit (replicate BLOCK_SIZE 0) i"
  by (simp add: bm_bit_def div_less_iff_less_mult)

text \<open>The volume before the root directory: 4027 free blocks with a bit, 255 free inodes.\<close>

lemma format_meta_ok:
  assumes d: "dev_ok (wipe TOTAL_BLOCKS s)" and z: "\<And>b. b < TOTAL_BLOCKS \<Longrightarrow> blk (wipe TOTAL_BLOCKS s) b = replicate BLOCK_SIZE 0"
    and l: "length (sb_slack (wipe TOTAL_BLOCKS s)) = 448" "length (gd_slack (wipe TOTAL_BLOCKS s)) = 492"
    and ss: "same_session s (wipe TOTAL_BLOCKS s)"
  obtains t where "format_meta s = Some t" "vol_ok t" "counters_ok t" "same_session s t"
    "\<And>b. b < 4096 \<Longrightarrow> blk_used t b \<longleftrightarrow> b < BLK_DATA_START" "\<And>i. i < 4096 \<Longrightarrow> ino_used t i \<longleftrightarrow> i = 1"
    "nfree_blocks t = 4027" "magic (g_sb t) = FS_MAGIC" "block_size (g_sb t) = of_nat BLOCK_SIZE"
    "\<And>b. BLK_ITBL_START \<le> b \<Longrightarrow> b < TOTAL_BLOCKS \<Longrightarrow> blk t b = replicate BLOCK_SIZE 0"
proof -
  let ?s1 = "wipe TOTAL_BLOCKS s"
  let ?sb = "init_sb (clock ?s1 (tick ?s1)) (clock ?s1 (Suc (tick ?s1)))"
  let ?s3 = "?s1\<lparr>tick := Suc (Suc (tick ?s1)), g_sb := ?sb, g_gd := init_gd\<rparr>"
  define s4 where "s4 = sync_meta ?s3"
  have z3: "sized ?s3" using d l by (simp add: sized_def)
  note m4 = sync_meta_ok [OF z3, folded s4_def]
  have sb4: "g_sb s4 = ?sb" "g_gd s4 = init_gd" using m4(4,5) by simp_all
  have v4: "vol_ok s4" using m4(1) unfolding vol_ok_def sized_def sb4 by (simp add: init_sb_def)
  have b4: "blk s4 b = replicate BLOCK_SIZE 0" if "BLK_GDESC < b" "b < TOTAL_BLOCKS" for b
    using m4(7) [OF that] z that by simp
  have u4: "\<not> blk_used s4 i" "\<not> ino_used s4 i" if "i < 4096" for i
    using zero_bits [OF that] b4 by (simp_all add: blk_used_def ino_used_def)
  have n69: "BLK_DATA_START \<le> (4096 :: nat)" by simp
  obtain s5 where s5: "reserve BLK_DATA_START s4 = Some s5" "vol_ok s5"
    "\<forall>b. blk_used s5 b \<longleftrightarrow> b < BLK_DATA_START \<or> blk_used s4 b" "ino_used s5 = ino_used s4" "same_session s4 s5"
    "g_sb s5 = g_sb s4" "g_gd s5 = g_gd s4" "\<forall>b < TOTAL_BLOCKS. b \<noteq> BLK_BMAP \<longrightarrow> blk s5 b = blk s4 b"
    using reserve_ok [OF v4 n69] by blast
  let ?s5 = "s5\<lparr>g_sb := (g_sb s5)\<lparr>free_blocks := free_blocks (g_sb s5) - of_nat BLK_DATA_START\<rparr>,
                g_gd := (g_gd s5)\<lparr>free_blocks_count := free_blocks_count (g_gd s5) - of_nat BLK_DATA_START\<rparr>\<rparr>"
  define s6 where "s6 = sync_meta ?s5"
  have z5: "sized ?s5" using s5(2) by (simp add: sized_def vol_okD)
  note m6 = sync_meta_ok [OF z5, folded s6_def]
  have sb6: "g_sb s6 = (g_sb s5)\<lparr>free_blocks := free_blocks (g_sb s5) - of_nat BLK_DATA_START\<rparr>"
    "g_gd s6 = (g_gd s5)\<lparr>free_blocks_count := free_blocks_count (g_gd s5) - of_nat BLK_DATA_START\<rparr>"
    using m6(4,5) by simp_all
  have v6: "vol_ok s6" using m6(1) s5(2) unfolding vol_ok_def sized_def sb6 by simp
  have b6: "blk s6 b = blk s5 b" if "BLK_GDESC < b" "b < TOTAL_BLOCKS" for b using m6(7) [OF that] by simp
  have "(1 :: nat) < 4096" by simp
  from bmap_set_ok(2) [OF v6 this] obtain r s7 where s7: "bmap_set 1 False True s6 = Some (r, s7)" "vol_ok s7"
    "ino_used s7 = (ino_used s6)(1 := True)" "blk_used s7 = blk_used s6" "same_session s6 s7"
    "g_sb s7 = g_sb s6" "g_gd s7 = g_gd s6" "\<forall>b < TOTAL_BLOCKS. b \<noteq> BLK_IMAP \<longrightarrow> blk s7 b = blk s6 b"
    by blast
  let ?s7 = "s7\<lparr>g_sb := (g_sb s7)\<lparr>free_inodes := free_inodes (g_sb s7) - 1\<rparr>,
            g_gd := (g_gd s7)\<lparr>free_inodes_count := free_inodes_count (g_gd s7) - 1\<rparr>\<rparr>"
  define t where "t = sync_meta ?s7"
  have z7: "sized ?s7" using s7(2) by (simp add: sized_def vol_okD)
  note m8 = sync_meta_ok [OF z7, folded t_def]
  have sb8: "g_sb t = (g_sb s7)\<lparr>free_inodes := free_inodes (g_sb s7) - 1\<rparr>"
    "g_gd t = (g_gd s7)\<lparr>free_inodes_count := free_inodes_count (g_gd s7) - 1\<rparr>"
    using m8(4,5) by simp_all
  have v8: "vol_ok t" using m8(1) s7(2) unfolding vol_ok_def sized_def sb8 by simp
  have b8: "blk t b = blk s7 b" if "BLK_GDESC < b" "b < TOTAL_BLOCKS" for b using m8(7) [OF that] by simp
  have bu: "blk_used t b \<longleftrightarrow> b < BLK_DATA_START" if "b < 4096" for b
  proof -
    have "blk_used t b = blk_used s7 b" using b8 by (simp add: blk_used_def)
    also have "\<dots> = blk_used s6 b" by (simp only: s7(4))
    also have "\<dots> = blk_used s5 b" using b6 by (simp add: blk_used_def)
    finally show ?thesis using spec [OF s5(3), of b] u4(1) [OF that] by simp
  qed
  have iu: "ino_used t i \<longleftrightarrow> i = 1" if "i < 4096" for i
  proof -
    have "ino_used t i = ino_used s7 i" using b8 by (simp add: ino_used_def)
    also have "\<dots> = (i = 1 \<or> ino_used s6 i)" by (simp add: s7(3))
    also have "ino_used s6 i = ino_used s5 i" using b6 by (simp add: ino_used_def)
    also have "\<dots> = ino_used s4 i" by (simp only: s5(4))
    finally show ?thesis using u4(2) [OF that] by simp
  qed
  have "{i \<in> {BLK_DATA_START..<4096}. \<not> blk_used t i} = {BLK_DATA_START..<4096}" using bu by auto
  then have nb: "nfree_blocks t = 4027" by (simp add: nfree_blocks_def n_free_def)
  have "{i \<in> {1..<MAX_INODES + 1}. \<not> ino_used t i} = {2..<257}" using iu by auto
  then have ni: "nfree_inodes t = 255" by (simp add: nfree_inodes_def n_free_def)
  have "free_blocks (g_sb t) = of_nat 4027 + 515" "free_blocks_count (g_gd t) = of_nat 4027 + 515"
    "free_inodes (g_sb t) = of_nat 255" "free_inodes_count (g_gd t) = of_nat 255"
    unfolding sb8 s7(6,7) sb6 s5(6,7) sb4 by (simp_all add: init_sb_def init_gd_def)
  with m8(2) have c8: "counters_ok t" unfolding counters_ok_def nb ni by blast
  show thesis
  proof (rule that [OF _ v8 c8 _ bu iu nb])
    show "format_meta s = Some t"
      using s5(1) s7(1) unfolding s4_def s6_def t_def by (simp add: format_meta_def ts_now_def Let_def)
    have "same_session s ?s3" using ss by (simp add: same_session_def)
    then show "same_session s t"
      using m4(3) s5(5) m6(3) s7(5) m8(3) by (simp add: same_session_def)
    show "magic (g_sb t) = FS_MAGIC" "block_size (g_sb t) = of_nat BLOCK_SIZE"
      unfolding sb8 s7(6) sb6 s5(6) sb4 by (simp_all add: init_sb_def)
    fix b
    assume "BLK_ITBL_START \<le> b" "b < TOTAL_BLOCKS"
    then show "blk t b = replicate BLOCK_SIZE 0" using b8 s7(8) b6 s5(8) b4 by simp
  qed
qed

section \<open>The root directory\<close>

definition root_dir :: "fs \<Rightarrow> bool" where
  "root_dir s \<longleftrightarrow> vol_inv s \<and> dir_wf s 1"

lemma vol_inv_blank_only:
  assumes v: "vol_ok t" and c: "counters_ok t" and only: "\<And>i. live t i \<Longrightarrow> i = 1" and b: "blank (inode_at t 1)"
  shows "vol_inv t"
  unfolding vol_inv_def view_inv_def using v c only blank_owns [OF b, of t] by metis

lemma format_root_ok:
  assumes v: "vol_ok s" and c: "counters_ok s" and iu: "\<And>i. i < 4096 \<Longrightarrow> ino_used s i \<longleftrightarrow> i = 1"
    and n: "nfree_blocks s = 4027"
  obtains t where "format_root s = Some t" "vol_inv t" "dir_wf t 1" "live t = (\<lambda>i. i = 1)" "same_session s t"
    "dir_entries t 1 = [(bytes_of ''.'', 1), (bytes_of ''..'', 1)]" "n_slots (inode_at t 1) = 2"
    "4026 \<le> nfree_blocks t"
proof -
  let ?w = "s\<lparr>tick := Suc (Suc (Suc (tick s)))\<rparr>"
  let ?i = "zero_inode\<lparr>i_mode := MODE_DIR, i_links := 2, i_ctime := clock s (tick s),
        i_mtime := clock s (Suc (tick s)), i_atime := clock s (Suc (Suc (tick s)))\<rparr>"
  define u where "u = put_inode 1 ?i ?w"
  have one: "valid_ino 1" by simp
  have bi: "blank ?i" using wf_zero_inode by (simp add: blank_def wf_inode_def zero_inode_def)
  then have w: "wf_inode ?i" by (simp add: blank_def)
  have vw: "vol_ok ?w" using v by simp
  note p = put_inode_ok [OF vw one w, folded u_def] put_inode_used [OF vw one w, folded u_def]
    put_inode_counters [OF vw one w, folded u_def]
  have lu: "live u = (\<lambda>i. i = 1)" using p(6) iu by (auto simp: fun_eq_iff live_def)
  have inv: "vol_inv u"
    using p(1,3,7) c lu bi by (intro vol_inv_blank_only) (simp_all add: fun_eq_iff)
  have nu: "nfree_blocks u = 4027" using n nfree_cong(1) [of u s] p(5) by simp
  have at: "inode_at u 1 = ?i" by (rule p(3))
  have ns: "n_slots (inode_at u 1) = 0" unfolding at n_slots_def by (simp add: zero_inode_def)
  have dw: "dir_wf u 1"
    unfolding dir_wf_def ns lu unfolding at by (simp add: zero_inode_def is_dir_mode_def)
  have e0: "dir_entries u 1 = []" unfolding dir_entries_n_slots ns by (simp add: entries_upto_def map_filter_def)
  have free: "\<exists>b. BLK_DATA_START \<le> b \<and> b < 4096 \<and> \<not> blk_used x b" if "0 < nfree_blocks x" for x
    using that by (auto simp: nfree_blocks_def n_free_def card_gt_0_iff)
  obtain r1 u1 where a1: "dir_add 1 (bytes_of ''.'') FT_DIR 1 u = Some (r1, u1)"
    using dir_add_total [OF inv dw] free [of u] nu by (metis zero_less_numeral)
  have c1: "0 < (1 :: nat)" "(1 :: nat) < 2 ^ 32" "(0 :: nat) < 80" "(1 :: nat) < 80" by simp_all
  note d1 = dir_add_ok [OF inv dw ns [symmetric] c1(3) c1(1,2) a1]
  note k1 = only_changedD [OF d1(2)]
  have z: "(0 :: nat) div 8 = 0" "(1 :: nat) div 8 = 0" by simp_all
  have n1: "4026 \<le> nfree_blocks u1" using d1(6) nu by (simp add: of_bool_def split: if_splits)
  have s1: "i_direct (inode_at u1 1) ! (n_slots (inode_at u1 1) div 8) \<noteq> 0" using d1(5,7) by simp
  obtain r2 u2 where a2: "dir_add 1 (bytes_of ''..'') FT_DIR 1 u1 = Some (r2, u2)"
    using dir_add_total [OF k1(3) d1(3) disjI1 [OF s1]] by blast
  have ns1: "1 = n_slots (inode_at u1 1)" using d1(5) by simp
  note d2 = dir_add_ok [OF k1(3) d1(3) ns1 c1(4) c1(1,2) a2]
  note k2 = only_changedD [OF d2(2)]
  have dots: "take (NAME_MAX_LEN - 1) (cstr (bytes_of ''.'')) = bytes_of ''.''"
    "take (NAME_MAX_LEN - 1) (cstr (bytes_of ''..'')) = bytes_of ''..''"
    by (simp_all add: bytes_of_def cstr_def)
  show thesis
  proof (rule that [of u2])
    show "format_root s = Some u2"
      using a1 a2 unfolding u_def put_inode_def by (simp add: format_root_def ts_now_def Let_def)
    show "vol_inv u2" "dir_wf u2 1" by (rule k2(3)) (rule d2(3))
    show "live u2 = (\<lambda>i. i = 1)" using k1(2) k2(2) lu by simp
    have "same_session s u" by (simp add: u_def same_session_def)
    then show "same_session s u2" using k1(5) k2(5) by (meson same_session_trans)
    show "dir_entries u2 1 = [(bytes_of ''.'', 1), (bytes_of ''..'', 1)]"
      using d1(4) d2(4) e0 dots by simp
    show "n_slots (inode_at u2 1) = 2" using d2(5) by simp
    show "4026 \<le> nfree_blocks u2" using d2(6) n1 d1(7) by (simp add: of_bool_def split: if_splits)
  qed
qed

section \<open>The user table\<close>

abbreviation (input) "USERS_NAME \<equiv> bytes_of ''.users''"
abbreviation (input) "ROOT_LINE \<equiv> fmt_line (bytes_of ''root'') (bytes_of ''root'') 0"

text \<open>A file in the root directory: its path resolves as its name does there.\<close>

definition plain_name :: "bytes \<Rightarrow> bool" where
  "plain_name w \<longleftrightarrow> w \<noteq> [] \<and> length w < NAME_MAX_LEN \<and> 0 \<notin> set w \<and> 47 \<notin> set w"

lemma plain_name_users: "plain_name USERS_NAME" and users_path: "USERS_PATH = 47 # USERS_NAME"
  by (simp_all add: plain_name_def bytes_of_def)

lemma plain_name_cut: "plain_name w \<Longrightarrow> take NAME_MAX_LEN (cstr w) = w \<and> take (NAME_MAX_LEN - 1) (cstr w) = w"
  by (simp add: plain_name_def cstr_id)

lemma split_on_none: "c \<notin> set w \<Longrightarrow> split_on c w = [w]"
  by (induction w) auto

lemma namei_root:
  assumes inv: "vol_inv s" and dw: "dir_wf s 1" and w: "plain_name w"
  shows "namei (47 # w) s = (case map_of (dir_entries s 1) w of Some x \<Rightarrow> Inr x | None \<Rightarrow> Inl FS_ENOENT)"
    and "open_target (47 # w) s = Some (1, w)"
proof -
  have v: "vol_ok s" using inv by (simp add: vol_inv_def view_invD(1))
  have r: "unat (root_ino (g_sb s)) = 1" using v by (simp add: vol_okD)
  have "segments w = [w]" using w by (simp add: segments_def split_on_none plain_name_def)
  then have "namei (47 # w) s = walk s 1 [w]" by (simp add: namei_def namei_loop_walk r)
  moreover have "dir_lookup 1 w s = (case map_of (dir_entries s 1) w of Some x \<Rightarrow> Inr x | None \<Rightarrow> Inl FS_ENOENT)"
    using dir_lookup_ok [OF v, of 1 w] dw plain_name_cut [OF w] by (simp add: dir_wf_def)
  ultimately show "namei (47 # w) s = (case map_of (dir_entries s 1) w of Some x \<Rightarrow> Inr x | None \<Rightarrow> Inl FS_ENOENT)"
    by (simp split: option.split)
  have rv: "47 \<notin> set (rev w)" using w by (simp add: plain_name_def)
  then have "dropWhile (\<lambda>x. x \<noteq> 47) (rev w @ [47]) = [47]" "takeWhile (\<lambda>x. x \<noteq> 47) (rev w @ [47]) = rev w"
    by (subst dropWhile_append2, auto) (subst takeWhile_append2, auto)
  then have "split_last 47 (47 # w) = Some ([], w)" by (simp add: split_last_def)
  moreover have "namei [47] s = Inr 1" by (simp add: namei_def namei_loop.simps [of "[]"] r)
  ultimately show "open_target (47 # w) s = Some (1, w)"
    using w by (simp add: open_target_def plain_name_def)
qed

lemma root_line: "ROOT_LINE = [114, 111, 111, 116, 58, 114, 111, 111, 116, 58, 48, 10]"
  by (simp add: fmt_line_def bytes_of_def fmt_d_def fmt_u.simps [of 0])

lemma own_file_perms:
  "i_mode i = MODE_FILE \<Longrightarrow> i_uid i = of_int uid \<Longrightarrow> perm_can_write i uid \<and> perm_can_read i uid"
  by (simp add: perm_can_write_def perm_can_read_def)

text \<open>
  A new file in the root directory, written in one go: opened for writing, filled and closed.
\<close>

lemma store_new_ok:
  assumes inv: "vol_inv s" and dw: "dir_wf s 1" and pn: "plain_name w" and fresh: "map_of (dir_entries s 1) w = None"
    and ns: "n_slots (inode_at s 1) < 80" and room: "blocks_touched 0 (length x) + 2 \<le> nfree_blocks s"
    and ino: "valid_ino m" "\<not> live s m" and fds: "length (g_ofile s) = MAX_OPEN" "\<exists>f \<in> set (g_ofile s). \<not> of_used f"
    and small: "length x \<le> FILE_MAX"
  obtains fd n s1 s2 t where "fs_open (47 # w) (bytes_of ''w'') s = Some (fd, s1)" "0 \<le> fd"
    "fs_write fd x s1 = Some (int (length x), s2)" "snd (fs_close fd s2) = t" "vol_inv t" "dir_wf t 1" "\<not> live s n"
    "live t = (live s)(n := True)" "dir_entries t 1 = dir_entries s 1 @ [(w, n)]"
    "file_size t n = length x" "map (file_at t n) [0..<length x] = x" "\<forall>q < length x. \<not> hole_at t n q"
    "i_mode (inode_at t n) = MODE_FILE" "i_uid (inode_at t n) = of_int (g_uid s)" "g_uid t = g_uid s" "g_dev t = g_dev s"
    "nfree_blocks s \<le> nfree_blocks t + (blocks_touched 0 (length x) + 2)"
    "\<forall>k. live s k \<and> k \<noteq> 1 \<longrightarrow> inode_at t k = inode_at s k \<and> file_at t k = file_at s k \<and> hole_at t k = hole_at s k"
    "n_slots (inode_at t 1) \<le> Suc (n_slots (inode_at s 1))"
proof -
  let ?b = "blocks_touched 0 (length x)"
  have nm: "namei (47 # w) s = Inl FS_ENOENT" and tg: "open_target (47 # w) s = Some (1, w)"
    using namei_root [OF inv dw pn] fresh by simp_all
  have w: "119 \<in> set (bytes_of ''w'')" by (simp add: bytes_of_def)
  have "0 < nfree_blocks s" using room by simp
  from create_file_total [OF inv dw this] obtain q u where "create_file 1 w s = Some (q, u)" by blast
  then have "\<exists>r s1. fs_open (47 # w) (bytes_of ''w'') s = Some (r, s1)" using nm tg w by (simp add: fs_open_def)
  then obtain fd s1 where o: "fs_open (47 # w) (bytes_of ''w'') s = Some (fd, s1)" by blast
  have "\<not> ((\<forall>k. valid_ino k \<longrightarrow> live s k) \<or> n_slots (inode_at s 1) = 80 \<or> (\<forall>f \<in> set (g_ofile s). of_used f))"
    using ino ns fds by auto
  with fs_open_new [OF inv fds(1) nm w tg dw o] obtain n u1 where n: "fd_open s1 fd n 0 True" "created s 1 n u1" "dir_wf u1 1"
    "s1 = fd_set (nat fd) (\<lambda>_. \<lparr>of_used = True, of_ino = of_nat n, of_offset = 0, of_writable = True\<rparr>) u1"
    "dir_entries u1 1 = dir_entries s 1 @ [(take (NAME_MAX_LEN - 1) (cstr w), n)]" by blast
  have uid: "g_uid u1 = g_uid s" using n(2) by (simp add: created_def same_session_def)
  have same1: "vol_inv s1" "inode_at s1 = inode_at u1" "live s1 = live u1" "g_uid s1 = g_uid s" "nfree_blocks s1 = nfree_blocks u1"
    "dir_wf s1 = dir_wf u1" "dir_entries s1 = dir_entries u1" "file_at s1 = file_at u1" "hole_at s1 = hole_at u1"
    using n(2) uid by (simp_all add: n(4) created_def fun_eq_iff file_at_def)
  have m1: "i_mode (inode_at s1 n) = MODE_FILE" "i_uid (inode_at s1 n) = of_int (g_uid s1)" "i_indirect1 (inode_at s1 n) = 0"
    using n(2) by (simp_all add: same1 created_def)
  note perm = conjunct1 [OF own_file_perms [OF m1(1,2)]]
  have nf: "nfree_blocks s \<le> Suc (nfree_blocks s1)" using n(2) by (simp add: same1(5) created_def)
  then have "need (inode_at s1 n) (?b + (nfree_blocks s1 - (?b + 1))) \<le> nfree_blocks s1"
    using room m1(3) by (simp add: need_def)
  from fs_write_room [OF same1(1) n(1) perm this] obtain r s2 where wr: "fs_write fd x s1 = Some (r, s2)"
    "0 \<le> r \<longrightarrow> nfree_blocks s1 - (?b + 1) \<le> nfree_blocks s2" by blast
  note fw = fs_write_ok [OF same1(1) n(1) perm wr(1)]
  have sm: "\<not> FILE_MAX < 0 + length x" using small by simp
  have r: "r = int (length x)" "fd_open s2 fd n (0 + length x) True"
    "file_size s2 n = max (file_size s1 n) (0 + length x)" "i_mode (inode_at s2 n) = i_mode (inode_at s1 n)"
    "i_uid (inode_at s2 n) = i_uid (inode_at s1 n)" "file_step s1 n s2"
    "\<forall>q. file_at s2 n q = (if 0 \<le> q \<and> q < 0 + length x then x ! (q - 0) else file_at s1 n q)"
    "\<forall>q. 0 \<le> q \<and> q < 0 + length x \<or> \<not> hole_at s1 n q \<longrightarrow> \<not> hole_at s2 n q"
    using fw sm by blast+
  define t where "t = snd (fs_close fd s2)"
  have t: "t = fd_set (nat fd) (\<lambda>f. f\<lparr>of_used := False\<rparr>) s2"
    using fd_openD(1) [OF r(2)] by (simp add: t_def fs_close_def)
  have n1: "n \<noteq> 1" using n(2) dw by (auto simp: created_def dir_wf_def)
  have z: "file_size s1 n = 0" using n(2) by (simp add: file_size_def same1(2) created_def)
  show thesis
  proof (rule that [of fd s1 s2 t n])
    show "fs_open (47 # w) (bytes_of ''w'') s = Some (fd, s1)" "0 \<le> fd" "fs_write fd x s1 = Some (int (length x), s2)"
      "snd (fs_close fd s2) = t"
      using o n(1) wr(1) r(1) by (simp_all add: t_def fd_open_def)
    show "\<not> live s n" "live t = (live s)(n := True)" "vol_inv t"
      using n(2) r(6) by (simp_all add: t created_def file_step_def same1(3))
    show "dir_wf t 1" using r(6) n(3) n1 by (simp add: t file_step_def same1(6))
    have "dir_entries s2 1 = dir_entries s1 1" using r(6) n(3) n1 same1(6) by (simp add: file_step_def)
    then show "dir_entries t 1 = dir_entries s 1 @ [(w, n)]"
      using n(5) plain_name_cut [OF pn] by (simp add: t same1(7))
    show "file_size t n = length x" using r(3) z by (simp add: t file_size_def)
    show "map (file_at t n) [0..<length x] = x"
      using r(7) by (intro nth_equalityI) (simp_all add: t file_at_def)
    show "\<forall>q < length x. \<not> hole_at t n q" using r(8) by (simp add: t hole_at_def)
    show "i_mode (inode_at t n) = MODE_FILE" "i_uid (inode_at t n) = of_int (g_uid s)" "g_uid t = g_uid s"
      using r(4-6) m1 same1(4) by (simp_all add: t file_step_def)
    have "g_dev s1 = g_dev s" using n(2) by (simp add: n(4) created_def same_session_def)
    then show "g_dev t = g_dev s" using r(6) by (simp add: t file_step_def)
    have "live s1 1" using n(3) by (simp add: same1 dir_wf_def)
    then have "inode_at s2 1 = inode_at u1 1" using r(6) n1 by (simp add: file_step_def same1(2))
    then show "n_slots (inode_at t 1) \<le> Suc (n_slots (inode_at s 1))" using n(2) by (simp add: t created_def)
    show "nfree_blocks s \<le> nfree_blocks t + (?b + 2)" using wr(2) r(1) nf by (simp add: t)
    show "\<forall>k. live s k \<and> k \<noteq> 1 \<longrightarrow> inode_at t k = inode_at s k \<and> file_at t k = file_at s k \<and> hole_at t k = hole_at s k"
    proof (intro allI impI, elim conjE)
      fix k
      assume k: "live s k" "k \<noteq> 1"
      then have "live s1 k" "k \<noteq> n" "inode_at s1 k = inode_at s k" "file_at s1 k = file_at s k" "hole_at s1 k = hole_at s k"
        using n(2) by (auto simp: created_def same1)
      moreover have "inode_at s2 k = inode_at s1 k" "file_at s2 k = file_at s1 k" "hole_at s2 k = hole_at s1 k"
        using r(6) \<open>live s1 k\<close> \<open>k \<noteq> n\<close> by (simp_all add: file_step_def)
      moreover have "file_at t = file_at s2" by (simp add: t fun_eq_iff file_at_def)
      ultimately show "inode_at t k = inode_at s k \<and> file_at t k = file_at s k \<and> hole_at t k = hole_at s k" by (simp add: t)
    qed
  qed
qed

lemma users_bootstrap_ok:
  assumes inv: "vol_inv s" and dw: "dir_wf s 1" and fresh: "map_of (dir_entries s 1) USERS_NAME = None"
    and ns: "n_slots (inode_at s 1) < 80" and room: "3 \<le> nfree_blocks s" and ino: "valid_ino m" "\<not> live s m"
    and fds: "length (g_ofile s) = MAX_OPEN" "\<forall>f \<in> set (g_ofile s). \<not> of_used f"
  obtains n t where "users_bootstrap s = Some (FS_OK, t)" "vol_inv t" "dir_wf t 1" "\<not> live s n" "live t = (live s)(n := True)"
    "dir_entries t 1 = dir_entries s 1 @ [(USERS_NAME, n)]"
    "file_size t n = length ROOT_LINE" "map (file_at t n) [0..<length ROOT_LINE] = ROOT_LINE"
    "\<forall>q < length ROOT_LINE. \<not> hole_at t n q"
    "i_mode (inode_at t n) = MODE_FILE" "i_uid (inode_at t n) = of_int (g_uid s)" "g_uid t = g_uid s"
    "g_dev t = g_dev s" "nfree_blocks s \<le> nfree_blocks t + 3" "n_slots (inode_at t 1) \<le> Suc (n_slots (inode_at s 1))"
proof -
  have nm: "namei USERS_PATH s = Inl FS_ENOENT"
    using namei_root [OF inv dw plain_name_users] fresh by (simp add: users_path)
  have b: "blocks_touched 0 (length ROOT_LINE) = 1" unfolding root_line by (simp add: blocks_touched_def)
  have rm: "blocks_touched 0 (length ROOT_LINE) + 2 \<le> nfree_blocks s" using room unfolding b by simp
  have one: "\<exists>f \<in> set (g_ofile s). \<not> of_used f" using fds nth_mem [of 0 "g_ofile s"] by fastforce
  have small: "length ROOT_LINE \<le> FILE_MAX" unfolding root_line by simp
  obtain fd n s1 s2 t where t: "fs_open (47 # USERS_NAME) (bytes_of ''w'') s = Some (fd, s1)" "0 \<le> fd"
    "fs_write fd ROOT_LINE s1 = Some (int (length ROOT_LINE), s2)" "snd (fs_close fd s2) = t" "vol_inv t" "dir_wf t 1" "\<not> live s n"
    "live t = (live s)(n := True)" "dir_entries t 1 = dir_entries s 1 @ [(USERS_NAME, n)]"
    "file_size t n = length ROOT_LINE" "map (file_at t n) [0..<length ROOT_LINE] = ROOT_LINE"
    "\<forall>q < length ROOT_LINE. \<not> hole_at t n q"
    "i_mode (inode_at t n) = MODE_FILE" "i_uid (inode_at t n) = of_int (g_uid s)" "g_uid t = g_uid s" "g_dev t = g_dev s"
    "nfree_blocks s \<le> nfree_blocks t + (blocks_touched 0 (length ROOT_LINE) + 2)" "n_slots (inode_at t 1) \<le> Suc (n_slots (inode_at s 1))"
    by (rule store_new_ok [OF inv dw plain_name_users fresh ns rm ino fds(1) one small]) blast
  show thesis
  proof (rule that [of t n])
    show "users_bootstrap s = Some (FS_OK, t)"
      using nm t(1-4) by (simp add: users_bootstrap_def users_path)
    show "nfree_blocks s \<le> nfree_blocks t + 3" using t(17) unfolding b by simp
  qed (use t(5-16) t(18) in simp_all)
qed

section \<open>Formatting\<close>

lemma vol_inv_dev: "g_dev s = Some p \<Longrightarrow> (snd (dev_close s))\<lparr>g_dev := Some p\<rparr> = s"
  by (cases s) (simp add: dev_close_def)

text \<open>What \<open>fs_format\<close> leaves on the disk, seen with the device still open.\<close>

definition fresh_volume :: "fs \<Rightarrow> nat \<Rightarrow> bool" where
  "fresh_volume t n \<longleftrightarrow> vol_inv t \<and> dir_wf t 1 \<and> n \<noteq> 1 \<and> live t = (\<lambda>i. i = 1 \<or> i = n) \<and>
     dir_entries t 1 = [(bytes_of ''.'', 1), (bytes_of ''..'', 1), (USERS_NAME, n)] \<and>
     file_size t n = length ROOT_LINE \<and> map (file_at t n) [0..<length ROOT_LINE] = ROOT_LINE \<and>
     (\<forall>q < length ROOT_LINE. \<not> hole_at t n q) \<and> i_mode (inode_at t n) = MODE_FILE \<and> 4000 \<le> nfree_blocks t \<and>
     n_slots (inode_at t 1) \<le> 3"

lemma fs_format_refused: "denied s DISK_IMG \<Longrightarrow> fs_format s = Some (FS_ERR, snd (dev_close s))"
  by (simp add: fs_format_def dev_open_def host_fopen_def dev_close_def)

lemma fs_format_ok:
  assumes m: "mem_ok s" and unused: "\<forall>f \<in> set (g_ofile s). \<not> of_used f" and a: "\<not> denied s DISK_IMG"
  obtains n t where "fs_format s = Some (FS_OK, snd (dev_close t))" "g_dev t = Some DISK_IMG" "fresh_volume t n"
    "i_uid (inode_at t n) = of_int (g_uid s)"
proof -
  obtain r s1 where o: "dev_open DISK_IMG (bytes_of ''wb+'') (snd (dev_close s)) = (r, s1)" by fastforce
  note wp = wiped [OF o a]
  have l: "length (sb_slack (wipe TOTAL_BLOCKS s1)) = 448" "length (gd_slack (wipe TOTAL_BLOCKS s1)) = 492"
    using wp(5,6) m by (simp_all add: mem_ok_def)
  obtain s2 where s2: "format_meta s1 = Some s2" "vol_ok s2" "counters_ok s2" "same_session s1 s2"
    "\<And>b. b < 4096 \<Longrightarrow> blk_used s2 b \<longleftrightarrow> b < BLK_DATA_START" "\<And>i. i < 4096 \<Longrightarrow> ino_used s2 i \<longleftrightarrow> i = 1"
    "nfree_blocks s2 = 4027"
    by (rule format_meta_ok [OF wp(2,3) l wp(4)]) blast+
  obtain s3 where s3: "format_root s2 = Some s3" "vol_inv s3" "dir_wf s3 1" "live s3 = (\<lambda>i. i = 1)" "same_session s2 s3"
    "dir_entries s3 1 = [(bytes_of ''.'', 1), (bytes_of ''..'', 1)]" "n_slots (inode_at s3 1) = 2" "4026 \<le> nfree_blocks s3"
    by (rule format_root_ok [OF s2(2,3,6,7)]) blast+
  have ss: "same_session s1 s3" using s2(4) s3(5) by (rule same_session_trans)
  then have g: "g_ofile s3 = g_ofile s" "g_uid s3 = g_uid s" "g_dev s3 = Some DISK_IMG"
    using wp(7-9) by (simp_all add: same_session_def)
  have fr: "map_of (dir_entries s3 1) USERS_NAME = None" unfolding s3(6) by (simp add: bytes_of_def)
  have c: "n_slots (inode_at s3 1) < 80" "3 \<le> nfree_blocks s3" "valid_ino 2" "\<not> live s3 2" using s3(4,7,8) by simp_all
  have fd: "length (g_ofile s3) = MAX_OPEN" "\<forall>f \<in> set (g_ofile s3). \<not> of_used f"
    using m unused by (simp_all add: g mem_ok_def)
  obtain n t where t: "users_bootstrap s3 = Some (FS_OK, t)" "vol_inv t" "dir_wf t 1" "\<not> live s3 n" "live t = (live s3)(n := True)"
    "dir_entries t 1 = dir_entries s3 1 @ [(USERS_NAME, n)]"
    "file_size t n = length ROOT_LINE" "map (file_at t n) [0..<length ROOT_LINE] = ROOT_LINE"
    "\<forall>q < length ROOT_LINE. \<not> hole_at t n q"
    "i_mode (inode_at t n) = MODE_FILE" "i_uid (inode_at t n) = of_int (g_uid s3)" "g_uid t = g_uid s3" "g_dev t = g_dev s3"
    "nfree_blocks s3 \<le> nfree_blocks t + 3" "n_slots (inode_at t 1) \<le> Suc (n_slots (inode_at s3 1))"
    by (rule users_bootstrap_ok [OF s3(2,3) fr c fd]) blast
  show thesis
  proof (rule that [of t n])
    show "fs_format s = Some (FS_OK, snd (dev_close t))"
      using o wp(1) s2(1) s3(1) t(1) by (simp add: fs_format_def)
    show "g_dev t = Some DISK_IMG" using t(13) g(3) by simp
    have "live t = (\<lambda>i. i = 1 \<or> i = n)" using t(5) s3(4) by (auto simp: fun_eq_iff)
    then show "fresh_volume t n" using t(2-4,6-10,14,15) s3(4,6,7,8) by (simp add: fresh_volume_def)
    show "i_uid (inode_at t n) = of_int (g_uid s)" using t(11) g(2) by simp
  qed
qed

section \<open>Mounting\<close>

text \<open>
  What the disk says depends on the image and the metadata only, not on the session.
\<close>

definition same_disk :: "fs \<Rightarrow> fs \<Rightarrow> bool" where
  "same_disk s t \<longleftrightarrow> host t = host s \<and> g_dev t = g_dev s \<and> g_sb t = g_sb s \<and> sb_slack t = sb_slack s \<and>
     g_gd t = g_gd s \<and> gd_slack t = gd_slack s"

lemma same_disk_view:
  assumes "same_disk s t"
  shows "vol_inv t = vol_inv s" "live t = live s" "inode_at t = inode_at s" "phys t = phys s" "file_byte t = file_byte s"
    "dir_entries t = dir_entries s" "dir_wf t = dir_wf s" "nfree_blocks t = nfree_blocks s" "blk t = blk s"
    "file_size t = file_size s" "file_at t = file_at s" "hole_at t = hole_at s"
proof -
  note d = assms [unfolded same_disk_def]
  have rd: "dev_read_block b t = dev_read_block b s" for b using d by (simp add: dev_read_block_def split: option.split)
  show b: "blk t = blk s" by (simp add: fun_eq_iff blk_def rd)
  have u: "blk_used t = blk_used s" "ino_used t = ino_used s" by (simp_all add: fun_eq_iff blk_used_def ino_used_def b)
  show l: "live t = live s" by (simp add: fun_eq_iff live_def u)
  show at: "inode_at t = inode_at s" by (simp add: fun_eq_iff inode_at_def b)
  have ptr: "ptr_list t = ptr_list s" by (simp add: fun_eq_iff ptr_list_def b)
  have o: "owned t = owned s" by (simp add: fun_eq_iff owned_def ptr)
  have ok: "own_ok t = own_ok s" by (simp add: fun_eq_iff own_ok_def o u)
  show n: "nfree_blocks t = nfree_blocks s" by (rule nfree_cong) (rule u)
  have ni: "nfree_inodes t = nfree_inodes s" by (rule nfree_cong) (rule u)
  have v: "vol_ok t = vol_ok s" using d by (simp add: vol_ok_def dev_ok_def)
  have c: "counters_ok t = counters_ok s" using d by (simp add: counters_ok_def n ni meta_synced_def b)
  show "vol_inv t = vol_inv s" by (simp add: vol_inv_def view_inv_def v c l ok o at)
  show p: "phys t = phys s" by (simp add: fun_eq_iff phys_def ptr)
  show fb: "file_byte t = file_byte s" by (simp add: fun_eq_iff file_byte_def p b)
  have sl: "slot_entry i k t = slot_entry i k s" for i k
    by (simp add: slot_entry_def read_slot_def read_dir_block_def rd)
  show "dir_entries t = dir_entries s" by (simp add: fun_eq_iff dir_entries_def entries_upto_def sl at)
  show "dir_wf t = dir_wf s" by (simp add: fun_eq_iff dir_wf_def l at)
  show "file_size t = file_size s" "file_at t = file_at s" "hole_at t = hole_at s"
    by (simp_all add: fun_eq_iff file_size_def file_at_def hole_at_def at fb p)
qed

lemma same_disk_owned:
  assumes "same_disk s t"
  shows "owned t = owned s" "blk_used t = blk_used s"
proof -
  have b: "blk t = blk s" by (rule same_disk_view(9) [OF assms])
  have "ptr_list t = ptr_list s" by (simp add: fun_eq_iff ptr_list_def b)
  then show "owned t = owned s" by (simp add: fun_eq_iff owned_def)
  show "blk_used t = blk_used s" by (simp add: fun_eq_iff blk_used_def b)
qed

text \<open>
  A process that mounts the image finds in memory the metadata the last one had: the counters
  and tables were written through.
\<close>

lemma mount_loads:
  assumes inv: "vol_inv t" and d: "g_dev t = Some img" and h: "host s = host t" and g: "g_dev s = None" and a: "\<not> denied s img"
  obtains u where "same_disk t u" "g_cwd u = 1" "g_ofile u = replicate MAX_OPEN zero_ofile"
    "g_uid u = g_uid s" "g_user u = g_user s" "clock u = clock s" "tick u = tick s"
    "fs_mount img s = do {
       (_, s4) \<leftarrow> users_bootstrap u;
       (q, s5) \<leftarrow> session_load s4;
       Some (FS_OK, if q \<noteq> FS_OK then s5\<lparr>g_uid := 0, g_user := bytes_of ''root''\<rparr> else s5) }"
proof -
  have vt: "view_inv t (inode_at t)" using inv by (simp add: vol_inv_def)
  note v = view_invD(1) [OF vt] and dv = view_invD(3) [OF vt]
  let ?s1 = "s\<lparr>g_dev := Some img\<rparr>"
  have "host t img \<noteq> None" using dv d by (auto simp: dev_ok_def)
  then have o: "dev_open img (bytes_of ''rb+'') s = (FS_OK, ?s1)"
    using g h a by (simp add: dev_open_def host_fopen_def bytes_of_def)
  have rd: "dev_read_block b x = dev_read_block b t" if "g_dev x = Some img" "host x = host t" for x b
    using that d by (simp add: dev_read_block_def)
  have ms: "meta_synced t" using view_invD(2) [OF vt] by (simp add: counters_ok_def)
  then have b: "dev_read_block BLK_SUPER t = Some (enc_sb (g_sb t) @ sb_slack t)"
    "dev_read_block BLK_GDESC t = Some (enc_gd (g_gd t) @ gd_slack t)"
    using dv by (simp_all add: dev_read_ok meta_synced_def)
  let ?s2 = "?s1\<lparr>g_sb := g_sb t, sb_slack := sb_slack t\<rparr>"
  let ?s3 = "?s2\<lparr>g_gd := g_gd t, gd_slack := gd_slack t\<rparr>"
  have l: "load_sb ?s1 = (FS_OK, ?s2)" "load_gd ?s2 = (FS_OK, ?s3)"
    using rd [of ?s1] rd [of ?s2] h b dec_enc_sb [of "g_sb t" "[]"] dec_enc_gd [of "g_gd t" "[]"]
    by (simp_all add: load_sb_def load_gd_def)
  let ?u = "?s3\<lparr>g_cwd := 1, g_ofile := replicate MAX_OPEN zero_ofile\<rparr>"
  show thesis
  proof (rule that [of ?u])
    show "same_disk t ?u" using h d by (simp add: same_disk_def)
    show "fs_mount img s = do {
       (_, s4) \<leftarrow> users_bootstrap ?u;
       (q, s5) \<leftarrow> session_load s4;
       Some (FS_OK, if q \<noteq> FS_OK then s5\<lparr>g_uid := 0, g_user := bytes_of ''root''\<rparr> else s5) }"
      using o l v by (simp add: fs_mount_def vol_okD)
  qed simp_all
qed

text \<open>A freshly formatted disk mounts with root logged in.\<close>

lemma plain_name_session: "plain_name (bytes_of ''.session'')" and session_path: "SESSION_PATH = 47 # bytes_of ''.session''"
  by (simp_all add: plain_name_def bytes_of_def)

text \<open>A mount with a user table and no saved session changes nothing on the disk and logs root in.\<close>

lemma mount_known:
  assumes inv: "vol_inv t" and dw: "dir_wf t 1" and e: "map_of (dir_entries t 1) USERS_NAME = Some n"
    "map_of (dir_entries t 1) (bytes_of ''.session'') = None"
    and d: "g_dev t = Some img" and h: "host s = host t" and g: "g_dev s = None" and a: "\<not> denied s img"
  obtains u where "fs_mount img s = Some (FS_OK, u)" "same_disk t u" "g_uid u = 0" "g_user u = bytes_of ''root''" "g_cwd u = 1"
    "g_ofile u = replicate MAX_OPEN zero_ofile"
proof -
  obtain u where u: "same_disk t u" "g_cwd u = 1" "g_ofile u = replicate MAX_OPEN zero_ofile"
    "fs_mount img s = do {
       (_, s4) \<leftarrow> users_bootstrap u;
       (q, s5) \<leftarrow> session_load s4;
       Some (FS_OK, if q \<noteq> FS_OK then s5\<lparr>g_uid := 0, g_user := bytes_of ''root''\<rparr> else s5) }"
    by (rule mount_loads [OF inv d h g a]) blast
  note sd = same_disk_view [OF u(1)]
  have iu: "vol_inv u" "dir_wf u 1" using inv dw by (simp_all add: sd)
  have "namei USERS_PATH u = Inr n"
    unfolding users_path using namei_root(1) [OF iu plain_name_users] e by (simp add: sd)
  then have ub: "users_bootstrap u = Some (FS_OK, u)" by (simp add: users_bootstrap_def)
  have "namei SESSION_PATH u = Inl FS_ENOENT"
    unfolding session_path using namei_root(1) [OF iu plain_name_session] e by (simp add: sd)
  then have sl: "session_load u = Some (FS_ERR, u)" by (simp add: session_load_def)
  show thesis
  proof (rule that [of "u\<lparr>g_uid := 0, g_user := bytes_of ''root''\<rparr>"])
    show "fs_mount img s = Some (FS_OK, u\<lparr>g_uid := 0, g_user := bytes_of ''root''\<rparr>)"
      using u(4) ub sl by simp
  qed (use u(1-3) in \<open>simp_all add: same_disk_def\<close>)
qed

lemma mount_fresh:
  assumes f: "fresh_volume t n" and d: "g_dev t = Some img" and h: "host s = host t" and g: "g_dev s = None" and a: "\<not> denied s img"
  obtains u where "fs_mount img s = Some (FS_OK, u)" "same_disk t u" "g_uid u = 0" "g_user u = bytes_of ''root''" "g_cwd u = 1"
    "g_ofile u = replicate MAX_OPEN zero_ofile"
proof (rule mount_known [of t n img s])
  show "vol_inv t" "dir_wf t 1" "map_of (dir_entries t 1) USERS_NAME = Some n"
    "map_of (dir_entries t 1) (bytes_of ''.session'') = None"
    using f by (simp_all add: fresh_volume_def bytes_of_def)
qed (use d h g a that in blast)+

end
