(* ===== verification/Demo.thy ===== *)
theory Demo
  imports Format
begin

text \<open>
  A concrete volume for the witnesses: the disk that \<open>format\<close> makes on a host without files,
  mounted by a second process, with \<open>/.users\<close> open for writing on descriptor 0. What holds of it
  follows from the lemmas on \<open>fs_format\<close>, \<open>fs_mount\<close> and \<open>fs_open\<close>.
\<close>

definition demo_start :: fs where
  "demo_start = proc_start (\<lambda>_. None) (\<lambda>_. 0)"

definition demo_disk :: fs where
  "demo_disk = snd (the (fs_format demo_start))"

definition demo_proc :: fs where
  "demo_proc = proc_start (host demo_disk) (\<lambda>_. 0)"

definition demo :: fs where
  "demo = snd (the (fs_mount DISK_IMG demo_proc))"

definition demo_users :: nat where
  "demo_users = (case namei USERS_PATH demo of Inr n \<Rightarrow> n | Inl _ \<Rightarrow> 0)"

definition demo_fd :: fs where
  "demo_fd = snd (the (fs_open USERS_PATH (bytes_of ''w'') demo))"

lemma demo_start_ok: "mem_ok demo_start" "\<forall>f \<in> set (g_ofile demo_start). \<not> of_used f" "g_uid demo_start = 0"
  "\<not> denied demo_start DISK_IMG"
  by (simp_all add: demo_start_def proc_start_def mem_ok_def zero_ofile_def)

lemma demo_mounted:
  obtains n t where "fs_format demo_start = Some (FS_OK, demo_disk)" "fs_mount DISK_IMG demo_proc = Some (FS_OK, demo)"
    "demo_disk = snd (dev_close t)" "g_dev t = Some DISK_IMG"
    "fresh_volume t n" "same_disk t demo" "g_uid demo = 0" "g_user demo = bytes_of ''root''" "g_cwd demo = 1"
    "g_ofile demo = replicate MAX_OPEN zero_ofile" "i_uid (inode_at t n) = 0" "host demo_proc = host t" "g_dev demo_proc = None"
proof -
  obtain n t where f: "fs_format demo_start = Some (FS_OK, snd (dev_close t))" "g_dev t = Some DISK_IMG" "fresh_volume t n"
    "i_uid (inode_at t n) = of_int (g_uid demo_start)"
    by (rule fs_format_ok [OF demo_start_ok(1,2,4)]) blast
  have d: "demo_disk = snd (dev_close t)" using f(1) by (simp add: demo_disk_def)
  have h: "host demo_proc = host t" "g_dev demo_proc = None" "\<not> denied demo_proc DISK_IMG" by (simp_all add: demo_proc_def proc_start_def d dev_close_def)
  obtain u where u: "fs_mount DISK_IMG demo_proc = Some (FS_OK, u)" "same_disk t u" "g_uid u = 0" "g_user u = bytes_of ''root''"
    "g_cwd u = 1" "g_ofile u = replicate MAX_OPEN zero_ofile"
    by (rule mount_fresh [OF f(3,2) h]) blast
  have "u = demo" using u(1) by (simp add: demo_def)
  then show thesis using that f d h u demo_start_ok(3) by simp
qed

lemma demo_namei_users:
  assumes "fresh_volume t n" and "same_disk t demo"
  shows "demo_users = n" "namei USERS_PATH demo = Inr n"
proof -
  note sd = same_disk_view [OF assms(2)]
  have "vol_inv demo" "dir_wf demo 1" using assms(1) by (simp_all add: sd fresh_volume_def)
  from namei_root(1) [OF this plain_name_users] show "namei USERS_PATH demo = Inr n"
    using assms(1) unfolding users_path by (simp add: sd fresh_volume_def bytes_of_def)
  then show "demo_users = n" by (simp add: demo_users_def)
qed

lemma demo_ok:
  shows "vol_inv demo" "vol_ok demo" "counters_ok demo" "dir_wf demo 1" "demo_users \<noteq> 1" "live demo = (\<lambda>i. i = 1 \<or> i = demo_users)"
    "dir_entries demo 1 = [(bytes_of ''.'', 1), (bytes_of ''..'', 1), (USERS_NAME, demo_users)]"
    "file_size demo demo_users = length ROOT_LINE" "map (file_at demo demo_users) [0..<length ROOT_LINE] = ROOT_LINE"
    "\<forall>q < length ROOT_LINE. \<not> hole_at demo demo_users q" "i_mode (inode_at demo demo_users) = MODE_FILE"
    "4000 \<le> nfree_blocks demo" "i_uid (inode_at demo demo_users) = 0"
    "g_uid demo = 0" "g_user demo = bytes_of ''root''" "g_cwd demo = 1" "g_ofile demo = replicate MAX_OPEN zero_ofile"
    "namei USERS_PATH demo = Inr demo_users" "length (g_ofile demo) = MAX_OPEN" "n_slots (inode_at demo 1) \<le> 3"
proof -
  obtain n t where t: "fresh_volume t n" "same_disk t demo" "g_uid demo = 0" "g_user demo = bytes_of ''root''" "g_cwd demo = 1"
    "g_ofile demo = replicate MAX_OPEN zero_ofile" "i_uid (inode_at t n) = 0"
    by (rule demo_mounted) blast
  note sd = same_disk_view [OF t(2)] and nm = demo_namei_users [OF t(1,2)]
  show "vol_inv demo" using t(1) by (simp add: sd fresh_volume_def)
  then have "view_inv demo (inode_at demo)" by (simp add: vol_inv_def)
  then show "vol_ok demo" "counters_ok demo" by (simp_all add: view_invD(1,2))
  show "dir_wf demo 1" "demo_users \<noteq> 1" "live demo = (\<lambda>i. i = 1 \<or> i = demo_users)"
    "dir_entries demo 1 = [(bytes_of ''.'', 1), (bytes_of ''..'', 1), (USERS_NAME, demo_users)]"
    "file_size demo demo_users = length ROOT_LINE" "map (file_at demo demo_users) [0..<length ROOT_LINE] = ROOT_LINE"
    "\<forall>q < length ROOT_LINE. \<not> hole_at demo demo_users q" "i_mode (inode_at demo demo_users) = MODE_FILE"
    "4000 \<le> nfree_blocks demo" "i_uid (inode_at demo demo_users) = 0" "n_slots (inode_at demo 1) \<le> 3"
    using t(1,7) unfolding nm(1) sd by (simp_all add: fresh_volume_def)
  show "namei USERS_PATH demo = Inr demo_users" using nm by simp
  show "g_uid demo = 0" "g_user demo = bytes_of ''root''" "g_cwd demo = 1" "g_ofile demo = replicate MAX_OPEN zero_ofile"
    "length (g_ofile demo) = MAX_OPEN"
    using t(3-6) by simp_all
qed

lemma demo_perms: "perm_can_write i 0" "perm_can_read i 0"
  by (simp_all add: perm_can_write_def perm_can_read_def)

lemma demo_fd_ok:
  shows "fs_open USERS_PATH (bytes_of ''w'') demo = Some (0, demo_fd)" "fd_open demo_fd 0 demo_users 0 True"
    "vol_inv demo_fd" "inode_at demo_fd = inode_at demo" "g_uid demo_fd = 0" "nfree_blocks demo_fd = nfree_blocks demo"
    "file_size demo_fd = file_size demo" "file_at demo_fd = file_at demo" "hole_at demo_fd = hole_at demo"
    "live demo_fd = live demo" "g_ofile demo_fd = (replicate MAX_OPEN zero_ofile)
       [0 := \<lparr>of_used = True, of_ino = of_nat demo_users, of_offset = 0, of_writable = True\<rparr>]"
proof -
  have ri: "read_inode demo_users demo = Some (inode_at demo demo_users)"
    using read_inode_ok [OF demo_ok(2)] live_valid [of demo demo_users] by (simp add: demo_ok(6))
  have "List.find (\<lambda>fd. \<not> of_used (g_ofile demo ! fd)) [0..<MAX_OPEN] = Some 0"
    unfolding find_Some_iff by (intro exI [of _ 0]) (simp add: demo_ok(17) zero_ofile_def)
  then have of: "open_fd demo_users True demo = (0, fd_set 0 (\<lambda>_. \<lparr>of_used = True, of_ino = of_nat demo_users, of_offset = 0, of_writable = True\<rparr>) demo)"
    by (simp add: open_fd_def)
  have o: "fs_open USERS_PATH (bytes_of ''w'') demo = Some (0, fd_set 0 (\<lambda>_. \<lparr>of_used = True, of_ino = of_nat demo_users, of_offset = 0, of_writable = True\<rparr>) demo)"
    using ri demo_ok(14,18) of by (simp add: fs_open_def demo_perms bytes_of_def)
  then have e: "demo_fd = fd_set 0 (\<lambda>_. \<lparr>of_used = True, of_ino = of_nat demo_users, of_offset = 0, of_writable = True\<rparr>) demo"
    by (simp add: demo_fd_def)
  show "fs_open USERS_PATH (bytes_of ''w'') demo = Some (0, demo_fd)" using o e by simp
  have "\<not> (\<forall>f \<in> set (g_ofile demo). of_used f)" using demo_ok(17) by (auto simp: zero_ofile_def)
  then show "fd_open demo_fd 0 demo_users 0 True"
    using open_fd_ok [OF demo_ok(19) _ of] demo_ok(6) e by auto
  show "vol_inv demo_fd" "inode_at demo_fd = inode_at demo" "g_uid demo_fd = 0" "nfree_blocks demo_fd = nfree_blocks demo"
    "file_size demo_fd = file_size demo" "file_at demo_fd = file_at demo" "hole_at demo_fd = hole_at demo"
    "live demo_fd = live demo"
    using demo_ok(1,14) unfolding e by (simp_all add: file_size_def file_at_def hole_at_def fun_eq_iff)
  show "g_ofile demo_fd = (replicate MAX_OPEN zero_ofile)
       [0 := \<lparr>of_used = True, of_ino = of_nat demo_users, of_offset = 0, of_writable = True\<rparr>]"
    unfolding e by (simp add: fd_set_def demo_ok(17))
qed

end
