(* ===== verification/Removal.thy ===== *)
theory Removal
  imports Opening
begin

text \<open>
  Giving up a file: the truncation of \<open>project3/src/inode.c\<close> and the release of an inode of
  \<open>bitmap.c\<close> on a whole volume. Both keep the volume's invariant and the other files.
\<close>

section \<open>Operations that leave the data blocks alone\<close>

text \<open>A live inode that is unchanged, on a disk whose data blocks are, is the same file and directory.\<close>

lemma same_data:
  assumes inv: "vol_inv s" and k: "live s k" "live t k" and at: "inode_at t k = inode_at s k" and dev: "dev_ok t"
    and data: "\<And>b. BLK_DATA_START \<le> b \<Longrightarrow> b < TOTAL_BLOCKS \<Longrightarrow> blk t b = blk s b"
  shows "ptr_list t (inode_at s k) = ptr_list s (inode_at s k)" "file_at t k = file_at s k"
    "hole_at t k = hole_at s k" "dir_wf s k \<Longrightarrow> dir_wf t k \<and> dir_entries t k = dir_entries s k"
proof -
  have vs: "view_inv s (inode_at s)" using inv by (simp add: vol_inv_def)
  note own = view_invD(4) [OF vs k(1)]
  have same: "blk t c = blk s c" if "c \<in> set (owned s (inode_at s k))" for c
    using data view_invD(7) [OF vs k(1) that] by simp
  show ptr: "ptr_list t (inode_at s k) = ptr_list s (inode_at s k)"
    by (rule ptr_list_cong) (intro same indirect_owned)
  have "ptr_list t (inode_at t k) = ptr_list s (inode_at s k)" unfolding at by (rule ptr)
  then show "file_at t k = file_at s k" unfolding file_at_def using own same by (rule file_byte_cong)
  show "hole_at t k = hole_at s k" by (simp add: fun_eq_iff hole_at_def at phys_cong [OF ptr])
  assume d: "dir_wf s k"
  then have "dir_wf t k" using at k(2) by (simp add: dir_wf_def)
  with dir_entries_cong [OF at d inv dev same] show "dir_wf t k \<and> dir_entries t k = dir_entries s k" by simp
qed

text \<open>
  The invariant survives when some inodes of the view go, another is emptied, and only blocks
  that inode owned are released.
\<close>

lemma view_inv_shrink:
  assumes inv: "view_inv s f" and t: "vol_ok t" "counters_ok t" and l: "\<And>k. live t k \<Longrightarrow> live s k"
    and data: "\<And>b. BLK_DATA_START \<le> b \<Longrightarrow> b < TOTAL_BLOCKS \<Longrightarrow> blk t b = blk s b"
    and keep: "\<And>k. live t k \<Longrightarrow> k \<noteq> n \<Longrightarrow> g k = f k" and n: "live t n \<Longrightarrow> blank (g n)"
    and used: "\<And>b. blk_used s b \<Longrightarrow> blk_used t b \<or> live s n \<and> b \<in> set (owned s (f n))"
  shows "view_inv t g"
proof -
  have own: "owned t (g k) = owned s (f k)" if k: "live t k" "k \<noteq> n" for k
  proof -
    have same: "blk t c = blk s c" if "c \<in> set (owned s (f k))" for c
      using data view_invD(7) [OF inv l [OF k(1)] that] by simp
    have "ptr_list t (f k) = ptr_list s (f k)" by (rule ptr_list_cong) (intro same indirect_owned)
    then show ?thesis using keep [OF k] by (simp add: owned_def)
  qed
  have ok: "own_ok t (g k)" if k: "live t k" for k
  proof (cases "k = n")
    case True
    then show ?thesis using n k blank_owns by blast
  next
    case False
    have "own_ok s (f k)" by (rule view_invD(4) [OF inv l [OF k]])
    moreover have "blk_used t b" if b: "b \<in> set (owned s (f k))" for b
      using used view_invD(6,7) [OF inv l [OF k]] b False by blast
    ultimately show ?thesis using own [OF k False] keep [OF k False] by (simp add: own_ok_def)
  qed
  have dis: "set (owned t (g i)) \<inter> set (owned t (g j)) = {}" if "live t i" "live t j" "i \<noteq> j" for i j
  proof (cases "i = n \<or> j = n")
    case True
    then show ?thesis using that n blank_owns by (metis Int_empty_left Int_empty_right list.set(1))
  next
    case False
    then show ?thesis using own that view_invD(6) [OF inv l l] by simp
  qed
  show ?thesis unfolding view_inv_def using t ok dis by blast
qed

section \<open>Truncation\<close>

lemma blank_truncated: "wf_inode i \<Longrightarrow> blank (truncated i mt ct)"
  by (auto simp: blank_def truncated_def wf_inode_def intro!: replicate_eqI)

lemma truncate_live_ok:
  assumes inv: "vol_inv s" and n: "live s n"
  obtains t mt ct where "inode_truncate n s = Some (FS_OK, t)" "file_step s n t" "same_session s t"
    "inode_at t n = truncated (inode_at s n) mt ct"
    "\<And>b. blk_used t b \<longleftrightarrow> blk_used s b \<and> b \<notin> set (owned s (inode_at s n))"
proof -
  have vs: "view_inv s (inode_at s)" using inv by (simp add: vol_inv_def)
  note v = view_invD(1) [OF vs] and own = view_invD(4) [OF vs n]
  obtain t mt ct where t: "inode_truncate n s = Some (FS_OK, t)" "vol_ok t" "same_session s t"
    "counters_ok s \<Longrightarrow> counters_ok t" "ino_used t = ino_used s"
    "\<And>b. blk_used t b \<longleftrightarrow> blk_used s b \<and> b \<notin> set (owned s (inode_at s n))"
    "inode_at t n = truncated (inode_at s n) mt ct"
    "\<And>j. valid_ino j \<Longrightarrow> j \<noteq> n \<Longrightarrow> inode_at t j = inode_at s j"
    "\<And>b. BLK_DATA_START \<le> b \<Longrightarrow> b < TOTAL_BLOCKS \<Longrightarrow> blk t b = blk s b"
    by (rule inode_truncate_ok [OF v live_valid [OF n] own]) blast
  have l: "live t = live s" by (simp add: fun_eq_iff live_def t(5))
  have b: "blank (inode_at t n)" unfolding t(7) by (rule blank_truncated [OF own_okD(1) [OF own]])
  have "view_inv t (inode_at t)"
    by (rule view_inv_shrink [OF vs t(2) t(4) [OF view_invD(2) [OF vs]], where n = n])
      (use l t(6,8,9) b n in \<open>auto dest: live_valid\<close>)
  then have vt: "vol_inv t" by (simp add: vol_inv_def)
  have other: "inode_at t k = inode_at s k" if "live s k" "k \<noteq> n" for k using t(8) that live_valid by blast
  have "file_step s n t"
    unfolding file_step_def
  proof (intro conjI allI impI; (elim conjE)?)
    show "file_at t k = file_at s k" "hole_at t k = hole_at s k" if "live s k" "k \<noteq> n" for k
      by (rule same_data(2,3) [OF inv that(1) _ other [OF that] vol_okD(1) [OF t(2)] t(9)]; use l that in simp)+
    show "dir_wf t k" "dir_entries t k = dir_entries s k" if "dir_wf s k" "k \<noteq> n" for k
    proof -
      have k: "live s k" using that(1) by (simp add: dir_wf_def)
      have "dir_wf t k \<and> dir_entries t k = dir_entries s k"
        by (rule same_data(4) [OF inv k _ other [OF k that(2)] vol_okD(1) [OF t(2)] t(9) that(1)]) (use l k in simp_all)
      then show "dir_wf t k" "dir_entries t k = dir_entries s k" by blast+
    qed
  qed (use vt l other t(3) in \<open>auto simp: same_session_def\<close>)
  then show thesis using that t(1,3,6,7) by blast
qed

section \<open>Releasing an inode\<close>

text \<open>
  The inode is no longer live; the other files are as before. Its blocks, if it still owned any,
  stay marked.
\<close>

lemma free_inode_live_ok:
  assumes inv: "vol_inv s" and n: "live s n"
  obtains t where "free_inode n s = Some t" "vol_inv t" "live t = (live s)(n := False)" "same_session s t"
    "\<And>k. live t k \<Longrightarrow> inode_at t k = inode_at s k \<and> file_at t k = file_at s k \<and> hole_at t k = hole_at s k"
    "\<And>k. live t k \<Longrightarrow> dir_wf s k \<Longrightarrow> dir_wf t k \<and> dir_entries t k = dir_entries s k" "blk_used t = blk_used s"
proof -
  have vs: "view_inv s (inode_at s)" using inv by (simp add: vol_inv_def)
  have rng: "1 \<le> n" "n \<le> MAX_INODES" "ino_used s n" using n by (auto simp: live_def)
  obtain t where t: "free_inode n s = Some t" "bit_step ino_used blk_used n False s t"
    by (rule free_inode_used [OF view_invD(1) [OF vs] rng]) blast
  note bs = bit_stepD [OF t(2)]
  have l: "live t = (live s)(n := False)" using bs(2) by (auto simp: fun_eq_iff live_def)
  have at: "inode_at t k = inode_at s k" if "valid_ino k" for k
    using inode_at_cong [OF that, of t s] bs(7) itbl_range [OF that] by simp
  have data: "\<And>b. BLK_DATA_START \<le> b \<Longrightarrow> b < TOTAL_BLOCKS \<Longrightarrow> blk t b = blk s b" using bs(7) by simp
  have ls: "live s k" if "live t k" for k using that l by (auto split: if_splits)
  have "view_inv t (inode_at t)"
    by (rule view_inv_shrink [OF vs bs(1) free_inode_counters [OF view_invD(1,2) [OF vs] t(1)], where n = n])
      (use l data bs(3) at in \<open>auto dest: live_valid split: if_splits\<close>)
  then have vt: "vol_inv t" by (simp add: vol_inv_def)
  show thesis
  proof (rule that [of t])
    show "inode_at t k = inode_at s k \<and> file_at t k = file_at s k \<and> hole_at t k = hole_at s k" if k: "live t k" for k
      using at [OF live_valid [OF k]] same_data(2,3) [OF inv ls [OF k] k at [OF live_valid [OF k]] vol_okD(1) [OF bs(1)] data] by blast
    show "dir_wf t k \<and> dir_entries t k = dir_entries s k" if k: "live t k" "dir_wf s k" for k
      by (rule same_data(4) [OF inv ls [OF k(1)] k(1) at [OF live_valid [OF k(1)]] vol_okD(1) [OF bs(1)] data k(2)])
  qed (use t(1) vt l bs in simp_all)
qed

end
