(* ===== verification/Calls.thy ===== *)
theory Calls
  imports FileIO
begin

text \<open>
  A program that uses the four calls of \<open>project3/src/file.c\<close> on descriptors, in any order, with any
  descriptor numbers, sizes and offsets and with whatever permissions: what it can do to the
  volume. The calls are typed by the table of open files: each used entry stands for a live inode.
\<close>

datatype call = Write int bytes | Read int nat | Seek int u32 | Close int

fun do_call :: "call \<Rightarrow> fs \<Rightarrow> (int \<times> bytes \<times> fs) option" where
  "do_call (Write fd x) s = map_option (\<lambda>(r, t). (r, [], t)) (fs_write fd x s)"
| "do_call (Read fd n) s = Some (fs_read fd n s)"
| "do_call (Seek fd off) s = (case fs_seek fd off s of (r, t) \<Rightarrow> Some (r, [], t))"
| "do_call (Close fd) s = (case fs_close fd s of (r, t) \<Rightarrow> Some (r, [], t))"

fun calls :: "call list \<Rightarrow> fs \<Rightarrow> ((int \<times> bytes) list \<times> fs) option" where
  "calls [] s = Some ([], s)"
| "calls (c # cs) s = do {
     (r, out, t) \<leftarrow> do_call c s;
     (rs, u) \<leftarrow> calls cs t;
     Some ((r, out) # rs, u) }"

text \<open>The data blocks and the indirect block one call may take.\<close>

fun call_cost :: "call \<Rightarrow> nat" where
  "call_cost (Write fd x) = Suc ((length x + 1022) div BLOCK_SIZE)"
| "call_cost (Read fd n) = 0"
| "call_cost (Seek fd off) = 0"
| "call_cost (Close fd) = 0"

definition table_ok :: "fs \<Rightarrow> bool" where
  "table_ok s \<longleftrightarrow> length (g_ofile s) = MAX_OPEN \<and> (\<forall>f \<in> set (g_ofile s). of_used f \<longrightarrow> live s (unat (of_ino f)))"

text \<open>The inodes that are open, and those that are open for writing.\<close>

definition opened :: "bool \<Rightarrow> fs \<Rightarrow> nat \<Rightarrow> bool" where
  "opened w s k \<longleftrightarrow> (\<exists>f \<in> set (g_ofile s). of_used f \<and> unat (of_ino f) = k \<and> (w \<longrightarrow> of_writable f))"

text \<open>
  What a call may change: the inodes and directories that are open, and the contents of the files
  that are open for writing. It opens nothing.
\<close>

definition call_step :: "fs \<Rightarrow> fs \<Rightarrow> bool" where
  "call_step s t \<longleftrightarrow> vol_inv t \<and> table_ok t \<and> live t = live s \<and> g_uid t = g_uid s \<and> g_cwd t = g_cwd s \<and> g_dev t = g_dev s \<and>
     (\<forall>w k. opened w t k \<longrightarrow> opened w s k) \<and>
     (\<forall>k. live s k \<and> \<not> opened False s k \<longrightarrow> inode_at t k = inode_at s k) \<and>
     (\<forall>k. live s k \<and> \<not> opened True s k \<longrightarrow> file_size t k = file_size s k \<and> file_at t k = file_at s k \<and> hole_at t k = hole_at s k) \<and>
     (\<forall>k. dir_wf s k \<and> \<not> opened False s k \<longrightarrow> dir_wf t k \<and> dir_entries t k = dir_entries s k)"

lemma call_step_refl: "vol_inv s \<Longrightarrow> table_ok s \<Longrightarrow> call_step s s"
  by (simp add: call_step_def)

lemma call_step_trans:
  assumes st: "call_step s t" and tu: "call_step t u"
  shows "call_step s u"
proof -
  note a = st [unfolded call_step_def] and b = tu [unfolded call_step_def]
  have o: "opened w t k \<Longrightarrow> opened w s k" for w k using a by blast
  have l: "live t = live s" using a by blast
  have i: "inode_at u k = inode_at s k" if "live s k" "\<not> opened False s k" for k
    using a b that o l by metis
  have c: "file_size u k = file_size s k \<and> file_at u k = file_at s k \<and> hole_at u k = hole_at s k" if "live s k" "\<not> opened True s k" for k
    using a b that o l by metis
  have d: "dir_wf u k \<and> dir_entries u k = dir_entries s k" if "dir_wf s k" "\<not> opened False s k" for k
    using a b that o by metis
  show ?thesis unfolding call_step_def using a b i c d by simp
qed

text \<open>A used descriptor in the terms of the lemmas on single calls.\<close>

lemma table_open:
  assumes t: "table_ok s" and d: "\<not> fd_bad fd s" and f: "f = g_ofile s ! nat fd"
  shows "fd_open s fd (unat (of_ino f)) (unat (of_offset f)) (of_writable f)" "f \<in> set (g_ofile s)" "of_used f"
proof -
  have r: "0 \<le> fd" "fd < int MAX_OPEN" "of_used f" "length (g_ofile s) = MAX_OPEN"
    using d t by (auto simp: fd_bad_def table_ok_def f)
  then show m: "f \<in> set (g_ofile s)" "of_used f" by (simp_all add: f)
  have "live s (unat (of_ino f))" using t m by (simp add: table_ok_def)
  moreover have "unat (of_offset f) < 2 ^ 32" using unsigned_less [of "of_offset f", where 'a = nat] by simp
  ultimately show "fd_open s fd (unat (of_ino f)) (unat (of_offset f)) (of_writable f)"
    using r by (simp add: fd_open_def f [symmetric])
qed

text \<open>The table after one entry has a new offset or is unused: it stays typed and opens nothing.\<close>

lemma table_update:
  assumes t: "table_ok s" and g: "g_ofile u = (g_ofile s)[n := h]" and l: "live u = live s"
    and h: "of_used h \<longrightarrow> n < length (g_ofile s) \<longrightarrow>
      of_used (g_ofile s ! n) \<and> of_ino h = of_ino (g_ofile s ! n) \<and> of_writable h = of_writable (g_ofile s ! n)"
  shows "table_ok u" "opened w u k \<Longrightarrow> opened w s k"
proof -
  have old: "\<exists>f' \<in> set (g_ofile s). of_used f' \<and> of_ino f = of_ino f' \<and> of_writable f = of_writable f'"
    if "f \<in> set (g_ofile u)" "of_used f" for f
  proof (cases "f \<in> set (g_ofile s)")
    case True
    then show ?thesis using that(2) by blast
  next
    case False
    then have "f = h" using that(1) set_update_subset_insert [of "g_ofile s" n h] unfolding g by auto
    moreover have "n < length (g_ofile s)"
    proof (rule ccontr)
      assume "\<not> n < length (g_ofile s)"
      then have "g_ofile u = g_ofile s" unfolding g by (simp add: list_update_beyond)
      then show False using False that(1) by simp
    qed
    ultimately show ?thesis using h that(2) by (intro bexI [of _ "g_ofile s ! n"]) auto
  qed
  show "opened w u k \<Longrightarrow> opened w s k" unfolding opened_def using old by metis
  show "table_ok u" unfolding table_ok_def
  proof (intro conjI ballI impI)
    show "length (g_ofile u) = MAX_OPEN" using t g by (simp add: table_ok_def)
    fix f
    assume "f \<in> set (g_ofile u)" "of_used f"
    from old [OF this] t show "live u (unat (of_ino f))" by (auto simp: table_ok_def l)
  qed
qed

text \<open>A step through a used descriptor.\<close>

lemma file_call_step:
  assumes t: "table_ok s" and fd: "\<not> fd_bad fd s" and f: "f = g_ofile s ! nat fd"
    and st: "file_step s (unat (of_ino f)) u" and k: "table_kept s fd u"
    and same: "of_writable f \<or> file_size u (unat (of_ino f)) = file_size s (unat (of_ino f)) \<and>
      file_at u (unat (of_ino f)) = file_at s (unat (of_ino f)) \<and> hole_at u (unat (of_ino f)) = hole_at s (unat (of_ino f))"
  shows "call_step s u"
proof -
  note o = table_open [OF t fd f]
  have l: "live u = live s" using st by (simp add: file_step_def)
  obtain p where g: "g_ofile u = (g_ofile s)[nat fd := (g_ofile s ! nat fd)\<lparr>of_offset := p\<rparr>]"
    using k by (auto simp: table_kept_def)
  have op: "opened False s (unat (of_ino f))" "of_writable f \<Longrightarrow> opened True s (unat (of_ino f))"
    using o(2,3) by (auto simp: opened_def)
  have "of_used (g_ofile s ! nat fd)" using o(3) f by simp
  then have tu: "table_ok u" "\<And>w k. opened w u k \<Longrightarrow> opened w s k"
    by (auto intro: table_update [OF t g l])
  have c: "file_size u k = file_size s k \<and> file_at u k = file_at s k \<and> hole_at u k = hole_at s k"
    if k: "live s k" "\<not> opened True s k" for k
  proof (cases "k = unat (of_ino f)")
    case True
    then show ?thesis using same op(2) k(2) by blast
  next
    case False
    then show ?thesis using st k(1) by (simp add: file_step_def file_size_def)
  qed
  have "inode_at u k = inode_at s k" if "live s k" "\<not> opened False s k" for k
    using st that op(1) unfolding file_step_def by metis
  moreover have "dir_wf u k \<and> dir_entries u k = dir_entries s k" if "dir_wf s k" "\<not> opened False s k" for k
    using st that op(1) unfolding file_step_def by metis
  ultimately show ?thesis unfolding call_step_def using st tu c by (simp add: file_step_def)
qed

lemma offset_step:
  assumes "vol_inv s" and "table_ok s" and "\<not> fd_bad fd s"
  shows "call_step s (fd_set (nat fd) (\<lambda>f. f\<lparr>of_offset := p\<rparr>) s)"
  by (rule file_call_step [OF assms(2,3) refl _ table_kept_set])
    (use assms(1) in \<open>simp_all add: file_step_def file_at_def fun_eq_iff file_size_def\<close>)

lemma close_step:
  assumes inv: "vol_inv s" and t: "table_ok s"
  shows "call_step s (fd_set (nat fd) (\<lambda>f. f\<lparr>of_used := False\<rparr>) s)" (is "call_step s ?u")
proof -
  have "table_ok ?u" "\<And>w k. opened w ?u k \<Longrightarrow> opened w s k"
    by (rule table_update [OF t, where u = ?u and n = "nat fd" and h = "(g_ofile s ! nat fd)\<lparr>of_used := False\<rparr>"]; simp add: fd_set_def live_def fun_eq_iff)+
  with inv show ?thesis by (simp add: call_step_def file_size_def file_at_def fun_eq_iff)
qed

lemma blocks_touched_le: "blocks_touched pos n \<le> (n + 1022) div BLOCK_SIZE"
proof -
  have "pos mod BLOCK_SIZE < BLOCK_SIZE" by simp
  then show ?thesis unfolding blocks_touched_def by (intro div_le_mono) linarith
qed

lemma do_call_ok:
  assumes inv: "vol_inv s" and t: "table_ok s" and room: "call_cost c + m \<le> nfree_blocks s"
  shows "\<exists>r out u. do_call c s = Some (r, out, u) \<and> call_step s u \<and> m \<le> nfree_blocks u"
proof (cases c)
  case (Write fd x)
  let ?f = "g_ofile s ! nat fd" and ?i = "inode_at s (unat (of_ino (g_ofile s ! nat fd)))"
  show ?thesis
  proof (cases "fd_bad fd s")
    case True
    then show ?thesis using Write room call_step_refl [OF inv t] by (simp add: fs_write_def)
  next
    case False
    note o = table_open [OF t False refl]
    have vs: "view_inv s (inode_at s)" using inv by (simp add: vol_inv_def)
    have lv: "live s (unat (of_ino ?f))" using o(1) by (simp add: fd_open_def)
    have rd: "read_inode (unat (of_ino ?f)) s = Some ?i" using view_invD(1) [OF vs] live_valid [OF lv] by (rule read_inode_ok)
    show ?thesis
    proof (cases "of_writable ?f \<and> perm_can_write ?i (g_uid s)")
      case no: False
      then have "fs_write fd x s = Some (FS_EPERM, s)" using False rd by (auto simp: fs_write_def Let_def)
      then show ?thesis using Write room call_step_refl [OF inv t] by simp
    next
      case True
      have fd: "fd_open s fd (unat (of_ino ?f)) (unat (of_offset ?f)) True" using o(1) True by simp
      have "need ?i (blocks_touched (unat (of_offset ?f)) (length x) + m) \<le> nfree_blocks s"
        using room Write blocks_touched_le [of "unat (of_offset ?f)" "length x"] by (simp add: need_def)
      from fs_write_room [OF inv fd conjunct2 [OF True] this] obtain r u
        where w: "fs_write fd x s = Some (r, u)" "m \<le> nfree_blocks u" by blast
      have "file_step s (unat (of_ino ?f)) u" "table_kept s fd u"
        using fs_write_ok [OF inv fd conjunct2 [OF True] w(1)] by blast+
      from file_call_step [OF t False refl this] True w Write show ?thesis by simp
    qed
  qed
next
  case (Read fd n)
  let ?f = "g_ofile s ! nat fd" and ?i = "inode_at s (unat (of_ino (g_ofile s ! nat fd)))"
  obtain r out u where rd: "fs_read fd n s = (r, out, u)" by (cases "fs_read fd n s") auto
  have "call_step s u \<and> nfree_blocks u = nfree_blocks s"
  proof (cases "fd_bad fd s")
    case True
    then show ?thesis using rd call_step_refl [OF inv t] by (simp add: fs_read_def)
  next
    case False
    note o = table_open [OF t False refl]
    have vs: "view_inv s (inode_at s)" using inv by (simp add: vol_inv_def)
    have lv: "live s (unat (of_ino ?f))" using o(1) by (simp add: fd_open_def)
    have ri: "read_inode (unat (of_ino ?f)) s = Some ?i" using view_invD(1) [OF vs] live_valid [OF lv] by (rule read_inode_ok)
    show ?thesis
    proof (cases "perm_can_read ?i (g_uid s)")
      case no: False
      then have "u = s" using rd False ri by (auto simp: fs_read_def Let_def)
      then show ?thesis using call_step_refl [OF inv t] by simp
    next
      case True
      note ro = fs_read_ok [OF inv o(1) True rd]
      have "call_step s u"
        by (rule file_call_step [OF t False refl]) (use ro in \<open>auto simp: fun_eq_iff\<close>)
      moreover have "nfree_blocks u = nfree_blocks s" by (rule nfree_cong(1)) (use ro in blast)
      ultimately show ?thesis by simp
    qed
  qed
  then show ?thesis using Read rd room by simp
next
  case (Seek fd off)
  have nf: "nfree_blocks (fd_set n g s) = nfree_blocks s" for n g by simp
  show ?thesis
  proof (cases "fd_bad fd s")
    case True
    then show ?thesis using Seek room call_step_refl [OF inv t] by (simp add: fs_seek_def)
  next
    case False
    then show ?thesis using Seek room nf offset_step [OF inv t False] by (simp add: fs_seek_def)
  qed
next
  case (Close fd)
  show ?thesis
  proof (cases "fd_bad fd s")
    case True
    then show ?thesis using Close room call_step_refl [OF inv t] by (simp add: fs_close_def)
  next
    case False
    then show ?thesis using Close room close_step [OF inv t] by (simp add: fs_close_def)
  qed
qed

lemma calls_ok:
  assumes "vol_inv s" and "table_ok s" and "sum_list (map call_cost cs) \<le> nfree_blocks s"
  shows "\<exists>rs t. calls cs s = Some (rs, t) \<and> length rs = length cs \<and> call_step s t"
  using assms
proof (induction cs arbitrary: s)
  case Nil
  then show ?case by (simp add: call_step_refl)
next
  case (Cons c cs)
  then have "call_cost c + sum_list (map call_cost cs) \<le> nfree_blocks s" by simp
  from do_call_ok [OF Cons.prems(1,2) this] obtain r out u
    where u: "do_call c s = Some (r, out, u)" "call_step s u" "sum_list (map call_cost cs) \<le> nfree_blocks u" by blast
  have "vol_inv u" "table_ok u" using u(2) by (simp_all add: call_step_def)
  from Cons.IH [OF this u(3)] obtain rs t where t: "calls cs u = Some (rs, t)" "length rs = length cs" "call_step u t" by blast
  from call_step_trans [OF u(2) t(3)] t(1,2) u(1) show ?case by simp
qed

end
