(* ===== verification/Fs_Props.thy ===== *)
theory Fs_Props
  imports Demo Removal Calls
begin

text \<open>
  The properties of the file system proper, each over the definitions of the layers below and
  with a witness on the volume of \<open>Demo\<close>.
\<close>

section \<open>Files\<close>

text \<open>C3: Writing. On a consistent volume a write through a writable descriptor either puts the
  buffer's bytes at the offset, leaves every other byte of the file (holes read as zeros) and every
  other file and directory alone, grows the size to cover the bytes and advances the offset; or the
  file would need more than 138 blocks, and the call returns \<open>FS_ENOSPC\<close> with inode and descriptor
  unchanged.\<close>
theorem write_replaces_bytes:
  assumes "vol_inv s" and "fd_open s fd ino off True" and "perm_can_write (inode_at s ino) (g_uid s)"
    and "fs_write fd buf s = Some (r, t)"
  shows "file_step s ino t \<and>
    (r = FS_ENOSPC \<and> FILE_MAX < off + length buf \<and> fd_open t fd ino off True \<and> inode_at t ino = inode_at s ino \<or>
     r = int (length buf) \<and> fd_open t fd ino (off + length buf) True \<and>
     file_size t ino = max (file_size s ino) (off + length buf) \<and>
     i_mode (inode_at t ino) = i_mode (inode_at s ino) \<and> i_uid (inode_at t ino) = i_uid (inode_at s ino) \<and>
     (\<forall>q. file_at t ino q = (if off \<le> q \<and> q < off + length buf then buf ! (q - off) else file_at s ino q)) \<and>
     (\<forall>q. off \<le> q \<and> q < off + length buf \<or> \<not> hole_at s ino q \<longrightarrow> \<not> hole_at t ino q))"
  using fs_write_ok [OF assms] by blast

lemma demo_write:
  obtains r t where "fs_write 0 [104, 105] demo_fd = Some (r, t)" "0 \<le> r"
proof -
  have room: "need (inode_at demo_fd demo_users) (blocks_touched 0 (length [104, 105 :: u8])) \<le> nfree_blocks demo_fd"
    using demo_ok(12) by (simp add: need_def blocks_touched_def demo_fd_ok(6))
  have p: "perm_can_write (inode_at demo_fd demo_users) (g_uid demo_fd)" by (simp add: demo_fd_ok(5) demo_perms)
  obtain r t where w: "fs_write 0 [104, 105] demo_fd = Some (r, t)"
    using fs_write_total [OF demo_fd_ok(3,2) p room] by blast
  have "0 \<le> r" using fs_write_ok [OF demo_fd_ok(3,2) p w] by auto
  with w show thesis by (rule that)
qed

lemma write_replaces_bytes_witness:
  "\<exists>t. fs_write 0 [104, 105] demo_fd = Some (2, t) \<and> file_at t demo_users 0 = 104 \<and> file_at t demo_users 1 = 105 \<and>
     file_at t demo_users 2 = file_at demo demo_users 2 \<and> file_size t demo_users = 12"
proof -
  obtain r t where w: "fs_write 0 [104, 105] demo_fd = Some (r, t)" "0 \<le> r" by (rule demo_write)
  have p: "perm_can_write (inode_at demo_fd demo_users) (g_uid demo_fd)" by (simp add: demo_fd_ok(5) demo_perms)
  from write_replaces_bytes [OF demo_fd_ok(3,2) p w(1)] w show ?thesis
    by (auto simp: demo_fd_ok(7,8) demo_ok(8) root_line)
qed

text \<open>C4: A write that succeeds is read back: seeking to where it began and reading as many bytes
  returns exactly the buffer, wherever in the file it went and however many blocks it crossed.\<close>
theorem write_then_read:
  assumes "vol_inv s" and "fd_open s fd ino off True" and "off < 2 ^ 31"
    and "perm_can_write (inode_at s ino) (g_uid s)" and "perm_can_read (inode_at s ino) (g_uid s)"
    and "fs_write fd buf s = Some (r, t)" and "0 \<le> r"
    and "fs_seek fd (of_nat off) t = (k, v)" and "fs_read fd (length buf) v = (n, out, u)"
  shows "n = int (length buf) \<and> out = buf \<and> vol_inv u"
  by (rule write_read_back [OF assms])

lemma write_then_read_witness:
  "\<exists>t n u. fs_write 0 [104, 105] demo_fd = Some (2, t) \<and> fs_read 0 2 (snd (fs_seek 0 0 t)) = (n, [104, 105], u) \<and> vol_inv u"
proof -
  obtain r t where w: "fs_write 0 [104, 105] demo_fd = Some (r, t)" "0 \<le> r" by (rule demo_write)
  have p: "perm_can_write (inode_at demo_fd demo_users) (g_uid demo_fd)"
    "perm_can_read (inode_at demo_fd demo_users) (g_uid demo_fd)" by (simp_all add: demo_fd_ok(5) demo_perms)
  have r2: "r = 2" using fs_write_ok [OF demo_fd_ok(3,2) p(1) w(1)] w(2) by auto
  obtain n out u where rd: "fs_read 0 2 (snd (fs_seek 0 0 t)) = (n, out, u)" by (metis prod_cases3)
  then have rd2: "fs_read 0 (length [104, 105 :: u8]) (snd (fs_seek 0 (of_nat 0) t)) = (n, out, u)"
    by (simp add: numeral_2_eq_2)
  have s0: "fs_seek 0 (of_nat 0) t = (fst (fs_seek 0 (of_nat 0) t), snd (fs_seek 0 (of_nat 0) t))" by simp
  have off: "(0 :: nat) < 2 ^ 31" by simp
  have c: "n = int (length [104, 105 :: u8]) \<and> out = [104, 105] \<and> vol_inv u"
    by (rule write_then_read [OF demo_fd_ok(3,2) off p w s0 rd2])
  from rd have "fs_read 0 2 (snd (fs_seek 0 0 t)) = (n, [104, 105], u)" using c by simp
  with w(1) r2 c show ?thesis by blast
qed

text \<open>C5: Reading. On a consistent volume a permitted read returns the file's bytes from the offset
  on and advances the offset past them; it stops after \<open>len\<close> bytes, at the end of the file, or at
  the first hole. It changes nothing else: the inode is as it was but for its access time, which
  becomes the time of the call, and at or behind the end of the file not even that; no block
  is taken or given back, contents and size stay, no other file changes and of the table of open
  files only the offset of this descriptor.\<close>
theorem read_copies_bytes:
  assumes "vol_inv s" and "fd_open s fd ino off w" and "perm_can_read (inode_at s ino) (g_uid s)"
    and "fs_read fd len s = (r, out, t)"
  shows "file_step s ino t \<and>
    (\<exists>p. r = int (p - off) \<and> out = map (file_at s ino) [off..<p] \<and> fd_open t fd ino p w \<and>
       read_upto s (inode_at s ino) off (min len (file_size s ino - off)) p) \<and>
    file_at t ino = file_at s ino \<and> file_size t ino = file_size s ino \<and>
    (\<forall>q. hole_at t ino q = hole_at s ino q) \<and>
    inode_at t ino = (if file_size s ino \<le> off then inode_at s ino else (inode_at s ino)\<lparr>i_atime := clock s (tick s)\<rparr>) \<and>
    blk_used t = blk_used s \<and> table_kept s fd t"
  using fs_read_ok [OF assms] by blast

lemma read_copies_bytes_witness:
  "\<exists>r out t p. fs_read 0 4 demo_fd = (r, out, t) \<and> out = map (file_at demo demo_users) [0..<p] \<and> file_step demo_fd demo_users t"
proof -
  obtain r out t where rd: "fs_read 0 4 demo_fd = (r, out, t)" by (metis prod_cases3)
  have p: "perm_can_read (inode_at demo_fd demo_users) (g_uid demo_fd)" by (simp add: demo_fd_ok(5) demo_perms)
  from read_copies_bytes [OF demo_fd_ok(3,2) p rd] rd show ?thesis
    by (auto simp: demo_fd_ok(8))
qed

text \<open>A write always returns when enough blocks are free for those it touches and one more for
  the indirect table: the scan for a free block then never leaves the 512-byte bitmap.\<close>
lemma write_completes:
  assumes "vol_inv s" and "fd_open s fd ino off True" and "perm_can_write (inode_at s ino) (g_uid s)"
    and "blocks_touched off (length buf) + 1 \<le> nfree_blocks s"
  shows "\<exists>r t. fs_write fd buf s = Some (r, t) \<and> (r = FS_ENOSPC \<or> r = int (length buf))"
proof -
  have "need (inode_at s ino) (blocks_touched off (length buf)) \<le> nfree_blocks s" using assms(4) by (simp add: need_def)
  from fs_write_total [OF assms(1-3) this] obtain r t where w: "fs_write fd buf s = Some (r, t)" by blast
  with fs_write_ok [OF assms(1-3) w] show ?thesis by blast
qed

text \<open>C2: The calls on descriptors are safe whatever a program does with them: any sequence of reads, writes,
  seeks and closes, with any descriptor numbers, buffers, sizes and offsets and any permissions,
  is answered call by call when as many blocks are free as its writes can touch, and leaves a
  consistent volume with a well-typed table of open files; inodes and directories that were not
  open are as they were, and so are the contents of files not open for writing.\<close>
theorem calls_keep_volume:
  assumes "vol_inv s" and "table_ok s" and "sum_list (map call_cost cs) \<le> nfree_blocks s"
  shows "\<exists>rs t. calls cs s = Some (rs, t) \<and> length rs = length cs \<and> vol_inv t \<and> table_ok t \<and> live t = live s \<and>
    (\<forall>w k. opened w t k \<longrightarrow> opened w s k) \<and>
    (\<forall>k. live s k \<and> \<not> opened False s k \<longrightarrow> inode_at t k = inode_at s k) \<and>
    (\<forall>k. dir_wf s k \<and> \<not> opened False s k \<longrightarrow> dir_wf t k \<and> dir_entries t k = dir_entries s k) \<and>
    (\<forall>k. live s k \<and> \<not> opened True s k \<longrightarrow> file_size t k = file_size s k \<and> file_at t k = file_at s k \<and> hole_at t k = hole_at s k)"
proof -
  obtain rs t where t: "calls cs s = Some (rs, t)" "length rs = length cs" "call_step s t" using calls_ok [OF assms] by blast
  note c = t(3) [unfolded call_step_def]
  show ?thesis by (rule exI [of _ rs], rule exI [of _ t]) (use t(1,2) c in simp)
qed

lemma calls_keep_volume_witness:
  "\<exists>rs t. calls [Write 0 (replicate 1000 7), Seek 0 (- 5), Read 0 3, Write 9 [1], Close 0, Read 0 3] demo_fd = Some (rs, t) \<and>
     length rs = 6 \<and> vol_inv t \<and> dir_entries t 1 = dir_entries demo_fd 1"
proof -
  let ?cs = "[Write 0 (replicate 1000 7), Seek 0 (- 5), Read 0 3, Write 9 [1], Close 0, Read 0 3]"
  have u: "unat (of_nat demo_users :: u32) = demo_users"
    using live_valid [of demo demo_users] by (simp add: demo_ok(6) unat_of_nat)
  have g: "set (g_ofile demo_fd) \<subseteq> {zero_ofile, \<lparr>of_used = True, of_ino = of_nat demo_users, of_offset = 0, of_writable = True\<rparr>}"
    unfolding demo_fd_ok(11) by (rule order_trans [OF set_update_subset_insert]) auto
  then have used: "unat (of_ino f) = demo_users" if "f \<in> set (g_ofile demo_fd)" "of_used f" for f
    using that u by (auto simp: zero_ofile_def)
  have "length (g_ofile demo_fd) = MAX_OPEN" by (simp add: demo_fd_ok(11))
  then have t: "table_ok demo_fd" using used by (auto simp: table_ok_def demo_fd_ok(10) demo_ok(6))
  have n: "sum_list (map call_cost ?cs) \<le> nfree_blocks demo_fd" using demo_ok(12) by (simp add: demo_fd_ok(6))
  have o: "\<not> opened False demo_fd 1" using used demo_ok(5) by (auto simp: opened_def)
  obtain rs t where r: "calls ?cs demo_fd = Some (rs, t)" "length rs = length ?cs" "vol_inv t"
    "\<forall>k. dir_wf demo_fd k \<and> \<not> opened False demo_fd k \<longrightarrow> dir_wf t k \<and> dir_entries t k = dir_entries demo_fd k"
    using calls_keep_volume [OF demo_fd_ok(3) t n] by blast
  have "dir_wf demo_fd 1" using demo_ok(4) unfolding dir_wf_def demo_fd_ok(4,10) .
  with r o show ?thesis by auto
qed

section \<open>Directories and paths\<close>

text \<open>C6: Path resolution is the walk that looks up the nonempty segments between slashes, each cut
  to 55 bytes, one after the other, from the root for an absolute path and from the current
  directory for another; the empty path is an error.\<close>
theorem path_is_walk:
  "namei path s =
     (if path = [] then Inl FS_ERR
      else walk s (unat (if hd path = 47 then root_ino (g_sb s) else g_cwd s)) (segments path))"
proof (cases path)
  case (Cons c cs)
  have "segments (47 # cs) = segments cs" by (simp add: segments_def)
  with Cons show ?thesis by (simp add: namei_def namei_loop_walk)
qed (simp add: namei_def)

text \<open>Looking a name up in a directory is \<open>map_of\<close> on its entries in slot order: the first entry
  in use whose name agrees on 56 bytes, or \<open>FS_ENOENT\<close>.\<close>
lemma lookup_is_map_of:
  assumes "vol_ok s" and "valid_ino d" and "is_dir_mode (i_mode (inode_at s d))"
  shows "dir_lookup d name s =
     (case map_of (dir_entries s d) (take NAME_MAX_LEN (cstr name)) of Some x \<Rightarrow> Inr x | None \<Rightarrow> Inl FS_ENOENT)"
  by (rule dir_lookup_ok [OF assms])

lemma demo_root: "valid_ino 1" "is_dir_mode (i_mode (inode_at demo 1))" "live demo 1"
  using demo_ok(4) by (simp_all add: dir_wf_def)

lemma demo_map_of: "map_of (dir_entries demo 1) (take NAME_MAX_LEN (cstr USERS_NAME)) = Some demo_users"
  unfolding demo_ok(7) conjunct1 [OF plain_name_cut [OF plain_name_users]] by (simp add: bytes_of_def)

text \<open>C7: Adding a directory entry. With fewer than 80 slots the name, cut to 55 bytes, and the inode
  number become the last entry, the volume stays consistent and no other inode and no block in use
  that is not the directory's changes; a directory with 80 slots refuses with \<open>FS_ENOSPC\<close> and is
  left as it was.\<close>
theorem add_appends_entry:
  assumes "vol_inv s" and "dir_wf s d" and "0 < c" and "c < 2 ^ 32" and "dir_add d name ft c s = Some (r, t)"
  shows "if n_slots (inode_at s d) < 80
    then r = FS_OK \<and> only_changed s d t \<and> dir_wf t d \<and> n_slots (inode_at t d) = Suc (n_slots (inode_at s d)) \<and>
      dir_entries t d = dir_entries s d @ [(take (NAME_MAX_LEN - 1) (cstr name), c)]
    else r = FS_ENOSPC \<and> t = s"
proof (cases "n_slots (inode_at s d) < 80")
  case True
  with dir_add_ok [OF assms(1,2) refl True assms(3-5)] show ?thesis by simp
next
  case False
  then have "n_slots (inode_at s d) = 80" using assms(2) by (simp add: dir_wf_def)
  with dir_add_80 [OF assms(1,2)] assms(5) show ?thesis by simp
qed

lemma demo_room: "n_slots (inode_at demo 1) < 80 \<or> n_slots (inode_at demo 1) = 80"
  using demo_ok(4) by (auto simp: dir_wf_def)

lemma demo_add: "\<exists>r t. dir_add 1 [97] FT_REG 9 demo = Some (r, t)"
proof -
  have "0 < card {i \<in> {BLK_DATA_START..<4096}. \<not> blk_used demo i}" using demo_ok(12) by (simp add: nfree_blocks_def n_free_def)
  then have "{i \<in> {BLK_DATA_START..<4096}. \<not> blk_used demo i} \<noteq> {}" using card_gt_0_iff by blast
  then have "\<exists>b. BLK_DATA_START \<le> b \<and> b < 4096 \<and> \<not> blk_used demo b" by auto
  then show ?thesis using dir_add_total [OF demo_ok(1,4)] by blast
qed

lemma add_appends_entry_witness:
  "\<exists>r t. dir_add 1 [97] FT_REG 9 demo = Some (r, t) \<and>
    (if n_slots (inode_at demo 1) < 80 then dir_entries t 1 = dir_entries demo 1 @ [([97], 9)] else t = demo)"
proof -
  obtain r t where a: "dir_add 1 [97] FT_REG 9 demo = Some (r, t)" using demo_add by blast
  have "cstr [97] = [97 :: u8]" by (simp add: cstr_def)
  with add_appends_entry [OF demo_ok(1,4) _ _ a] a show ?thesis by (auto split: if_splits)
qed

text \<open>C8: Removing a name takes its first entry out of the directory and nothing else, and the slot
  is not reused: the size stays; a name that is not there gives \<open>FS_ENOENT\<close> without a change.\<close>
theorem remove_drops_entry:
  assumes "vol_inv s" and "dir_wf s d" and "nm = take NAME_MAX_LEN (cstr name)"
  shows "case map_of (dir_entries s d) nm of
      None \<Rightarrow> dir_remove d name s = (FS_ENOENT, s)
    | Some x \<Rightarrow> \<exists>t. dir_remove d name s = (FS_OK, t) \<and> only_changed s d t \<and> dir_wf t d \<and>
        dir_entries t d = remove1 (nm, x) (dir_entries s d) \<and> i_size (inode_at t d) = i_size (inode_at s d)"
proof (cases "map_of (dir_entries s d) nm")
  case None
  have "view_inv s (inode_at s)" "live s d" using assms(1,2) by (simp_all add: vol_inv_def dir_wf_def)
  with dir_remove_absent [OF view_invD(1) live_valid] None assms(3) show ?thesis by simp
next
  case (Some x)
  obtain t where "dir_remove d name s = (FS_OK, t)" "only_changed s d t" "dir_wf t d"
    "dir_entries t d = remove1 (nm, x) (dir_entries s d)" "i_size (inode_at t d) = i_size (inode_at s d)"
    by (rule dir_remove_ok [OF assms Some])
  with Some show ?thesis by auto
qed

lemma remove_drops_entry_witness:
  "\<exists>t. dir_remove 1 USERS_NAME demo = (FS_OK, t) \<and> dir_entries t 1 = [(bytes_of ''.'', 1), (bytes_of ''..'', 1)]"
proof -
  have e: "remove1 (USERS_NAME, demo_users) (dir_entries demo 1) = [(bytes_of ''.'', 1), (bytes_of ''..'', 1)]"
    unfolding demo_ok(7) by (simp add: bytes_of_def)
  have n: "take NAME_MAX_LEN (cstr USERS_NAME) = USERS_NAME" using plain_name_cut [OF plain_name_users] by (rule conjunct1)
  obtain t where t: "dir_remove 1 USERS_NAME demo = (FS_OK, t)"
    "dir_entries t 1 = remove1 (take NAME_MAX_LEN (cstr USERS_NAME), demo_users) (dir_entries demo 1)"
    using remove_drops_entry [OF demo_ok(1,4) refl, of USERS_NAME] unfolding demo_map_of option.simps by blast
  show ?thesis using t(1) t(2) [unfolded n e] by blast
qed


section \<open>Allocation and release\<close>

text \<open>C9: Truncating a live file releases exactly the blocks it owned, through its direct pointers,
  its indirect block and that block's table, leaves it empty, and changes no other file; the
  volume stays consistent.\<close>
theorem truncate_releases_owned:
  assumes "vol_inv s" and "live s n"
  shows "\<exists>t. inode_truncate n s = Some (FS_OK, t) \<and> file_step s n t \<and> file_size t n = 0 \<and> owned t (inode_at t n) = [] \<and>
    (\<forall>b. blk_used t b \<longleftrightarrow> blk_used s b \<and> b \<notin> set (owned s (inode_at s n)))"
proof -
  have "wf_inode (inode_at s n)" using assms view_invD(5) by (auto simp: vol_inv_def)
  obtain t mt ct where t: "inode_truncate n s = Some (FS_OK, t)" "file_step s n t"
    "inode_at t n = truncated (inode_at s n) mt ct"
    "\<And>b. blk_used t b \<longleftrightarrow> blk_used s b \<and> b \<notin> set (owned s (inode_at s n))"
    by (rule truncate_live_ok [OF assms]) blast
  moreover have "owned t (inode_at t n) = []"
    using blank_owns blank_truncated \<open>wf_inode (inode_at s n)\<close> t(3) by metis
  ultimately show ?thesis by (auto simp: file_size_def truncated_def)
qed

lemma truncate_releases_owned_witness:
  "\<exists>t. inode_truncate demo_users demo = Some (FS_OK, t) \<and> file_size demo demo_users = 12 \<and> file_size t demo_users = 0 \<and>
     dir_entries t 1 = dir_entries demo 1"
proof -
  have "live demo demo_users" by (simp add: demo_ok(6))
  from truncate_releases_owned [OF demo_ok(1) this] obtain t where t: "inode_truncate demo_users demo = Some (FS_OK, t)"
    "file_step demo demo_users t" "file_size t demo_users = 0" by blast
  moreover have "dir_entries t 1 = dir_entries demo 1" using t(2) demo_ok(4,5) by (auto simp: file_step_def)
  ultimately show ?thesis using demo_ok(8) by (auto simp: root_line)
qed

text \<open>Allocating a block on a volume that has a free one among the 4096 its bitmap can describe
  takes the lowest such block from 69 on, marks it and nothing else, and keeps both free counters
  equal to the number of free blocks (plus the 515 blocks without a bit); releasing it restores
  the bitmap.\<close>
lemma block_alloc_release:
  assumes "vol_ok s" and "counters_ok s" and "0 < nfree_blocks s"
  shows "\<exists>b t u. alloc_block s = Some (int b, t) \<and> BLK_DATA_START \<le> b \<and> b < 4096 \<and> \<not> blk_used s b \<and>
    (\<forall>k. BLK_DATA_START \<le> k \<and> k < b \<longrightarrow> blk_used s k) \<and> blk_used t = (blk_used s)(b := True) \<and> counters_ok t \<and>
    nfree_blocks s = Suc (nfree_blocks t) \<and> free_block b t = Some u \<and> blk_used u = blk_used s \<and> counters_ok u"
proof -
  have "0 < card {i \<in> {BLK_DATA_START..<4096}. \<not> blk_used s i}" using assms(3) by (simp add: nfree_blocks_def n_free_def)
  then have "{i \<in> {BLK_DATA_START..<4096}. \<not> blk_used s i} \<noteq> {}" using card_gt_0_iff by blast
  then obtain i where "BLK_DATA_START \<le> i" "i < 4096" "\<not> blk_used s i" by auto
  then obtain r t where a: "alloc_block s = Some (r, t)" "0 \<le> r" using blocks.alloc_complete [OF assms(1)] by blast
  note p = blocks.alloc_sound [OF assms(1) a]
  obtain u where u: "free_block (nat r) t = Some u" "blk_used u = blk_used s"
    by (rule blocks.alloc_release_inverse [OF assms(1) a]) blast
  have least: "blk_used s k" if k: "BLK_DATA_START \<le> k" "k < nat r" for k
  proof (rule ccontr)
    assume f: "\<not> blk_used s k"
    obtain j where j: "BLK_DATA_START \<le> j" "j \<le> k" "\<not> blk_used s j" "\<And>m. BLK_DATA_START \<le> m \<Longrightarrow> m < j \<Longrightarrow> blk_used s m"
      by (rule least_free [OF k(1), of "blk_used s", OF f]) blast
    have "j < 4096" using j(2) k(2) p by simp
    from alloc_block_takes [OF assms(1) j(1) this j(3,4)] obtain v where "alloc_block s = Some (int j, v)" by blast
    with a(1) have "r = int j" by simp
    with j(2) k(2) show False by simp
  qed
  have "counters_ok t" by (rule alloc_block_counters [OF assms(1,2) a(1)])
  moreover have "counters_ok u" using free_block_counters [OF _ \<open>counters_ok t\<close> u(1)] p by blast
  moreover have "nfree_blocks s = Suc (nfree_blocks t)" by (rule alloc_block_nfree [OF assms(1) a(1)])
  ultimately show ?thesis
    using a p u least by (intro exI [of _ "nat r"] exI [of _ t] exI [of _ u]) simp
qed

text \<open>C10: The bitmap overrun. When all 4096 bits are set the scan for a free block goes on to block
  numbers whose bit lies behind the 512-byte buffer, although the loop's bound admits them: the
  call's outcome is not determined (\<open>None\<close>), it is not \<open>FS_ENOSPC\<close>.\<close>
theorem full_bitmap_overrun:
  assumes "vol_ok s" and "nfree_blocks s = 0"
  shows "alloc_block s = None"
proof (rule alloc_block_full [OF assms(1)])
  fix k
  assume k: "BLK_DATA_START \<le> k" "k < 4096"
  have "card {i \<in> {BLK_DATA_START..<4096}. \<not> blk_used s i} = 0" using assms(2) by (simp add: nfree_blocks_def n_free_def)
  then have "{i \<in> {BLK_DATA_START..<4096}. \<not> blk_used s i} = {}" by simp
  with k show "blk_used s k" by auto
qed

definition full_demo :: fs where
  "full_demo = put_blk BLK_BMAP (replicate 512 255) demo"

lemma full_bitmap_overrun_witness: "alloc_block full_demo = None"
proof (rule full_bitmap_overrun)
  have d: "dev_ok demo" by (rule vol_okD(1) [OF demo_ok(2)])
  show "vol_ok full_demo" using demo_ok(2) by (simp add: full_demo_def)
  have "blk_used full_demo k" if "k < 4096" for k
  proof -
    have "k div 8 < 512" using that by simp
    moreover have "bit (255 :: u8) (k mod 8)"
    proof -
      have "k mod 8 \<in> {0, 1, 2, 3, 4, 5, 6, 7}" by auto
      then show ?thesis by auto
    qed
    ultimately show ?thesis using d by (simp add: full_demo_def blk_used_def bm_bit_def)
  qed
  then have "{i \<in> {BLK_DATA_START..<4096}. \<not> blk_used full_demo i} = {}" by auto
  then show "nfree_blocks full_demo = 0" by (simp add: nfree_blocks_def n_free_def del: Collect_empty_eq)
qed

text \<open>An inode that is written is read back field by field, and the other 255 are untouched.\<close>
lemma inode_store_roundtrip:
  assumes "vol_ok s" and "valid_ino n" and "wf_inode i"
  shows "\<exists>t. write_inode n i s = (FS_OK, t) \<and> read_inode n t = Some i \<and>
    (\<forall>k. valid_ino k \<and> k \<noteq> n \<longrightarrow> read_inode k t = read_inode k s)"
proof (intro exI conjI allI impI)
  note p = put_inode_ok [OF assms]
  show "write_inode n i s = (FS_OK, put_inode n i s)" by (rule put_inode_eq(1) [OF assms(1,2)])
  show "read_inode n (put_inode n i s) = Some i" using p by (simp add: read_inode_ok [OF p(1) assms(2)])
  show "read_inode k (put_inode n i s) = read_inode k s" if "valid_ino k \<and> k \<noteq> n" for k
    using that p(4) by (simp add: read_inode_ok [OF p(1)] read_inode_ok [OF assms(1)])
qed

section \<open>Opening, formatting, mounting\<close>

text \<open>C11: Opening a file that exists checks the owner's or the others' permission bit for the mode
  (root passes): without it the answer is \<open>FS_EPERM\<close> and nothing changes; with it the lowest
  unused descriptor is opened at offset 0, the file as it was, unless all 64 are in use.\<close>
theorem open_existing_checks_mode:
  assumes "vol_inv s" and "length (g_ofile s) = MAX_OPEN" and "namei path s = Inr ino" and "live s ino"
    and "fs_open path mode s = Some (r, t)"
  shows "let w = 119 \<in> set mode; i = inode_at s ino in
    if \<not> (if w then perm_can_write i (g_uid s) else perm_can_read i (g_uid s)) then r = FS_EPERM \<and> t = s
    else r = FS_ERR \<and> t = s \<and> (\<forall>f \<in> set (g_ofile s). of_used f) \<or>
      fd_open t r ino 0 w \<and> fd_bad r s \<and> file_step s ino t \<and> inode_at t ino = i \<and> file_at t ino = file_at s ino"
  by (rule fs_open_existing [OF assms])

definition user_demo :: fs where
  "user_demo = demo\<lparr>g_uid := 5\<rparr>"

lemma user_demo_ok: "same_disk demo user_demo" "g_uid user_demo = 5" "length (g_ofile user_demo) = MAX_OPEN"
  "vol_inv user_demo" "live user_demo = live demo" "inode_at user_demo = inode_at demo" "namei USERS_PATH user_demo = Inr demo_users"
proof -
  show sd: "same_disk demo user_demo" by (simp add: same_disk_def user_demo_def)
  show "g_uid user_demo = 5" "length (g_ofile user_demo) = MAX_OPEN" using demo_ok(19) by (simp_all add: user_demo_def)
  note v = same_disk_view [OF sd]
  show "vol_inv user_demo" "live user_demo = live demo" "inode_at user_demo = inode_at demo" using demo_ok(1) by (simp_all add: v)
  have iw: "vol_inv user_demo" "dir_wf user_demo 1" using demo_ok(1,4) by (simp_all add: v)
  show "namei USERS_PATH user_demo = Inr demo_users"
    unfolding users_path namei_root(1) [OF iw plain_name_users] unfolding v demo_ok(7) by (simp add: bytes_of_def)
qed

lemma open_existing_checks_mode_witness: "fs_open USERS_PATH (bytes_of ''w'') user_demo = Some (FS_EPERM, user_demo)"
proof -
  have l: "live user_demo demo_users" by (simp add: user_demo_ok(5) demo_ok(6))
  have "view_inv user_demo (inode_at user_demo)" using user_demo_ok(4) by (simp add: vol_inv_def)
  then have ri: "read_inode demo_users user_demo = Some (inode_at demo demo_users)"
    using read_inode_ok [OF view_invD(1) live_valid [OF l]] user_demo_ok(6) by simp
  then have "\<exists>r t. fs_open USERS_PATH (bytes_of ''w'') user_demo = Some (r, t)"
    using user_demo_ok(7) by (simp add: fs_open_def Let_def)
  then obtain r t where o: "fs_open USERS_PATH (bytes_of ''w'') user_demo = Some (r, t)" by blast
  have np: "\<not> perm_can_write (inode_at demo demo_users) 5" using demo_ok(11,13) by (simp add: perm_can_write_def)
  have w: "119 \<in> set (bytes_of ''w'')" by (simp add: bytes_of_def)
  from open_existing_checks_mode [OF user_demo_ok(4,3,7) l o] np w o show ?thesis
    by (simp add: user_demo_ok(2,6) Let_def)
qed

text \<open>C12: Opening for writing a path that does not resolve creates the file in its directory: a fresh
  inode, empty, mode 0644, owned by the current user, entered under the last component cut to 55
  bytes, and open for writing at offset 0; it fails only when there is no inode, no slot in the
  directory or no descriptor left.\<close>
theorem open_creates_file:
  assumes "vol_inv s" and "length (g_ofile s) = MAX_OPEN" and "namei path s = Inl e" and "119 \<in> set mode"
    and "open_target path s = Some (d, name)" and "dir_wf s d" and "fs_open path mode s = Some (r, t)"
  shows "(r < 0 \<and> (t = s \<or> (\<exists>n. created s d n t)) \<and> ((\<forall>k. valid_ino k \<longrightarrow> live s k) \<or>
       n_slots (inode_at s d) = 80 \<or> (\<forall>f \<in> set (g_ofile s). of_used f))) \<or>
    (\<exists>n u. fd_open t r n 0 True \<and> created s d n u \<and> dir_wf u d \<and>
       t = fd_set (nat r) (\<lambda>_. \<lparr>of_used = True, of_ino = of_nat n, of_offset = 0, of_writable = True\<rparr>) u \<and>
       dir_entries u d = dir_entries s d @ [(take (NAME_MAX_LEN - 1) (cstr name), n)])"
  by (rule fs_open_new [OF assms])

lemma open_creates_file_witness:
  "\<exists>r t n u. fs_open (47 # [97]) (bytes_of ''w'') demo = Some (r, t) \<and>
     (r < 0 \<or> created demo 1 n u \<and> dir_entries u 1 = dir_entries demo 1 @ [([97], n)])"
proof -
  have pn: "plain_name [97]" by (simp add: plain_name_def)
  have nm: "namei (47 # [97]) demo = Inl FS_ENOENT" "open_target (47 # [97]) demo = Some (1, [97])"
    using namei_root [OF demo_ok(1,4) pn] unfolding demo_ok(7) by (simp_all add: bytes_of_def)
  have w: "119 \<in> set (bytes_of ''w'')" by (simp add: bytes_of_def)
  have "0 < nfree_blocks demo" using demo_ok(12) by simp
  from create_file_total [OF demo_ok(1,4) this] obtain q u where "create_file 1 [97] demo = Some (q, u)" by blast
  then have "\<exists>r t. fs_open (47 # [97]) (bytes_of ''w'') demo = Some (r, t)" using nm w by (simp add: fs_open_def)
  then obtain r t where o: "fs_open (47 # [97]) (bytes_of ''w'') demo = Some (r, t)" by blast
  have c: "take (NAME_MAX_LEN - 1) (cstr [97]) = [97 :: u8]" by (simp add: cstr_def)
  from open_creates_file [OF demo_ok(1,19) nm(1) w nm(2) demo_ok(4) o] o show ?thesis unfolding c by blast
qed

text \<open>C13: Formatting in any session without open descriptors returns. If the host refuses to open
  \<open>disk.img\<close> the result is \<open>FS_ERR\<close> and no file changes. Otherwise the file, whatever it held, is a
  consistent volume: the root directory with its two dot entries and the user
  table with the single line \<open>root:root:0\<close>, and nothing else (no \<open>/.session\<close>, which the README
  names among the files made); and a new process that mounts the image finds exactly
  that volume, with root logged in and no descriptor open.\<close>
theorem format_then_mount:
  assumes "mem_ok s" and "\<forall>f \<in> set (g_ofile s). \<not> of_used f"
  shows "if denied s DISK_IMG then \<exists>d. fs_format s = Some (FS_ERR, d) \<and> host d = host s
    else \<exists>d. fs_format s = Some (FS_OK, d) \<and> (\<forall>p. host p = host d \<and> g_dev p = None \<and> \<not> denied p DISK_IMG \<longrightarrow>
      (\<exists>n u. fs_mount DISK_IMG p = Some (FS_OK, u) \<and> fresh_volume u n \<and> namei SESSION_PATH u = Inl FS_ENOENT \<and>
        g_uid u = 0 \<and> g_user u = bytes_of ''root'' \<and> g_cwd u = 1 \<and> g_ofile u = replicate MAX_OPEN zero_ofile))"
proof (cases "denied s DISK_IMG")
  case True
  then show ?thesis using fs_format_refused [OF True] by (auto simp: dev_close_def)
next
  case False
  obtain n t where f: "fs_format s = Some (FS_OK, snd (dev_close t))" "g_dev t = Some DISK_IMG" "fresh_volume t n"
    by (rule fs_format_ok [OF assms False]) blast
  have "\<exists>n u. fs_mount DISK_IMG p = Some (FS_OK, u) \<and> fresh_volume u n \<and> namei SESSION_PATH u = Inl FS_ENOENT \<and>
      g_uid u = 0 \<and> g_user u = bytes_of ''root'' \<and> g_cwd u = 1 \<and> g_ofile u = replicate MAX_OPEN zero_ofile"
    if p: "host p = host (snd (dev_close t))" "g_dev p = None" "\<not> denied p DISK_IMG" for p
  proof -
    have h: "host p = host t" using p(1) by (simp add: dev_close_def)
    obtain u where u: "fs_mount DISK_IMG p = Some (FS_OK, u)" "same_disk t u" "g_uid u = 0" "g_user u = bytes_of ''root''"
      "g_cwd u = 1" "g_ofile u = replicate MAX_OPEN zero_ofile"
      by (rule mount_fresh [OF f(3,2) h p(2,3)]) blast
    have v: "fresh_volume u n" using f(3) unfolding fresh_volume_def same_disk_view [OF u(2)] .
    then have "vol_inv u" "dir_wf u 1" "map_of (dir_entries u 1) (bytes_of ''.session'') = None"
      by (simp_all add: fresh_volume_def bytes_of_def)
    then have "namei SESSION_PATH u = Inl FS_ENOENT" using namei_root(1) [OF _ _ plain_name_session] by (simp add: session_path)
    with u v show ?thesis by blast
  qed
  then show ?thesis using False f(1) by auto
qed

lemma format_then_mount_witness:
  "(\<exists>n u. fs_mount DISK_IMG demo_proc = Some (FS_OK, u) \<and> fresh_volume u n) \<and>
   (\<exists>d. fs_format (demo_start\<lparr>denied := \<lambda>_. True\<rparr>) = Some (FS_ERR, d) \<and> host d = (\<lambda>_. None))"
proof -
  obtain n t where t: "fs_format demo_start = Some (FS_OK, demo_disk)"
    by (rule demo_mounted) blast
  have h: "host demo_proc = host demo_disk" "g_dev demo_proc = None" "\<not> denied demo_proc DISK_IMG"
    by (simp_all add: demo_proc_def proc_start_def)
  have r: "mem_ok (demo_start\<lparr>denied := \<lambda>_. True\<rparr>)" "\<forall>f \<in> set (g_ofile (demo_start\<lparr>denied := \<lambda>_. True\<rparr>)). \<not> of_used f"
    "host demo_start = (\<lambda>_. None)"
    using demo_start_ok(1,2) by (simp_all add: mem_ok_def demo_start_def proc_start_def)
  have "\<exists>n u. fs_mount DISK_IMG demo_proc = Some (FS_OK, u) \<and> fresh_volume u n"
    using format_then_mount [OF demo_start_ok(1,2), unfolded if_not_P [OF demo_start_ok(4)]] t h
    by (elim exE conjE) (drule spec [of _ demo_proc], auto)
  with format_then_mount [OF r(1,2)] r(3) show ?thesis by simp
qed

section \<open>Texts\<close>

text \<open>A saved session is restored: parsing the text of \<open>/.session\<close> gives back the uid and the
  user name it was made from.\<close>
lemma session_text_roundtrip:
  assumes "- (2 ^ 31) \<le> uid" and "uid < 2 ^ 31" and "user \<noteq> []" and "length user < MAX_USER_LEN" and "10 \<notin> set user"
  shows "session_parse (session_text uid user) = Some (uid, user)"
  by (rule session_roundtrip [OF assms])

end
