(* ===== verification/Cli.thy ===== *)
theory Cli
  imports Format Removal
begin

text \<open>
  \<open>project3/src/cli.c\<close> and the two display functions of \<open>util.c\<close>: the commands and the dispatch
  of \<open>main\<close>. A command returns what it prints and the state after it, \<open>None\<close> where the C code has
  no defined behaviour. Arguments are those after the program's name. \<open>tz\<close> is the offset of local
  time from UTC in seconds, less than a day either way, and \<open>junk\<close> the memory behind the buffer of
  \<open>read_whole_file\<close>; \<open>malloc\<close> of a nonnegative size succeeds.
\<close>

section \<open>Modes and times\<close>

text \<open>One letter for each permission bit: 114, 119, 120 are r, w, x, 45 the minus.\<close>

definition mode_to_str :: "u16 \<Rightarrow> bytes" where
  "mode_to_str m =
     (if is_dir_mode m then 100 else 45) #
     map (\<lambda>(b, c). if bit m b then c else 45)
       [(8, 114), (7, 119), (6, 120), (5, 114), (4, 119), (3, 120), (2, 114), (1, 119), (0, 120)]"

text \<open>
  \<open>localtime\<close> and \<open>strftime\<close> with \<open>"%Y-%m-%d %H:%M:%S"\<close>: years are counted off from 1969, which
  the earliest local time can fall in, then months. The 19 characters fit the caller's buffer.
\<close>

definition leap :: "nat \<Rightarrow> bool" where
  "leap y \<longleftrightarrow> y mod 4 = 0 \<and> (y mod 100 \<noteq> 0 \<or> y mod 400 = 0)"

definition month_len :: "nat \<Rightarrow> nat \<Rightarrow> nat" where
  "month_len y m = (if m = 2 then (if leap y then 29 else 28) else if m \<in> {4, 6, 9, 11} then 30 else 31)"

function year_of :: "nat \<Rightarrow> nat \<Rightarrow> nat \<times> nat" where
  "year_of y d = (let n = (if leap y then 366 else 365) in if d < n then (y, d) else year_of (y + 1) (d - n))"
  by pat_completeness auto
termination by (relation "measure snd") (auto split: if_splits)

fun month_of :: "nat \<Rightarrow> nat list \<Rightarrow> nat \<Rightarrow> nat \<times> nat" where
  "month_of y [] d = (12, d)"
| "month_of y (m # ms) d = (if d < month_len y m then (m, d) else month_of y ms (d - month_len y m))"

declare year_of.simps [simp del]

definition human_time :: "int \<Rightarrow> u32 \<Rightarrow> bytes" where
  "human_time tz t =
     (let l = nat (uint t + tz + 365 * 86400);
          (y, yd) = year_of 1969 (l div 86400);
          (m, d) = month_of y [1..<13] yd;
          sec = l mod 86400 in
      pad_zero 4 y @ [45] @ pad_zero 2 m @ [45] @ pad_zero 2 (d + 1) @ [32] @
      pad_zero 2 (sec div 3600) @ [58] @ pad_zero 2 (sec div 60 mod 60) @ [58] @ pad_zero 2 (sec mod 60))"

section \<open>Listing\<close>

definition LS_HEAD :: bytes where
  "LS_HEAD = bytes_of ''mode       uid  type name                                               size      ctime                mtime                atime''"

definition ls_line :: "int \<Rightarrow> dirent \<Rightarrow> inode \<Rightarrow> bytes" where
  "ls_line tz de c =
     puts (pad_right 10 (mode_to_str (i_mode c)) @ [32] @ pad_right 3 (fmt_u (unat (i_uid c))) @ [32, 32] @
       pad_right 4 (if de_file_type de = FT_DIR then bytes_of ''dir'' else bytes_of ''file'') @ [32] @
       pad_right 50 (cstr (de_name de)) @ [32] @ pad_right 8 (fmt_u (unat (i_size c))) @ [32] @
       pad_right 19 (human_time tz (i_ctime c)) @ [32] @ pad_right 19 (human_time tz (i_mtime c)) @ [32] @
       pad_right 19 (human_time tz (i_atime c)))"

text \<open>
  One slot. A slot past the tenth block is an access outside \<open>direct\<close>; a name without a zero byte
  would be printed past its end.
\<close>

definition ls_slot :: "int \<Rightarrow> inode \<Rightarrow> nat \<Rightarrow> fs \<Rightarrow> bytes option" where
  "ls_slot tz din k s =
     (if k * DIRENT_SIZE div BLOCK_SIZE \<ge> NDIRECT then None
      else case read_slot din k s of
        None \<Rightarrow> Some []
      | Some de \<Rightarrow>
          if de_ino de = 0 then Some []
          else case read_inode (unat (de_ino de)) s of
            None \<Rightarrow> Some []
          | Some c \<Rightarrow> if 0 \<in> set (de_name de) then Some (ls_line tz de c) else None)"

fun ls_slots :: "int \<Rightarrow> inode \<Rightarrow> nat list \<Rightarrow> fs \<Rightarrow> bytes option" where
  "ls_slots tz din [] s = Some []"
| "ls_slots tz din (k # ks) s = do { a \<leftarrow> ls_slot tz din k s; b \<leftarrow> ls_slots tz din ks s; Some (a @ b) }"

definition cmd_ls :: "int \<Rightarrow> bytes option \<Rightarrow> fs \<Rightarrow> (bytes \<times> fs) option" where
  "cmd_ls tz path s =
     (case (case path of None \<Rightarrow> Inr (unat (g_cwd s)) | Some p \<Rightarrow> if p = [] then Inr (unat (g_cwd s)) else namei p s) of
        Inl _ \<Rightarrow> Some (puts (bytes_of ''ls: no such file/dir''), s)
      | Inr ino \<Rightarrow>
          (case read_inode ino s of
             None \<Rightarrow> Some (puts (bytes_of ''ls: read inode fail''), s)
           | Some din \<Rightarrow>
               if \<not> is_dir_mode (i_mode din) then Some (puts (bytes_of ''ls: not a directory''), s)
               else do {
                 b \<leftarrow> ls_slots tz din [0..<unat (i_size din) div DIRENT_SIZE] s;
                 Some (puts LS_HEAD @ b, s) }))"

section \<open>Volumes and directories\<close>

definition cmd_format :: "fs \<Rightarrow> (bytes \<times> fs) option" where
  "cmd_format s = do {
     (r, t) \<leftarrow> fs_format s;
     Some (puts (if r = FS_OK then bytes_of ''[OK] formatted'' else bytes_of ''[ERR] format fail''), t) }"

definition cmd_mount :: "fs \<Rightarrow> (bytes \<times> fs) option" where
  "cmd_mount s = do {
     (r, t) \<leftarrow> fs_mount (bytes_of ''disk.img'') s;
     Some (puts (if r = FS_OK then bytes_of ''[OK] mounted'' else bytes_of ''[ERR] mount fail''), t) }"

text \<open>The directory and name of a path; \<open>Inl\<close> is the message of a path that has none.\<close>

definition mkdir_target :: "bytes \<Rightarrow> fs \<Rightarrow> bytes + nat \<times> bytes" where
  "mkdir_target path s =
     (case split_last 47 path of
        None \<Rightarrow> Inr (unat (g_cwd s), take (NAME_MAX_LEN - 1) path)
      | Some (parent, leaf) \<Rightarrow>
          if length parent \<ge> 256 then Inl (bytes_of ''mkdir: path too long'')
          else case namei (if parent = [] then [47] else parent) s of
                 Inl _ \<Rightarrow> Inl (bytes_of ''mkdir: parent missing'')
               | Inr d \<Rightarrow> Inr (d, take (NAME_MAX_LEN - 1) leaf))"

definition new_dir :: "nat \<Rightarrow> nat \<Rightarrow> fs \<Rightarrow> fs option" where
  "new_dir ino parent s = do {
     let (ct, s1) = ts_now s;
     let (mt, s2) = ts_now s1;
     let (at, s3) = ts_now s2;
     let s4 = snd (write_inode ino (zero_inode\<lparr>i_mode := MODE_DIR, i_links := 2, i_uid := of_int (g_uid s),
                i_ctime := ct, i_mtime := mt, i_atime := at\<rparr>) s3);
     (_, s5) \<leftarrow> dir_add ino (bytes_of ''.'') FT_DIR ino s4;
     (_, s6) \<leftarrow> dir_add ino (bytes_of ''..'') FT_DIR parent s5;
     Some s6 }"

definition cmd_mkdir :: "bytes \<Rightarrow> fs \<Rightarrow> (bytes \<times> fs) option" where
  "cmd_mkdir path s =
     (case mkdir_target path s of
        Inl msg \<Rightarrow> Some (puts msg, s)
      | Inr (parent, name) \<Rightarrow> do {
          (n, s1) \<leftarrow> alloc_inode s;
          if n < 0 then Some (puts (bytes_of ''mkdir: no inode''), s1)
          else do {
            s2 \<leftarrow> new_dir (nat n) parent s1;
            (r, s3) \<leftarrow> dir_add parent name FT_DIR (nat n) s2;
            Some (puts (if r = FS_OK then bytes_of ''[OK]'' else bytes_of ''mkdir: dir_add fail''), s3) } })"

definition cmd_cd :: "bytes \<Rightarrow> fs \<Rightarrow> bytes \<times> fs" where
  "cmd_cd path s =
     (case namei path s of
        Inl _ \<Rightarrow> (puts (bytes_of ''[ERR]''), s)
      | Inr ino \<Rightarrow> (puts (bytes_of ''[OK]''), s\<lparr>g_cwd := of_nat ino\<rparr>))"

section \<open>Descriptors\<close>

definition cmd_create :: "bytes \<Rightarrow> fs \<Rightarrow> (bytes \<times> fs) option" where
  "cmd_create path s = do {
     (fd, s1) \<leftarrow> fs_open path (bytes_of ''w'') s;
     if fd \<ge> 0 then Some (puts (bytes_of ''[OK]''), snd (fs_close fd s1)) else Some (puts (bytes_of ''[ERR]''), s1) }"

definition cmd_open :: "bytes \<Rightarrow> bytes \<Rightarrow> fs \<Rightarrow> (bytes \<times> fs) option" where
  "cmd_open path m s = do {
     (fd, s1) \<leftarrow> fs_open path m s;
     Some (if fd < 0 then puts (bytes_of ''[ERR]'') else puts (bytes_of ''fd='' @ fmt_d fd), s1) }"

definition wrote_line :: "int \<Rightarrow> bytes" where
  "wrote_line n = puts (bytes_of ''wrote='' @ fmt_d n)"

definition read_line :: "int \<Rightarrow> bytes \<Rightarrow> bytes" where
  "read_line r out = puts (bytes_of ''read='' @ fmt_d r @ bytes_of '': '' @ cstr out)"

definition cmd_write_fd :: "int \<Rightarrow> bytes \<Rightarrow> fs \<Rightarrow> (bytes \<times> fs) option" where
  "cmd_write_fd fd x s = do { (n, s1) \<leftarrow> fs_write fd x s; Some (wrote_line n, s1) }"

text \<open>With a negative count the buffer has no byte to terminate.\<close>

definition cmd_read_fd :: "int \<Rightarrow> int \<Rightarrow> fs \<Rightarrow> (bytes \<times> fs) option" where
  "cmd_read_fd fd n s =
     (if n < 0 then None
      else let (r, out, s1) = fs_read fd (nat n) s in Some (read_line r (if r < 0 then [] else out), s1))"

definition cmd_close :: "int \<Rightarrow> fs \<Rightarrow> bytes \<times> fs" where
  "cmd_close fd s =
     (let (r, s1) = fs_close fd s in (puts (if r = FS_OK then bytes_of ''close=OK'' else bytes_of ''close=ERR''), s1))"

definition cmd_seek :: "int \<Rightarrow> int \<Rightarrow> fs \<Rightarrow> bytes \<times> fs" where
  "cmd_seek fd off s =
     (let (r, s1) = fs_seek fd (of_int off) s in (puts (if r = FS_OK then bytes_of ''seek=OK'' else bytes_of ''seek=ERR''), s1))"

section \<open>One-shot commands\<close>

definition cmd_writef :: "bytes \<Rightarrow> bytes \<Rightarrow> fs \<Rightarrow> (bytes \<times> fs) option" where
  "cmd_writef path x s = do {
     (fd, s1) \<leftarrow> fs_open path (bytes_of ''w'') s;
     if fd < 0 then Some (puts (bytes_of ''writef: open fail''), s1)
     else do { (n, s2) \<leftarrow> fs_write fd x s1; Some (wrote_line n, snd (fs_close fd s2)) } }"

text \<open>
  A negative count is passed on as a large one; the call is defined only when \<open>fs_read\<close> fails before
  it writes into the buffer, which then has no room.
\<close>

definition cmd_readf :: "bytes \<Rightarrow> int \<Rightarrow> fs \<Rightarrow> (bytes \<times> fs) option" where
  "cmd_readf path n s = do {
     (fd, s1) \<leftarrow> fs_open path (bytes_of ''r'') s;
     if fd < 0 then Some (puts (bytes_of ''readf: open fail''), s1)
     else let (r, out, s2) = fs_read fd (unat (of_int n :: u32)) s1; s3 = snd (fs_close fd s2) in
          if n < 0 \<and> (r \<ge> 0 \<or> out \<noteq> []) then None
          else if r < 0 then Some (puts (bytes_of ''read='' @ fmt_d r), s3)
          else Some (read_line r out, s3) }"

text \<open>
  The copying loop of \<open>writefile\<close> on what is left of the host file: an error message, the total
  and the state.
\<close>

function copy_loop :: "int \<Rightarrow> bytes \<Rightarrow> int \<Rightarrow> fs \<Rightarrow> (bytes \<times> int \<times> fs) option" where
  "copy_loop fd rest sofar s =
     (if rest = [] then Some ([], sofar, s)
      else do {
        (w, s1) \<leftarrow> fs_write fd (take BLOCK_SIZE rest) s;
        if w < 0 then Some (puts (bytes_of ''writefile: fs_write='' @ fmt_d w), sofar, s1)
        else if length rest < BLOCK_SIZE then Some ([], sofar + w, s1)
        else copy_loop fd (drop BLOCK_SIZE rest) (sofar + w) s1 })"
  by pat_completeness auto
termination by (relation "measure (\<lambda>(fd, rest, sofar, s). length rest)") auto

declare copy_loop.simps [simp del]

definition image_bytes :: "image \<Rightarrow> bytes" where
  "image_bytes im = take (im_len im) (concat (map (im_blk im) [0..<im_len im div BLOCK_SIZE + 1]))"

text \<open>Copying the mounted image into itself depends on the buffers of the C library.\<close>

definition cmd_writefile :: "bytes \<Rightarrow> bytes \<Rightarrow> fs \<Rightarrow> (bytes \<times> fs) option" where
  "cmd_writefile fs_path host_path s =
     (case host s host_path of
        None \<Rightarrow> Some (puts (bytes_of ''writefile: cannot open '' @ host_path), s)
      | Some im \<Rightarrow>
          if g_dev s = Some host_path then None
          else do {
            (fd, s1) \<leftarrow> fs_open fs_path (bytes_of ''w'') s;
            if fd < 0 then Some (puts (bytes_of ''writefile: open fail''), s1)
            else do {
              (msg, sofar, s2) \<leftarrow> copy_loop fd (image_bytes im) 0 s1;
              Some (msg @ puts (bytes_of ''wrotefile='' @ fmt_d sofar @ bytes_of '' bytes''), snd (fs_close fd s2)) } })"

section \<open>Deletion and modes\<close>

text \<open>
  The directory and name \<open>delete\<close> takes the entry out of: a parent of 256 bytes or more overruns its
  buffer, and one that does not resolve leaves the number uninitialised.
\<close>

definition delete_target :: "bytes \<Rightarrow> fs \<Rightarrow> (nat \<times> bytes) option" where
  "delete_target path s =
     (case split_last 47 path of
        None \<Rightarrow> Some (unat (g_cwd s), path)
      | Some (parent, leaf) \<Rightarrow>
          if length parent \<ge> 256 then None
          else case namei (if parent = [] then [47] else parent) s of
                 Inl _ \<Rightarrow> None
               | Inr d \<Rightarrow> Some (d, leaf))"

definition cmd_delete :: "bytes \<Rightarrow> fs \<Rightarrow> (bytes \<times> fs) option" where
  "cmd_delete path s =
     (case namei path s of
        Inl _ \<Rightarrow> Some (puts (bytes_of ''delete: noent''), s)
      | Inr ino \<Rightarrow> do {
          i \<leftarrow> read_inode ino s;
          if is_dir_mode (i_mode i) \<and> unat (i_size i) > 2 * DIRENT_SIZE
          then Some (puts (bytes_of ''delete: dir not empty''), s)
          else do {
            (_, s1) \<leftarrow> inode_truncate ino s;
            s2 \<leftarrow> free_inode ino s1;
            (p, nm) \<leftarrow> delete_target path s2;
            Some (puts (bytes_of ''[OK]''), snd (dir_remove p nm s2)) } })"

text \<open>\<open>sscanf\<close> with \<open>%o\<close>: white space, a sign, octal digits; without a digit \<open>m\<close> stays 0.\<close>

fun octal_val :: "nat \<Rightarrow> bytes \<Rightarrow> nat" where
  "octal_val acc [] = acc"
| "octal_val acc (c # cs) = (if 48 \<le> c \<and> c \<le> 55 then octal_val (8 * acc + unat (c - 48)) cs else acc)"

definition scan_octal :: "bytes \<Rightarrow> u32" where
  "scan_octal x =
     (let t = dropWhile is_space x;
          neg = (t \<noteq> [] \<and> hd t = 45);
          v = octal_val 0 (if t \<noteq> [] \<and> (hd t = 45 \<or> hd t = 43) then tl t else t) in
      if v \<ge> 2 ^ 64 then - 1 else if neg then - of_nat v else of_nat v)"

definition cmd_chmod :: "bytes \<Rightarrow> bytes \<Rightarrow> fs \<Rightarrow> (bytes \<times> fs) option" where
  "cmd_chmod oct path s =
     (case namei path s of
        Inl _ \<Rightarrow> Some (puts (bytes_of ''chmod: noent''), s)
      | Inr ino \<Rightarrow> do {
          i \<leftarrow> read_inode ino s;
          if g_uid s \<noteq> 0 \<and> int (unat (i_uid i)) \<noteq> g_uid s then Some (puts (bytes_of ''chmod: EPERM''), s)
          else let (ct, s1) = ts_now s in
            Some (puts (bytes_of ''[OK]''), snd (write_inode ino
              (i\<lparr>i_mode := (i_mode i AND MODE_MASK) OR (ucast (scan_octal oct) AND 0x1FF), i_ctime := ct\<rparr>) s1)) })"

section \<open>Accounts\<close>

definition cmd_login :: "bytes \<Rightarrow> bytes \<Rightarrow> bytes \<Rightarrow> fs \<Rightarrow> (bytes \<times> fs) option" where
  "cmd_login junk u p s = do {
     (r, t) \<leftarrow> users_login junk u p s;
     Some (puts (if r = FS_OK then bytes_of ''[OK]'' else bytes_of ''[ERR] login''), t) }"

definition cmd_password :: "bytes \<Rightarrow> bytes \<Rightarrow> bytes \<Rightarrow> fs \<Rightarrow> (bytes \<times> fs) option" where
  "cmd_password junk u p s = do {
     (r, t) \<leftarrow> users_change_password junk u p s;
     Some (puts (if r = FS_OK then bytes_of ''[OK]'' else bytes_of ''[ERR] password''), t) }"

definition cmd_useradd :: "bytes \<Rightarrow> bytes \<Rightarrow> bytes \<Rightarrow> fs \<Rightarrow> (bytes \<times> fs) option" where
  "cmd_useradd junk u p s = do {
     (r, t) \<leftarrow> users_add junk u p s;
     Some (puts (if r = FS_OK then bytes_of ''[OK]'' else bytes_of ''[ERR] useradd''), t) }"

definition cmd_whoami :: "fs \<Rightarrow> bytes" where
  "cmd_whoami s = puts (g_user s @ bytes_of '' (uid='' @ fmt_d (g_uid s) @ bytes_of '')'')"

section \<open>The program\<close>

definition USAGE :: bytes where
  "USAGE = bytes_of ''Usage:'' @ [10] @
     puts (bytes_of ''  mini_ext2 format | mount'') @
     puts (bytes_of ''  mini_ext2 login <user> <pass> | password <old> <new>'') @
     puts (bytes_of ''  mini_ext2 ls [path]'') @
     puts (bytes_of ''  mini_ext2 mkdir <path> | create <path> | delete <path>'') @
     puts (bytes_of ''  mini_ext2 open <path> [r|w] | write <fd> <str> | read <fd> <n> | seek <fd> <off> | close <fd>'') @
     puts (bytes_of ''  mini_ext2 writef <path> <str> | readf <path> <n> | writefile <fs_path> <host_path>'') @
     puts (bytes_of ''  mini_ext2 chmod <oct> <path> | cd <path>'')"

text \<open>
  The chain of \<open>strcmp\<close>s after the mount. The later branches of the source for names that already
  have one earlier in the chain under the same condition are never taken and are left out.
\<close>

definition dispatch :: "int \<Rightarrow> bytes \<Rightarrow> bytes \<Rightarrow> bytes list \<Rightarrow> fs \<Rightarrow> (bytes \<times> fs) option" where
  "dispatch tz junk c as s =
     (if c = bytes_of ''login'' \<and> length as \<ge> 2 then cmd_login junk (as ! 0) (as ! 1) s
      else if c = bytes_of ''password'' \<and> length as \<ge> 2 then cmd_password junk (as ! 0) (as ! 1) s
      else if c = bytes_of ''ls'' then cmd_ls tz (if length as \<ge> 1 then Some (as ! 0) else None) s
      else if c = bytes_of ''mkdir'' \<and> length as \<ge> 1 then cmd_mkdir (as ! 0) s
      else if c = bytes_of ''create'' \<and> length as \<ge> 1 then cmd_create (as ! 0) s
      else if c = bytes_of ''open'' \<and> length as \<ge> 1 then cmd_open (as ! 0) (if length as \<ge> 2 then as ! 1 else bytes_of ''r'') s
      else if c = bytes_of ''write'' \<and> length as \<ge> 2 then cmd_write_fd (atoi (as ! 0)) (as ! 1) s
      else if c = bytes_of ''read'' \<and> length as \<ge> 2 then cmd_read_fd (atoi (as ! 0)) (atoi (as ! 1)) s
      else if c = bytes_of ''close'' \<and> length as \<ge> 1 then Some (cmd_close (atoi (as ! 0)) s)
      else if c = bytes_of ''cd'' \<and> length as \<ge> 1 then Some (cmd_cd (as ! 0) s)
      else if c = bytes_of ''seek'' \<and> length as \<ge> 2 then Some (cmd_seek (atoi (as ! 0)) (atoi (as ! 1)) s)
      else if c = bytes_of ''writef'' \<and> length as \<ge> 2 then cmd_writef (as ! 0) (as ! 1) s
      else if c = bytes_of ''readf'' \<and> length as \<ge> 2 then cmd_readf (as ! 0) (atoi (as ! 1)) s
      else if c = bytes_of ''writefile'' \<and> length as \<ge> 2 then cmd_writefile (as ! 0) (as ! 1) s
      else if c = bytes_of ''chmod'' \<and> length as \<ge> 2 then cmd_chmod (as ! 0) (as ! 1) s
      else if c = bytes_of ''delete'' \<and> length as \<ge> 1 then cmd_delete (as ! 0) s
      else if c = bytes_of ''useradd'' \<and> length as \<ge> 2 then cmd_useradd junk (as ! 0) (as ! 1) s
      else if c = bytes_of ''whoami'' then Some (cmd_whoami s, s)
      else Some (puts (bytes_of ''[ERR] unknown or bad args''), s))"

text \<open>\<open>main\<close>: exit code, output and state.\<close>

definition main :: "int \<Rightarrow> bytes \<Rightarrow> bytes list \<Rightarrow> fs \<Rightarrow> (int \<times> bytes \<times> fs) option" where
  "main tz junk args s =
     (case args of
        [] \<Rightarrow> Some (0, USAGE, s)
      | c # as \<Rightarrow>
          if c = bytes_of ''format'' then map_option (\<lambda>(o1, t). (0, o1, t)) (cmd_format s)
          else if c = bytes_of ''mount'' then map_option (\<lambda>(o1, t). (0, o1, t)) (cmd_mount s)
          else do {
            (r, s1) \<leftarrow> fs_mount (bytes_of ''disk.img'') s;
            if r \<noteq> FS_OK then Some (1, puts (bytes_of ''[ERR] auto-mount disk.img fail (run format first)''), s1)
            else do {
              (o1, s2) \<leftarrow> dispatch tz junk c as s1;
              Some (0, o1, snd (dev_close s2)) } })"

section \<open>Files of the root directory\<close>

text \<open>
  A file of the root directory that can be read without a hole: what \<open>readf\<close> needs to print it.
\<close>

definition stored :: "fs \<Rightarrow> bytes \<Rightarrow> nat \<Rightarrow> bytes \<Rightarrow> bool" where
  "stored s w n x \<longleftrightarrow> map_of (dir_entries s 1) w = Some n \<and> live s n \<and> n \<noteq> 1 \<and> file_size s n = length x \<and>
     map (file_at s n) [0..<length x] = x \<and> (\<forall>q < length x. \<not> hole_at s n q) \<and>
     \<not> is_dir_mode (i_mode (inode_at s n))"

lemma stored_same_disk: "same_disk s t \<Longrightarrow> stored t w n x = stored s w n x"
  by (simp add: stored_def same_disk_view)

lemma root_passes: "perm_can_write i 0" "perm_can_read i 0"
  by (simp_all add: perm_can_write_def perm_can_read_def)

lemma plain_mode: "\<not> is_dir_mode MODE_FILE"
  by (simp add: is_dir_mode_def)

lemma map_of_append_None: "map_of xs k = None \<Longrightarrow> map_of (xs @ ys) k = map_of ys k"
  by (induction xs) auto

text \<open>\<open>writef\<close> of a new name.\<close>

lemma writef_new_ok:
  assumes inv: "vol_inv s" and dw: "dir_wf s 1" and pn: "plain_name w" and fresh: "map_of (dir_entries s 1) w = None"
    and ns: "n_slots (inode_at s 1) < 80" and room: "blocks_touched 0 (length x) + 2 \<le> nfree_blocks s"
    and ino: "valid_ino m" "\<not> live s m" and fds: "length (g_ofile s) = MAX_OPEN" "\<exists>f \<in> set (g_ofile s). \<not> of_used f"
    and small: "length x \<le> FILE_MAX"
  obtains n t where "cmd_writef (47 # w) x s = Some (wrote_line (int (length x)), t)" "vol_inv t" "dir_wf t 1" "stored t w n x"
    "dir_entries t 1 = dir_entries s 1 @ [(w, n)]" "g_dev t = g_dev s"
    "\<forall>k. live s k \<and> k \<noteq> 1 \<longrightarrow> live t k \<and> inode_at t k = inode_at s k \<and> file_at t k = file_at s k \<and> hole_at t k = hole_at s k"
    "\<not> live s n" "live t = (live s)(n := True)" "nfree_blocks s \<le> nfree_blocks t + (blocks_touched 0 (length x) + 2)"
    "n_slots (inode_at t 1) \<le> Suc (n_slots (inode_at s 1))"
proof -
  obtain fd n s1 s2 t where t: "fs_open (47 # w) (bytes_of ''w'') s = Some (fd, s1)" "0 \<le> fd"
    "fs_write fd x s1 = Some (int (length x), s2)" "snd (fs_close fd s2) = t" "vol_inv t" "dir_wf t 1" "\<not> live s n"
    "live t = (live s)(n := True)" "dir_entries t 1 = dir_entries s 1 @ [(w, n)]"
    "file_size t n = length x" "map (file_at t n) [0..<length x] = x" "\<forall>q < length x. \<not> hole_at t n q"
    "i_mode (inode_at t n) = MODE_FILE" "i_uid (inode_at t n) = of_int (g_uid s)" "g_uid t = g_uid s" "g_dev t = g_dev s"
    "nfree_blocks s \<le> nfree_blocks t + (blocks_touched 0 (length x) + 2)"
    "\<forall>k. live s k \<and> k \<noteq> 1 \<longrightarrow> inode_at t k = inode_at s k \<and> file_at t k = file_at s k \<and> hole_at t k = hole_at s k"
    "n_slots (inode_at t 1) \<le> Suc (n_slots (inode_at s 1))"
    by (rule store_new_ok [OF inv dw pn fresh ns room ino fds small]) blast
  have "live s 1" using dw by (simp add: dir_wf_def)
  then have "n \<noteq> 1" using t(7) by blast
  show thesis
  proof (rule that [of t n])
    show "cmd_writef (47 # w) x s = Some (wrote_line (int (length x)), t)"
      using t(1-4) by (simp add: cmd_writef_def)
    show "stored t w n x"
      unfolding stored_def t(9) map_of_append_None [OF fresh] using t(8,10-13) \<open>n \<noteq> 1\<close> plain_mode by simp
    show "\<forall>k. live s k \<and> k \<noteq> 1 \<longrightarrow> live t k \<and> inode_at t k = inode_at s k \<and> file_at t k = file_at s k \<and> hole_at t k = hole_at s k"
      using t(8,18) by simp
  qed (use t in simp_all)
qed

text \<open>\<open>writef\<close> by root over a stored file: its first bytes are replaced, the rest stays.\<close>

lemma writef_over_ok:
  assumes inv: "vol_inv s" and dw: "dir_wf s 1" and pn: "plain_name w" and st: "stored s w n y"
    and root: "g_uid s = 0" and fds: "length (g_ofile s) = MAX_OPEN" "\<exists>f \<in> set (g_ofile s). \<not> of_used f"
    and small: "length x \<le> FILE_MAX" and room: "blocks_touched 0 (length x) + 1 \<le> nfree_blocks s"
  obtains t where "cmd_writef (47 # w) x s = Some (wrote_line (int (length x)), t)" "file_step s n t"
    "stored t w n (x @ drop (length x) y)" "nfree_blocks s \<le> nfree_blocks t + (blocks_touched 0 (length x) + 1)"
proof -
  let ?b = "blocks_touched 0 (length x)"
  have st': "map_of (dir_entries s 1) w = Some n" "live s n" "n \<noteq> 1" "file_size s n = length y"
    "map (file_at s n) [0..<length y] = y" "\<forall>q < length y. \<not> hole_at s n q" "\<not> is_dir_mode (i_mode (inode_at s n))"
    using st by (simp_all add: stored_def)
  have nm: "namei (47 # w) s = Inr n" using namei_root(1) [OF inv dw pn] st'(1) by simp
  have m: "119 \<in> set (bytes_of ''w'')" by (simp add: bytes_of_def)
  have vs: "view_inv s (inode_at s)" using inv by (simp add: vol_inv_def)
  have "read_inode n s = Some (inode_at s n)" using view_invD(1) [OF vs] live_valid [OF st'(2)] by (rule read_inode_ok)
  then obtain fd s1 where o: "fs_open (47 # w) (bytes_of ''w'') s = Some (fd, s1)" "open_fd n True s = (fd, s1)"
    using nm m root root_passes(1) [of "inode_at s n"] by (cases "open_fd n True s") (simp add: fs_open_def)
  then have od: "fd_open s1 fd n 0 True"
    "s1 = fd_set (nat fd) (\<lambda>_. \<lparr>of_used = True, of_ino = of_nat n, of_offset = 0, of_writable = True\<rparr>) s"
    using open_fd_ok [OF fds(1) st'(2) o(2)] fds(2) by auto
  have same: "vol_inv s1" "inode_at s1 = inode_at s" "file_at s1 = file_at s" "file_size s1 = file_size s" "g_uid s1 = 0"
    "hole_at s1 = hole_at s" "nfree_blocks s1 = nfree_blocks s"
    using inv root by (simp_all add: od(2) fun_eq_iff file_at_def file_size_def)
  have pw: "perm_can_write (inode_at s1 n) (g_uid s1)" unfolding same(5) by (rule root_passes)
  have "need (inode_at s1 n) (?b + (nfree_blocks s1 - (?b + 1))) \<le> nfree_blocks s1" using room same(7) by (simp add: need_def)
  from fs_write_room [OF same(1) od(1) pw this] obtain r s2 where wr: "fs_write fd x s1 = Some (r, s2)"
    "0 \<le> r \<longrightarrow> nfree_blocks s1 - (?b + 1) \<le> nfree_blocks s2" by blast
  have sm: "\<not> FILE_MAX < 0 + length x" using small by simp
  have r: "r = int (length x)" "fd_open s2 fd n (0 + length x) True" "file_size s2 n = max (file_size s1 n) (0 + length x)"
    "i_mode (inode_at s2 n) = i_mode (inode_at s1 n)" "file_step s1 n s2"
    "\<forall>q. file_at s2 n q = (if 0 \<le> q \<and> q < 0 + length x then x ! (q - 0) else file_at s1 n q)"
    "\<forall>q. 0 \<le> q \<and> q < 0 + length x \<or> \<not> hole_at s1 n q \<longrightarrow> \<not> hole_at s2 n q"
    using fs_write_ok [OF same(1) od(1) pw wr(1)] sm by blast+
  have t: "snd (fs_close fd s2) = fd_set (nat fd) (\<lambda>f. f\<lparr>of_used := False\<rparr>) s2" (is "_ = ?t")
    using fd_openD(1) [OF r(2)] by (simp add: fs_close_def)
  have fs: "file_step s n ?t" using file_step_closed r(5) unfolding od(2) by simp
  show thesis
  proof (rule that [of ?t])
    show "cmd_writef (47 # w) x s = Some (wrote_line (int (length x)), ?t)"
      using o(1) od(1) wr(1) r(1) t by (simp add: cmd_writef_def fd_open_def)
    show "nfree_blocks s \<le> nfree_blocks ?t + (?b + 1)" using wr(2) r(1) same(7) by simp
    have yq: "file_at s n q = y ! q" if "q < length y" for q
      using arg_cong [OF st'(5), of "\<lambda>l. l ! q"] that by simp
    have "map (file_at ?t n) [0..<length (x @ drop (length x) y)] = x @ drop (length x) y"
      using r(6) yq by (intro nth_equalityI) (auto simp: same(3) nth_append file_at_def)
    moreover have "file_size ?t n = length (x @ drop (length x) y)" using r(3) st'(4) same(4) by (simp add: file_size_def)
    moreover have "\<not> hole_at ?t n q" if "q < length (x @ drop (length x) y)" for q
    proof -
      have "q < length x \<or> q < length y" using that by auto
      then show ?thesis using r(7) st'(6) same(6) by auto
    qed
    moreover have "dir_entries ?t 1 = dir_entries s 1" "live ?t = live s" using fs dw st'(3) unfolding file_step_def by blast+
    ultimately show "stored ?t w n (x @ drop (length x) y)"
      using st'(1-3,7) r(4) by (simp add: stored_def same(2))
  qed (rule fs)
qed

text \<open>\<open>readf\<close> by root of the first \<open>c\<close> bytes of a stored file, or of all of a shorter one.\<close>

lemma readf_stored_ok:
  assumes inv: "vol_inv s" and dw: "dir_wf s 1" and pn: "plain_name w" and st: "stored s w n x"
    and root: "g_uid s = 0" and fds: "length (g_ofile s) = MAX_OPEN" "\<exists>f \<in> set (g_ofile s). \<not> of_used f"
    and small: "c < 2 ^ 31"
  obtains t where "cmd_readf (47 # w) (int c) s = Some (read_line (int (min c (length x))) (take c x), t)" "file_step s n t"
    "stored t w n x" "nfree_blocks t = nfree_blocks s"
proof -
  have st': "map_of (dir_entries s 1) w = Some n" "live s n" "file_size s n = length x"
    "map (file_at s n) [0..<length x] = x" "\<forall>q < length x. \<not> hole_at s n q" "n \<noteq> 1"
    using st by (simp_all add: stored_def)
  have nm: "namei (47 # w) s = Inr n" using namei_root(1) [OF inv dw pn] st'(1) by simp
  have m: "119 \<notin> set (bytes_of ''r'')" by (simp add: bytes_of_def)
  have vs: "view_inv s (inode_at s)" using inv by (simp add: vol_inv_def)
  have "read_inode n s = Some (inode_at s n)" using view_invD(1) [OF vs] live_valid [OF st'(2)] by (rule read_inode_ok)
  then obtain fd s1 where o: "fs_open (47 # w) (bytes_of ''r'') s = Some (fd, s1)" "open_fd n False s = (fd, s1)"
    using nm m root root_passes(2) [of "inode_at s n"] by (cases "open_fd n False s") (simp add: fs_open_def)
  then have od: "fd_open s1 fd n 0 False"
    "s1 = fd_set (nat fd) (\<lambda>_. \<lparr>of_used = True, of_ino = of_nat n, of_offset = 0, of_writable = False\<rparr>) s"
    using open_fd_ok [OF fds(1) st'(2) o(2)] fds(2) by auto
  have same: "vol_inv s1" "inode_at s1 = inode_at s" "file_at s1 = file_at s" "file_size s1 = file_size s" "g_uid s1 = 0"
    "hole_at s1 = hole_at s"
    using inv root by (simp_all add: od(2) fun_eq_iff file_at_def file_size_def)
  obtain r out s2 where rd: "fs_read fd c s1 = (r, out, s2)" by (cases "fs_read fd c s1") auto
  have pr: "perm_can_read (inode_at s1 n) (g_uid s1)" unfolding same(5) by (rule root_passes)
  from fs_read_ok [OF same(1) od(1) pr rd] obtain p where p: "file_step s1 n s2" "r = int p" "out = map (file_at s n) [0..<p]"
    "fd_open s2 fd n p False" "read_upto s1 (inode_at s1 n) 0 (min c (length x)) p"
    "file_at s2 n = file_at s n" "file_size s2 n = length x" "\<forall>q. hole_at s2 n q = hole_at s n q"
    "i_mode (inode_at s2 n) = i_mode (inode_at s n)" "blk_used s2 = blk_used s1"
    using st'(3) by (auto simp: same(2-4,6))
  have "phys s1 (inode_at s1 n) (q div BLOCK_SIZE) \<noteq> 0" if "0 \<le> q" "q < 0 + min c (length x)" for q
    using st'(5) that unfolding hole_at_def same(2) by (simp add: od(2))
  then have pl: "p = min c (length x)" using read_upto_full [OF p(5)] by simp
  have "take c (map (file_at s n) [0..<length x]) = out" using p(3) pl by (intro nth_equalityI) (auto simp: min.commute)
  then have ro: "r = int (min c (length x))" "out = take c x" using p(2) pl st'(4) by simp_all
  have len: "unat (of_int (int c) :: u32) = c" using small by (simp add: unat_of_nat)
  have t: "snd (fs_close fd s2) = fd_set (nat fd) (\<lambda>f. f\<lparr>of_used := False\<rparr>) s2" (is "_ = ?t")
    using fd_openD(1) [OF p(4)] by (simp add: fs_close_def)
  have "file_step s n s2" using p(1) unfolding od(2) by simp
  then have fs: "file_step s n ?t" by (rule file_step_closed)
  show thesis
  proof (rule that [of ?t])
    show "cmd_readf (47 # w) (int c) s = Some (read_line (int (min c (length x))) (take c x), ?t)"
      using o(1) od(1) rd ro t unfolding cmd_readf_def len by (simp add: fd_open_def)
    have "dir_entries ?t 1 = dir_entries s 1" "live ?t = live s" using fs dw st'(6) unfolding file_step_def by blast+
    then show "stored ?t w n x"
      using st p(6-9) by (simp add: stored_def file_size_def file_at_def)
    have "nfree_blocks s2 = nfree_blocks s1" by (rule nfree_cong(1) [OF p(10)])
    then show "nfree_blocks ?t = nfree_blocks s" by (simp add: od(2))
  qed (rule fs)
qed

text \<open>\<open>delete\<close> of a file of the root directory.\<close>

lemma split_last_root: "47 \<notin> set w \<Longrightarrow> split_last 47 (47 # w) = Some ([], w)"
proof -
  assume "47 \<notin> set w"
  then have rv: "47 \<notin> set (rev w)" by simp
  then have "dropWhile (\<lambda>x. x \<noteq> 47) (rev w @ [47]) = [47]" "takeWhile (\<lambda>x. x \<noteq> 47) (rev w @ [47]) = rev w"
    by (subst dropWhile_append2, auto) (subst takeWhile_append2, auto)
  then show ?thesis by (simp add: split_last_def)
qed

lemma delete_target_root:
  assumes "vol_inv s" and "plain_name w"
  shows "delete_target (47 # w) s = Some (1, w)"
proof -
  have v: "vol_ok s" using assms(1) by (simp add: vol_inv_def view_invD(1))
  have "namei [47] s = Inr 1" by (simp add: namei_def namei_loop.simps [of "[]"] vol_okD [OF v])
  with assms(2) show ?thesis by (simp add: delete_target_def split_last_root plain_name_def)
qed

text \<open>What one call of \<open>delete\<close> leaves: the name, the inode and its blocks released, the rest as it was.\<close>

definition deleted :: "fs \<Rightarrow> bytes \<Rightarrow> nat \<Rightarrow> fs \<Rightarrow> bool" where
  "deleted s w n t \<longleftrightarrow> vol_inv t \<and> dir_wf t 1 \<and> dir_entries t 1 = remove1 (w, n) (dir_entries s 1) \<and>
     live t = (live s)(n := False) \<and>
     (\<forall>k. live s k \<and> k \<noteq> n \<and> k \<noteq> 1 \<longrightarrow> inode_at t k = inode_at s k \<and> file_at t k = file_at s k \<and> hole_at t k = hole_at s k) \<and>
     (\<forall>k. dir_wf s k \<and> k \<noteq> n \<and> k \<noteq> 1 \<longrightarrow> dir_wf t k \<and> dir_entries t k = dir_entries s k) \<and>
     (\<forall>b. blk_used t b \<longleftrightarrow> blk_used s b \<and> b \<notin> set (owned s (inode_at s n))) \<and> g_dev t = g_dev s \<and>
     n_slots (inode_at t 1) = n_slots (inode_at s 1)"

lemma delete_ok:
  assumes inv: "vol_inv s" and dw: "dir_wf s 1" and pn: "plain_name w"
    and e: "map_of (dir_entries s 1) w = Some n" and n: "live s n" "n \<noteq> 1"
    and small: "is_dir_mode (i_mode (inode_at s n)) \<Longrightarrow> file_size s n \<le> 2 * DIRENT_SIZE"
  obtains t where "cmd_delete (47 # w) s = Some (puts (bytes_of ''[OK]''), t)" "deleted s w n t"
proof -
  have vs: "view_inv s (inode_at s)" using inv by (simp add: vol_inv_def)
  have rd: "read_inode n s = Some (inode_at s n)" using view_invD(1) [OF vs] live_valid [OF n(1)] by (rule read_inode_ok)
  have nm: "namei (47 # w) s = Inr n" using namei_root(1) [OF inv dw pn] e by simp
  obtain u where u: "inode_truncate n s = Some (FS_OK, u)" "file_step s n u" "same_session s u"
    "\<And>b. blk_used u b \<longleftrightarrow> blk_used s b \<and> b \<notin> set (owned s (inode_at s n))"
    by (rule truncate_live_ok [OF inv n(1)]) blast
  have iu: "vol_inv u" "live u = live s" "dir_wf u 1" "dir_entries u 1 = dir_entries s 1"
    using u(2) dw n(2) by (auto simp: file_step_def)
  have nu: "live u n" using n(1) iu(2) by simp
  obtain v where v: "free_inode n u = Some v" "vol_inv v" "live v = (live u)(n := False)" "same_session u v"
    "\<And>k. live v k \<Longrightarrow> inode_at v k = inode_at u k \<and> file_at v k = file_at u k \<and> hole_at v k = hole_at u k"
    "\<And>k. live v k \<Longrightarrow> dir_wf u k \<Longrightarrow> dir_wf v k \<and> dir_entries v k = dir_entries u k" "blk_used v = blk_used u"
    by (rule free_inode_live_ok [OF iu(1) nu]) blast
  have l1: "live v 1" using iu(2,3) v(3) n(2) by (simp add: dir_wf_def)
  have dv: "dir_wf v 1" "dir_entries v 1 = dir_entries s 1" using v(6) [OF l1 iu(3)] iu(4) by simp_all
  have x: "map_of (dir_entries v 1) w = Some n" using e dv(2) by simp
  have cut: "w = take NAME_MAX_LEN (cstr w)" using plain_name_cut [OF pn] by simp
  obtain t where t: "dir_remove 1 w v = (FS_OK, t)" "only_changed v 1 t" "dir_wf t 1"
    "dir_entries t 1 = remove1 (w, n) (dir_entries v 1)" "blk_used t = blk_used v"
    "i_size (inode_at t 1) = i_size (inode_at v 1)"
    by (rule dir_remove_ok [OF v(2) dv(1) cut x]) blast
  have others: "inode_at t k = inode_at s k \<and> file_at t k = file_at s k \<and> hole_at t k = hole_at s k" if k: "live s k" "k \<noteq> n" "k \<noteq> 1" for k
  proof -
    have lv: "live v k" using k v(3) iu(2) by simp
    have "inode_at u k = inode_at s k" "file_at u k = file_at s k" "hole_at u k = hole_at s k"
      using u(2) k by (simp_all add: file_step_def)
    moreover have "inode_at t k = inode_at v k" "file_at t k = file_at v k" "hole_at t k = hole_at v k"
      using only_changed_other [OF t(2) v(2) lv k(3) l1] by (simp_all add: file_at_def hole_at_def fun_eq_iff)
    moreover have "inode_at v k = inode_at u k" "file_at v k = file_at u k" "hole_at v k = hole_at u k"
      using v(5) [OF lv] by simp_all
    ultimately show ?thesis by simp
  qed
  have dirs: "dir_wf t k \<and> dir_entries t k = dir_entries s k" if k: "dir_wf s k" "k \<noteq> n" "k \<noteq> 1" for k
  proof -
    have du: "dir_wf u k" "dir_entries u k = dir_entries s k" using u(2) k by (simp_all add: file_step_def)
    have lv: "live v k" using k v(3) iu(2) by (simp add: dir_wf_def)
    from v(6) [OF lv du(1)] only_changed_dir [OF t(2) v(2) _ k(3) l1] du(2) show ?thesis by simp
  qed
  show thesis
  proof (rule that [of t])
    have "\<not> (is_dir_mode (i_mode (inode_at s n)) \<and> unat (i_size (inode_at s n)) > 2 * DIRENT_SIZE)"
      using small unfolding file_size_def by linarith
    then show "cmd_delete (47 # w) s = Some (puts (bytes_of ''[OK]''), t)"
      using nm rd u(1) v(1) delete_target_root [OF v(2) pn] t(1) by (auto simp: cmd_delete_def)
    have "g_dev t = g_dev s"
      using u(3) v(4) only_changedD(5) [OF t(2)] by (simp add: same_session_def)
    moreover have "inode_at v 1 = inode_at s 1" using v(5) [OF l1] u(2) dw n(2) by (simp add: file_step_def dir_wf_def)
    then have "n_slots (inode_at t 1) = n_slots (inode_at s 1)" using t(6) by (simp add: n_slots_def)
    ultimately show "deleted s w n t"
      unfolding deleted_def using only_changedD(2,3) [OF t(2)] t(3,4,5) dv(2) v(3,7) iu(2) u(4) others dirs by simp
  qed
qed

text \<open>\<open>mkdir\<close> in a directory with room.\<close>

definition dir_made :: "fs \<Rightarrow> nat \<Rightarrow> bytes \<Rightarrow> nat \<Rightarrow> fs \<Rightarrow> bool" where
  "dir_made s d name n t \<longleftrightarrow> vol_inv t \<and> \<not> live s n \<and> live t = (live s)(n := True) \<and> dir_wf t d \<and> dir_wf t n \<and>
     dir_entries t d = dir_entries s d @ [(take (NAME_MAX_LEN - 1) (cstr name), n)] \<and>
     dir_entries t n = [(bytes_of ''.'', n), (bytes_of ''..'', d)] \<and>
     (\<forall>k. live s k \<and> k \<noteq> d \<longrightarrow> inode_at t k = inode_at s k \<and> file_at t k = file_at s k \<and> hole_at t k = hole_at s k) \<and>
     (\<forall>k. dir_wf s k \<and> k \<noteq> d \<longrightarrow> dir_wf t k \<and> dir_entries t k = dir_entries s k)"

lemma cut_dots:
  "take (NAME_MAX_LEN - 1) (cstr (bytes_of ''.'')) = bytes_of ''.''"
  "take (NAME_MAX_LEN - 1) (cstr (bytes_of ''..'')) = bytes_of ''..''"
  by (simp_all add: bytes_of_def cstr_def)

lemma nfree_some: "0 < nfree_blocks s \<Longrightarrow> \<exists>b. BLK_DATA_START \<le> b \<and> b < 4096 \<and> \<not> blk_used s b"
  by (auto simp: nfree_blocks_def n_free_def card_gt_0_iff)

text \<open>An empty directory takes its two entries into one new block.\<close>

lemma two_dots_ok:
  assumes inv: "vol_inv s" and dw: "dir_wf s n" and ns: "n_slots (inode_at s n) = 0" and e: "dir_entries s n = []"
    and d: "0 < d" "d < 2 ^ 32" and room: "0 < nfree_blocks s"
  obtains t where "(do { (_, s5) \<leftarrow> dir_add n (bytes_of ''.'') FT_DIR n s; (_, s6) \<leftarrow> dir_add n (bytes_of ''..'') FT_DIR d s5; Some s6 }) = Some t"
    "file_step s n t" "dir_wf t n" "dir_entries t n = [(bytes_of ''.'', n), (bytes_of ''..'', d)]"
    "nfree_blocks s \<le> Suc (nfree_blocks t)"
proof -
  have nn: "0 < n" "n < 2 ^ 32" and ln: "live s n" using dw live_valid [of s n] by (auto simp: dir_wf_def)
  have z: "(0 :: nat) < 80" "(1 :: nat) < 80" "(0 :: nat) div 8 = 0" "(1 :: nat) div 8 = 0" by simp_all
  obtain r1 u1 where a1: "dir_add n (bytes_of ''.'') FT_DIR n s = Some (r1, u1)"
    using dir_add_total [OF inv dw] nfree_some [OF room] by blast
  note d1 = dir_add_ok [OF inv dw ns [symmetric] z(1) nn a1] and k1 = only_changedD [OF dir_add_ok(2) [OF inv dw ns [symmetric] z(1) nn a1]]
  have s1: "i_direct (inode_at u1 n) ! (n_slots (inode_at u1 n) div 8) \<noteq> 0" using d1(5,7) by simp
  obtain r2 u2 where a2: "dir_add n (bytes_of ''..'') FT_DIR d u1 = Some (r2, u2)"
    using dir_add_total [OF k1(3) d1(3) disjI1 [OF s1]] by blast
  have ns1: "1 = n_slots (inode_at u1 n)" using d1(5) by simp
  note d2 = dir_add_ok [OF k1(3) d1(3) ns1 z(2) d a2]
  have l1: "live u1 n" using d1(3) by (simp add: dir_wf_def)
  have f1: "i_direct (inode_at u1 n) ! 0 \<noteq> 0" using d1(7) z(3) by simp
  show thesis
  proof (rule that [of u2])
    show "(do { (_, s5) \<leftarrow> dir_add n (bytes_of ''.'') FT_DIR n s; (_, s6) \<leftarrow> dir_add n (bytes_of ''..'') FT_DIR d s5; Some s6 }) = Some u2"
      using a1 a2 by simp
    have "file_step s n u1" by (rule file_stepI [OF d1(2) inv ln]) simp
    moreover have "file_step u1 n u2" by (rule file_stepI [OF d2(2) k1(3) l1]) simp
    ultimately show "file_step s n u2" by (rule file_step_trans)
    show "dir_wf u2 n" by (rule d2(3))
    show "dir_entries u2 n = [(bytes_of ''.'', n), (bytes_of ''..'', d)]" using d1(4) d2(4) e cut_dots by simp
    show "nfree_blocks s \<le> Suc (nfree_blocks u2)" using d1(6) d2(6) f1 z(4) by (simp add: of_bool_def split: if_splits)
  qed
qed

lemma mkdir_ok:
  assumes inv: "vol_inv s" and dw: "dir_wf s d" and tgt: "mkdir_target path s = Inr (d, name)"
    and ns: "n_slots (inode_at s d) < 80" and room: "2 \<le> nfree_blocks s" and ino: "valid_ino m" "\<not> live s m"
  obtains n t where "cmd_mkdir path s = Some (puts (bytes_of ''[OK]''), t)" "dir_made s d name n t"
proof -
  have vs: "view_inv s (inode_at s)" and ld: "live s d" using inv dw by (simp_all add: vol_inv_def dir_wf_def)
  obtain r s1 where a: "alloc_inode s = Some (r, s1)" "0 \<le> r"
    using alloc_inode_total [OF view_invD(1) [OF vs]] ino by (auto simp: live_def)
  let ?i = "zero_inode\<lparr>i_mode := MODE_DIR, i_links := 2, i_uid := of_int (g_uid s1), i_ctime := clock s1 (tick s1),
        i_mtime := clock s1 (Suc (tick s1)), i_atime := clock s1 (Suc (Suc (tick s1)))\<rparr>"
  have bi: "blank ?i" using wf_zero_inode by (simp add: blank_def wf_inode_def zero_inode_def)
  obtain s2 where w: "write_inode (nat r) ?i (s1\<lparr>tick := Suc (Suc (Suc (tick s1)))\<rparr>) = (FS_OK, s2)" "born s (nat r) ?i s2"
    by (rule born_ok [OF inv a bi]) blast
  define n where "n = nat r"
  note b = w(2) [folded n_def, unfolded born_def]
  have v2: "vol_inv s2" and at: "inode_at s2 n = ?i" and nl: "\<not> live s n" and l2: "live s2 = (live s)(n := True)"
    and bu: "blk_used s2 = blk_used s" and dd: "dir_wf s2 d" "dir_entries s2 d = dir_entries s d" "inode_at s2 d = inode_at s d"
    and old: "\<And>k. live s k \<Longrightarrow> inode_at s2 k = inode_at s k \<and> file_at s2 k = file_at s k \<and> hole_at s2 k = hole_at s k"
    and dirs: "\<And>k. dir_wf s k \<Longrightarrow> dir_wf s2 k \<and> dir_entries s2 k = dir_entries s k"
    using b dw ld by blast+
  have dn: "d \<noteq> n" using ld nl by auto
  have z: "n_slots (inode_at s2 n) = 0" unfolding at n_slots_def by (simp add: zero_inode_def)
  have e: "dir_entries s2 n = []" unfolding dir_entries_n_slots z by (simp add: entries_upto_def map_filter_def)
  have dwn: "dir_wf s2 n" unfolding dir_wf_def z l2 unfolding at by (simp add: zero_inode_def is_dir_mode_def)
  have d32: "0 < d" "d < 2 ^ 32" using live_valid [OF ld] by simp_all
  have nf: "nfree_blocks s2 = nfree_blocks s" by (rule nfree_cong(1) [OF bu])
  then have rm: "0 < nfree_blocks s2" using room by simp
  obtain s3 where s3: "(do { (_, s5) \<leftarrow> dir_add n (bytes_of ''.'') FT_DIR n s2; (_, s6) \<leftarrow> dir_add n (bytes_of ''..'') FT_DIR d s5; Some s6 }) = Some s3"
    "file_step s2 n s3" "dir_wf s3 n" "dir_entries s3 n = [(bytes_of ''.'', n), (bytes_of ''..'', d)]"
    "nfree_blocks s2 \<le> Suc (nfree_blocks s3)"
    by (rule two_dots_ok [OF v2 dwn z e d32 rm]) blast
  have v3: "vol_inv s3" and l3: "live s3 = live s2" and d3: "dir_wf s3 d" "dir_entries s3 d = dir_entries s d"
    and i3: "inode_at s3 d = inode_at s d"
    using s3(2) dd dn ld l2 by (auto simp: file_step_def)
  have "0 < nfree_blocks s3" using s3(5) nf room by simp
  then obtain q t where ad: "dir_add d name FT_DIR n s3 = Some (q, t)"
    using dir_add_total [OF v3 d3(1)] nfree_some by blast
  have ns3: "n_slots (inode_at s3 d) < 80" using ns i3 by simp
  have n32: "0 < n" "n < 2 ^ 32" using b by auto
  note da = dir_add_ok [OF v3 d3(1) refl ns3 n32 ad]
  have ld3: "live s3 d" using d3(1) by (simp add: dir_wf_def)
  have st: "file_step s3 d t" by (rule file_stepI [OF da(2) v3 ld3]) simp
  show thesis
  proof (rule that [of t n])
    have nd: "new_dir n d s1 = Some s3"
      using w(1) s3(1) unfolding n_def [symmetric] by (simp add: new_dir_def ts_now_def Let_def)
    show "cmd_mkdir path s = Some (puts (bytes_of ''[OK]''), t)"
      using tgt a nd ad da(1) unfolding n_def by (simp add: cmd_mkdir_def)
    show "dir_made s d name n t"
      unfolding dir_made_def
    proof (intro conjI allI impI; (elim conjE)?)
      show "dir_entries t d = dir_entries s d @ [(take (NAME_MAX_LEN - 1) (cstr name), n)]" using da(4) d3(2) by simp
      show "dir_wf t n" "dir_entries t n = [(bytes_of ''.'', n), (bytes_of ''..'', d)]"
        using st s3(3,4) dn by (auto simp: file_step_def)
      show "vol_inv t" "live t = (live s)(n := True)" using st l3 l2 by (simp_all add: file_step_def)
      fix k
      show "inode_at t k = inode_at s k" "file_at t k = file_at s k" "hole_at t k = hole_at s k" if k: "live s k" "k \<noteq> d"
      proof -
        have kn: "k \<noteq> n" "live s2 k" "live s3 k" using k(1) nl l2 l3 by auto
        have "inode_at s3 k = inode_at s2 k \<and> file_at s3 k = file_at s2 k \<and> hole_at s3 k = hole_at s2 k"
          using s3(2) kn by (simp add: file_step_def)
        moreover have "inode_at t k = inode_at s3 k \<and> file_at t k = file_at s3 k \<and> hole_at t k = hole_at s3 k"
          using st kn k(2) by (simp add: file_step_def)
        ultimately show "inode_at t k = inode_at s k" "file_at t k = file_at s k" "hole_at t k = hole_at s k"
          using old [OF k(1)] by simp_all
      qed
      show "dir_wf t k" "dir_entries t k = dir_entries s k" if k: "dir_wf s k" "k \<noteq> d"
      proof -
        have kn: "k \<noteq> n" using k(1) nl by (auto simp: dir_wf_def)
        show "dir_wf t k" "dir_entries t k = dir_entries s k"
          using dirs [OF k(1)] s3(2) st kn k(2) by (auto simp: file_step_def)
      qed
    qed (rule nl da(3))+
  qed
qed

text \<open>
  \<open>chmod\<close>: of the mode the type is kept, the nine permission bits become those of the octal number and
  the three bits between are cleared; of the inode only mode and change time are written.
\<close>

lemma bit_mode_mask: "bit (MODE_MASK :: u16) k \<Longrightarrow> 12 \<le> k"
proof (rule ccontr)
  assume b: "bit (MODE_MASK :: u16) k" and "\<not> 12 \<le> k"
  then have "k \<in> {0, 1, 2, 3, 4, 5, 6, 7, 8, 9, 10, 11}" unfolding insert_iff empty_iff by presburger
  with b show False by auto
qed

lemma bit_chmod:
  fixes m :: u16 and v :: u32
  shows "bit ((m AND MODE_MASK) OR (ucast v AND 0x1FF)) k \<longleftrightarrow> (if k < 9 then bit v k else 12 \<le> k \<and> bit m k)"
proof (cases "k < 16")
  case True
  then have "k \<in> {0, 1, 2, 3, 4, 5, 6, 7, 8, 9, 10, 11, 12, 13, 14, 15}" unfolding insert_iff empty_iff by presburger
  then show ?thesis by (auto simp: bit_simps)
next
  case False
  then show ?thesis using bit_imp_le_length [of "(m AND MODE_MASK) OR (ucast v AND 0x1FF)" k] bit_imp_le_length [of m k] by auto
qed

lemma dir_mode_chmod: "(m' :: u16) = (m AND MODE_MASK) OR (ucast (v :: u32) AND 0x1FF) \<Longrightarrow> is_dir_mode m' = is_dir_mode m"
proof -
  assume m: "m' = (m AND MODE_MASK) OR (ucast v AND 0x1FF)"
  have "bit (m' AND MODE_MASK) k = bit (m AND MODE_MASK) k" for k
    using bit_chmod [of m v k] bit_mode_mask [of k] unfolding m bit_and_iff by auto
  then have "m' AND MODE_MASK = m AND MODE_MASK" by (intro bit_eqI) simp
  then show ?thesis by (simp add: is_dir_mode_def)
qed

lemma and_single_bit: "(m :: u16) AND push_bit k 1 \<noteq> 0 \<longleftrightarrow> bit m k"
  by (auto simp: bit_iff_and_push_bit_not_eq_0)

lemma perm_write_bits: "perm_can_write i uid \<longleftrightarrow> uid = 0 \<or> bit (i_mode i) (if i_uid i = of_int uid then 7 else 1)"
  using and_single_bit [of "i_mode i" 7] and_single_bit [of "i_mode i" 1] by (simp add: perm_can_write_def)

lemma chmod_ok:
  assumes inv: "vol_inv s" and nm: "namei path s = Inr n" and n: "live s n"
    and own: "g_uid s = 0 \<or> int (unat (i_uid (inode_at s n))) = g_uid s"
  obtains t where "cmd_chmod oct path s = Some (puts (bytes_of ''[OK]''), t)" "file_step s n t" "file_at t n = file_at s n"
    "inode_at t n = (inode_at s n)\<lparr>i_mode := (i_mode (inode_at s n) AND MODE_MASK) OR (ucast (scan_octal oct) AND 0x1FF),
       i_ctime := clock s (tick s)\<rparr>" "blk_used t = blk_used s" "g_ofile t = g_ofile s"
proof -
  let ?i = "inode_at s n"
  let ?j = "?i\<lparr>i_mode := (i_mode ?i AND MODE_MASK) OR (ucast (scan_octal oct) AND 0x1FF), i_ctime := clock s (tick s)\<rparr>"
  let ?s1 = "tick_update (\<lambda>_. Suc (tick s)) s"
  have vs: "view_inv s (inode_at s)" using inv by (simp add: vol_inv_def)
  have rd: "read_inode n s = Some ?i" using view_invD(1) [OF vs] live_valid [OF n] by (rule read_inode_ok)
  have inv1: "vol_inv ?s1" and l1: "live ?s1 n" using inv n by simp_all
  have sp: "same_ptrs ?j (inode_at ?s1 n)" by (simp add: same_ptrs_def)
  note co = edit_commit [OF edit_ok_refl [OF inv1] l1 sp]
  let ?t = "put_inode n ?j ?s1"
  show thesis
  proof (rule that [of ?t])
    show "cmd_chmod oct path s = Some (puts (bytes_of ''[OK]''), ?t)"
      using nm rd own co(1) by (auto simp: cmd_chmod_def ts_now_def)
    have "file_step ?s1 n ?t" by (rule file_stepI [OF co(2) inv1 l1]) simp
    then show "file_step s n ?t" by simp
    show "file_at ?t n = file_at s n" unfolding file_at_def co(3) using co(4) by simp
    have wf: "wf_inode ?j" using same_ptrs_own [of ?j ?i] own_okD(1) [OF view_invD(4) [OF vs n]] by (simp add: same_ptrs_def)
    have "vol_ok ?s1" using view_invD(1) [OF vs] inv1 by (simp add: vol_inv_def view_invD(1))
    then show "blk_used ?t = blk_used s"
      using put_inode_used(1) [OF _ live_valid [OF n] wf, of ?s1] by (simp add: fun_eq_iff blk_used_def)
    show "g_ofile ?t = g_ofile s" using only_changedD(1) [OF co(2)] by simp
  qed (simp_all add: co(3))
qed

section \<open>Processes\<close>

text \<open>
  Every command is a process of its own: it starts from fresh globals on the host's files and
  mounts \<open>disk.img\<close>. \<open>volume_on h t\<close>: on the files \<open>h\<close> there is a consistent volume, seen as the
  state \<open>t\<close>, that has a user table and no saved session, so that a mount leaves root logged in.
\<close>

definition volume_on :: "(bytes \<Rightarrow> image option) \<Rightarrow> fs \<Rightarrow> bool" where
  "volume_on h t \<longleftrightarrow> host t = h \<and> g_dev t = Some DISK_IMG \<and> vol_inv t \<and> dir_wf t 1 \<and>
     map_of (dir_entries t 1) USERS_NAME \<noteq> None \<and> map_of (dir_entries t 1) (bytes_of ''.session'') = None"

lemma process_ok:
  assumes v: "volume_on h t" and c: "c \<noteq> bytes_of ''format''" "c \<noteq> bytes_of ''mount''"
  obtains u where "same_disk t u" "g_uid u = 0" "g_user u = bytes_of ''root''" "g_cwd u = 1"
    "length (g_ofile u) = MAX_OPEN" "\<exists>f \<in> set (g_ofile u). \<not> of_used f"
    "main tz junk (c # as) (proc_start h clk) =
       do { (o1, s2) \<leftarrow> dispatch tz junk c as u; Some (0, o1, snd (dev_close s2)) }"
proof -
  obtain n where n: "map_of (dir_entries t 1) USERS_NAME = Some n" using v by (auto simp: volume_on_def)
  have w: "vol_inv t" "dir_wf t 1" "map_of (dir_entries t 1) (bytes_of ''.session'') = None" "g_dev t = Some DISK_IMG"
    "host (proc_start h clk) = host t" "g_dev (proc_start h clk) = None" "\<not> denied (proc_start h clk) DISK_IMG"
    using v by (simp_all add: volume_on_def proc_start_def)
  obtain u where u: "fs_mount DISK_IMG (proc_start h clk) = Some (FS_OK, u)" "same_disk t u" "g_uid u = 0" "g_user u = bytes_of ''root''"
    "g_cwd u = 1" "g_ofile u = replicate MAX_OPEN zero_ofile"
    by (rule mount_known [OF w(1,2) n w(3-7)]) blast
  show thesis
  proof (rule that [OF u(2-5)])
    show "length (g_ofile u) = MAX_OPEN" "\<exists>f \<in> set (g_ofile u). \<not> of_used f"
      using u(6) by (simp_all add: zero_ofile_def)
    show "main tz junk (c # as) (proc_start h clk) =
       do { (o1, s2) \<leftarrow> dispatch tz junk c as u; Some (0, o1, snd (dev_close s2)) }"
      using c u(1) by (simp add: main_def)
  qed
qed

lemma volume_on_close:
  assumes "vol_inv t" and "dir_wf t 1" and "g_dev t = Some DISK_IMG" and "map_of (dir_entries t 1) USERS_NAME \<noteq> None"
    and "map_of (dir_entries t 1) (bytes_of ''.session'') = None"
  shows "volume_on (host (snd (dev_close t))) t"
  using assms by (simp add: volume_on_def dev_close_def)

lemma map_of_snoc: "k \<noteq> w \<Longrightarrow> map_of (xs @ [(w, n)]) k = map_of xs k"
  by (induction xs) auto

lemma process_names:
  "bytes_of ''writef'' \<noteq> bytes_of ''format''" "bytes_of ''writef'' \<noteq> bytes_of ''mount''"
  "bytes_of ''readf'' \<noteq> bytes_of ''format''" "bytes_of ''readf'' \<noteq> bytes_of ''mount''"
  "bytes_of ''delete'' \<noteq> bytes_of ''format''" "bytes_of ''delete'' \<noteq> bytes_of ''mount''"
  by (simp_all add: bytes_of_def)

lemma writef_process:
  assumes v: "volume_on h t" and pn: "plain_name w" and ws: "w \<noteq> bytes_of ''.session''" and fresh: "map_of (dir_entries t 1) w = None"
    and ns: "n_slots (inode_at t 1) < 80" and room: "blocks_touched 0 (length x) + 2 \<le> nfree_blocks t"
    and ino: "valid_ino m" "\<not> live t m" and small: "length x \<le> FILE_MAX"
  obtains n p v where "main tz junk [bytes_of ''writef'', 47 # w, x] (proc_start h clk) = Some (0, wrote_line (int (length x)), p)"
    "volume_on (host p) v" "stored v w n x"
proof -
  obtain u where u: "same_disk t u" "g_uid u = 0" "length (g_ofile u) = MAX_OPEN" "\<exists>f \<in> set (g_ofile u). \<not> of_used f"
    "main tz junk [bytes_of ''writef'', 47 # w, x] (proc_start h clk) =
       do { (o1, s2) \<leftarrow> dispatch tz junk (bytes_of ''writef'') [47 # w, x] u; Some (0, o1, snd (dev_close s2)) }"
    by (rule process_ok [OF v process_names(1,2)]) blast
  note sd = same_disk_view [OF u(1)]
  have iu: "vol_inv u" "dir_wf u 1" "map_of (dir_entries u 1) w = None" "n_slots (inode_at u 1) < 80" "\<not> live u m"
    "blocks_touched 0 (length x) + 2 \<le> nfree_blocks u" "g_dev u = Some DISK_IMG"
    using v fresh ns ino room u(1) by (simp_all add: sd volume_on_def same_disk_def)
  obtain n v' where v': "cmd_writef (47 # w) x u = Some (wrote_line (int (length x)), v')" "vol_inv v'" "dir_wf v' 1" "stored v' w n x"
    "dir_entries v' 1 = dir_entries u 1 @ [(w, n)]" "g_dev v' = g_dev u"
    by (rule writef_new_ok [OF iu(1,2) pn iu(3,4,6) ino(1) iu(5) u(3,4) small]) blast
  have known: "map_of (dir_entries t 1) USERS_NAME \<noteq> None" "map_of (dir_entries t 1) (bytes_of ''.session'') = None"
    using v by (simp_all add: volume_on_def)
  then have wu: "USERS_NAME \<noteq> w" using fresh by auto
  show thesis
  proof (rule that [of "snd (dev_close v')" v' n])
    show "main tz junk [bytes_of ''writef'', 47 # w, x] (proc_start h clk) =
        Some (0, wrote_line (int (length x)), snd (dev_close v'))"
      unfolding u(5) using v'(1) by (simp add: dispatch_def bytes_of_def)
    show "volume_on (host (snd (dev_close v'))) v'"
    proof (rule volume_on_close [OF v'(2,3)])
      show "g_dev v' = Some DISK_IMG" using v'(6) iu(7) by simp
      show "map_of (dir_entries v' 1) USERS_NAME \<noteq> None"
        unfolding v'(5) sd(6) map_of_snoc [OF wu] by (rule known(1))
      show "map_of (dir_entries v' 1) (bytes_of ''.session'') = None"
        unfolding v'(5) sd(6) map_of_snoc [OF ws [symmetric]] by (rule known(2))
    qed
  qed (rule v'(4))
qed

text \<open>A step through a descriptor of another file than the root leaves the volume mountable.\<close>

lemma volume_on_step:
  assumes "volume_on h t" and "same_disk t u" and "file_step u n z" and "n \<noteq> 1"
  shows "volume_on (host (snd (dev_close z))) z"
proof (rule volume_on_close)
  note sd = same_disk_view [OF assms(2)]
  have d: "dir_wf u 1" "dir_entries u 1 = dir_entries t 1" "g_dev u = Some DISK_IMG"
    using assms(1,2) by (simp_all add: sd volume_on_def same_disk_def)
  then have z: "dir_wf z 1" "dir_entries z 1 = dir_entries t 1" "g_dev z = Some DISK_IMG" "vol_inv z"
    using assms(3,4) by (auto simp: file_step_def)
  then show "vol_inv z" "dir_wf z 1" "g_dev z = Some DISK_IMG" by simp_all
  show "map_of (dir_entries z 1) USERS_NAME \<noteq> None" "map_of (dir_entries z 1) (bytes_of ''.session'') = None"
    unfolding z(2) using assms(1) by (simp_all add: volume_on_def)
qed

lemma readf_process:
  assumes v: "volume_on h t" and pn: "plain_name w" and st: "stored t w n x" and len: "length x < 2 ^ 31"
  shows "\<exists>q v'. main tz junk [bytes_of ''readf'', 47 # w, fmt_d (int (length x))] (proc_start h clk) =
      Some (0, read_line (int (length x)) x, q) \<and> volume_on (host q) v'"
proof -
  obtain y where y: "same_disk t y" "g_uid y = 0" "length (g_ofile y) = MAX_OPEN" "\<exists>f \<in> set (g_ofile y). \<not> of_used f"
    "main tz junk [bytes_of ''readf'', 47 # w, fmt_d (int (length x))] (proc_start h clk) =
       do { (o1, s2) \<leftarrow> dispatch tz junk (bytes_of ''readf'') [47 # w, fmt_d (int (length x))] y; Some (0, o1, snd (dev_close s2)) }"
    by (rule process_ok [OF v process_names(3,4)]) blast
  note sy = same_disk_view [OF y(1)]
  have iy: "vol_inv y" "dir_wf y 1" "stored y w n x"
    using v st by (simp_all add: sy volume_on_def stored_same_disk [OF y(1)])
  obtain z where z: "cmd_readf (47 # w) (int (length x)) y = Some (read_line (int (length x)) x, z)" "file_step y n z"
    by (rule readf_stored_ok [OF iy(1,2) pn iy(3) y(2-4) len]) simp
  have n1: "n \<noteq> 1" using st by (simp add: stored_def)
  have "atoi (fmt_d (int (length x))) = int (length x)" using len by (intro atoi_fmt_d) simp_all
  then have "main tz junk [bytes_of ''readf'', 47 # w, fmt_d (int (length x))] (proc_start h clk) =
      Some (0, read_line (int (length x)) x, snd (dev_close z))"
    unfolding y(5) using z(1) by (simp add: dispatch_def bytes_of_def)
  with volume_on_step [OF v y(1) z(2) n1] show ?thesis by blast
qed

text \<open>After \<open>delete\<close> the name is gone when it stood for one file only.\<close>

lemma map_of_remove1: "k \<noteq> w \<Longrightarrow> map_of (remove1 (w, n) xs) k = map_of xs k"
  by (induction xs) auto

lemma delete_process:
  assumes v: "volume_on h t" and pn: "plain_name w" and wu: "w \<noteq> USERS_NAME" and e: "map_of (dir_entries t 1) w = Some n"
    and n: "live t n" "n \<noteq> 1" and small: "is_dir_mode (i_mode (inode_at t n)) \<Longrightarrow> file_size t n \<le> 2 * DIRENT_SIZE"
  obtains p v where "main tz junk [bytes_of ''delete'', 47 # w] (proc_start h clk) = Some (0, puts (bytes_of ''[OK]''), p)"
    "volume_on (host p) v" "deleted t w n v"
proof -
  obtain u where u: "same_disk t u"
    "main tz junk [bytes_of ''delete'', 47 # w] (proc_start h clk) =
       do { (o1, s2) \<leftarrow> dispatch tz junk (bytes_of ''delete'') [47 # w] u; Some (0, o1, snd (dev_close s2)) }"
    by (rule process_ok [OF v process_names(5,6)]) blast
  note sd = same_disk_view [OF u(1)]
  have iu: "vol_inv u" "dir_wf u 1" "map_of (dir_entries u 1) w = Some n" "live u n" "g_dev u = Some DISK_IMG"
    using v e n u(1) by (simp_all add: sd volume_on_def same_disk_def)
  have sm: "file_size u n \<le> 2 * DIRENT_SIZE" if "is_dir_mode (i_mode (inode_at u n))" using small that by (simp add: sd)
  obtain z where z: "cmd_delete (47 # w) u = Some (puts (bytes_of ''[OK]''), z)" "deleted u w n z"
    by (rule delete_ok [OF iu(1,2) pn iu(3,4) n(2) sm]) blast
  have dz: "deleted t w n z"
    using z(2) u(1) unfolding deleted_def sd same_disk_owned [OF u(1)] by (simp add: same_disk_def)
  have "map_of (dir_entries t 1) (bytes_of ''.session'') = None" using v by (simp add: volume_on_def)
  then have ws: "bytes_of ''.session'' \<noteq> w" using e by auto
  show thesis
  proof (rule that [of "snd (dev_close z)" z])
    show "main tz junk [bytes_of ''delete'', 47 # w] (proc_start h clk) = Some (0, puts (bytes_of ''[OK]''), snd (dev_close z))"
      unfolding u(2) using z(1) by (simp add: dispatch_def bytes_of_def)
    show "volume_on (host (snd (dev_close z))) z"
    proof (rule volume_on_close)
      have de: "dir_entries z 1 = remove1 (w, n) (dir_entries t 1)" using dz by (simp add: deleted_def)
      show "vol_inv z" "dir_wf z 1" "g_dev z = Some DISK_IMG" using z(2) iu(5) by (simp_all add: deleted_def)
      show "map_of (dir_entries z 1) USERS_NAME \<noteq> None" "map_of (dir_entries z 1) (bytes_of ''.session'') = None"
        unfolding de map_of_remove1 [OF wu [symmetric]] map_of_remove1 [OF ws] using v by (simp_all add: volume_on_def)
    qed
  qed (rule dz)
qed

lemma readf_absent:
  assumes v: "volume_on h t" and pn: "plain_name w" and e: "map_of (dir_entries t 1) w = None"
  shows "\<exists>q. main tz junk [bytes_of ''readf'', 47 # w, k] (proc_start h clk) = Some (0, puts (bytes_of ''readf: open fail''), q)"
proof -
  obtain y where y: "same_disk t y"
    "main tz junk [bytes_of ''readf'', 47 # w, k] (proc_start h clk) =
       do { (o1, s2) \<leftarrow> dispatch tz junk (bytes_of ''readf'') [47 # w, k] y; Some (0, o1, snd (dev_close s2)) }"
    by (rule process_ok [OF v process_names(3,4)]) blast
  note sy = same_disk_view [OF y(1)]
  have iy: "vol_inv y" "dir_wf y 1" "map_of (dir_entries y 1) w = None" using v e by (simp_all add: sy volume_on_def)
  have "namei (47 # w) y = Inl FS_ENOENT" using namei_root(1) [OF iy(1,2) pn] iy(3) by simp
  then have "cmd_readf (47 # w) (atoi k) y = Some (puts (bytes_of ''readf: open fail''), y)"
    by (simp add: cmd_readf_def fs_open_def bytes_of_def)
  then show ?thesis unfolding y(2) by (simp add: dispatch_def bytes_of_def)
qed

section \<open>Images that are no volume\<close>

text \<open>What \<open>fs_mount\<close> finds wrong: no file, a file without block 1, or another superblock.\<close>

definition no_volume :: "image option \<Rightarrow> bool" where
  "no_volume f \<longleftrightarrow> (case f of None \<Rightarrow> True | Some im \<Rightarrow> im_len im < 2 * BLOCK_SIZE \<or>
     magic (dec_sb (take 64 (im_blk im 1))) \<noteq> FS_MAGIC \<or> block_size (dec_sb (take 64 (im_blk im 1))) \<noteq> of_nat BLOCK_SIZE)"

lemma mount_refused:
  assumes "no_volume (h DISK_IMG)"
  shows "\<exists>p. fs_mount DISK_IMG (proc_start h clk) = Some (FS_ERR, p) \<and> host p = h"
proof (cases "h DISK_IMG")
  case None
  then show ?thesis by (simp add: fs_mount_def dev_open_def host_fopen_def proc_start_def bytes_of_def)
next
  case (Some im)
  let ?s = "(proc_start h clk)\<lparr>g_dev := Some DISK_IMG\<rparr>"
  have o: "dev_open DISK_IMG (bytes_of ''rb+'') (proc_start h clk) = (FS_OK, ?s)"
    using Some by (simp add: dev_open_def host_fopen_def proc_start_def bytes_of_def)
  have r: "dev_read_block BLK_SUPER ?s = (if 2 * BLOCK_SIZE \<le> im_len im then Some (im_blk im 1) else None)"
    using Some by (simp add: dev_read_block_def host_pread_def proc_start_def)
  show ?thesis
  proof (cases "2 * BLOCK_SIZE \<le> im_len im")
    case True
    let ?t = "?s\<lparr>g_sb := dec_sb (take 64 (im_blk im 1)), sb_slack := drop 64 (im_blk im 1)\<rparr>"
    have "load_sb ?s = (FS_OK, ?t)" using r True by (simp add: load_sb_def)
    then have "fs_mount DISK_IMG (proc_start h clk) = Some (FS_ERR, ?t)"
      using assms o Some True by (auto simp: fs_mount_def no_volume_def)
    then show ?thesis by (simp add: proc_start_def)
  next
    case False
    then have "load_sb ?s = (FS_ERR, ?s)" using r by (simp add: load_sb_def)
    then show ?thesis using o by (simp add: fs_mount_def proc_start_def)
  qed
qed

end
