(* ===== verification/Store.thy ===== *)
theory Store
  imports Cli
begin

text \<open>
  What \<open>writef\<close>, \<open>readf\<close> and \<open>delete\<close> of \<open>myfs.c\<close> promise to a user who runs them one process after
  another on files of the root directory: a store that maps names to texts. The store is the
  specification; \<open>processes\<close> runs the program once per command on the host's files, and the
  relation \<open>good\<close> links the two: the texts of the store are stored on the volume, other names are
  absent, and the volume still has the directory slots, inodes and blocks of a fresh one but for
  what the commands so far may have used.
\<close>

section \<open>The store\<close>

datatype store_op = Put bytes bytes | Get bytes nat | Del bytes

type_synonym store = "bytes \<Rightarrow> bytes option"

text \<open>
  A \<open>writef\<close> over a longer text keeps its tail: the file is opened without truncation.
\<close>

fun store_step :: "store_op \<Rightarrow> store \<Rightarrow> bytes \<times> store" where
  "store_step (Put w x) A =
     (bytes_of ''wrote='' @ fmt_d (int (length x)) @ [10],
      A(w \<mapsto> x @ drop (length x) (case A w of None \<Rightarrow> [] | Some y \<Rightarrow> y)))"
| "store_step (Get w c) A =
     ((case A w of
        None \<Rightarrow> bytes_of ''readf: open fail''
      | Some y \<Rightarrow> bytes_of ''read='' @ fmt_d (int (min c (length y))) @ bytes_of '': '' @ take c y) @ [10], A)"
| "store_step (Del w) A =
     ((case A w of None \<Rightarrow> bytes_of ''delete: noent'' | Some _ \<Rightarrow> bytes_of ''[OK]'') @ [10], A(w := None))"

fun store_run :: "store_op list \<Rightarrow> store \<Rightarrow> bytes list" where
  "store_run [] A = []"
| "store_run (op # ops) A = (case store_step op A of (out, B) \<Rightarrow> out # store_run ops B)"

text \<open>
  The command line of an operation, and a run of the program for each of a list of command lines.
  Every process has a clock of its own, by the number of processes still to run.
\<close>

fun argv :: "store_op \<Rightarrow> bytes list" where
  "argv (Put w x) = [bytes_of ''writef'', 47 # w, x]"
| "argv (Get w c) = [bytes_of ''readf'', 47 # w, fmt_d (int c)]"
| "argv (Del w) = [bytes_of ''delete'', 47 # w]"

fun processes :: "int \<Rightarrow> bytes \<Rightarrow> (nat \<Rightarrow> nat \<Rightarrow> u32) \<Rightarrow> bytes list list \<Rightarrow> (bytes \<Rightarrow> image option) \<Rightarrow> ((int \<times> bytes) list \<times> fs) option" where
  "processes tz junk clk [] h = Some ([], proc_start h (clk 0))"
| "processes tz junk clk (args # rest) h = do {
     (code, out, s) \<leftarrow> main tz junk args (proc_start h (clk (Suc (length rest))));
     (outs, t) \<leftarrow> processes tz junk clk rest (host s);
     Some ((code, out) # outs, t) }"

text \<open>
  The operations the statement is about: a plain name that the file system does not use itself, a
  text without zero bytes that fits a file, a count that \<open>atoi\<close> can return; and what one may cost.
\<close>

definition user_name :: "bytes \<Rightarrow> bool" where
  "user_name w \<longleftrightarrow> plain_name w \<and> w \<notin> {bytes_of ''.'', bytes_of ''..'', USERS_NAME, bytes_of ''.session''}"

fun op_ok :: "store_op \<Rightarrow> bool" where
  "op_ok (Put w x) \<longleftrightarrow> user_name w \<and> length x \<le> FILE_MAX \<and> 0 \<notin> set x"
| "op_ok (Get w c) \<longleftrightarrow> user_name w \<and> c < 2 ^ 31"
| "op_ok (Del w) \<longleftrightarrow> user_name w"

fun slots :: "store_op \<Rightarrow> nat" where
  "slots (Put w x) = 1"
| "slots (Get w c) = 0"
| "slots (Del w) = 0"

fun cost :: "store_op \<Rightarrow> nat" where
  "cost (Put w x) = blocks_touched 0 (length x) + 2"
| "cost (Get w c) = 0"
| "cost (Del w) = 0"

section \<open>The relation\<close>

definition holds :: "store \<Rightarrow> fs \<Rightarrow> bool" where
  "holds A t \<longleftrightarrow> distinct (map fst (dir_entries t 1)) \<and>
     (\<forall>w. user_name w \<longrightarrow> (case A w of None \<Rightarrow> map_of (dir_entries t 1) w = None
        | Some y \<Rightarrow> 0 \<notin> set y \<and> (\<exists>n. stored t w n y))) \<and>
     (\<forall>w w' n. user_name w \<and> user_name w' \<and> map_of (dir_entries t 1) w = Some n \<and> map_of (dir_entries t 1) w' = Some n \<longrightarrow> w = w')"

definition good :: "store \<Rightarrow> nat \<Rightarrow> nat \<Rightarrow> fs \<Rightarrow> bool" where
  "good A k b t \<longleftrightarrow> volume_on (host t) t \<and> holds A t \<and> n_slots (inode_at t 1) \<le> 3 + k \<and>
     finite (Collect (live t)) \<and> card (Collect (live t)) \<le> 2 + k \<and> 4000 \<le> nfree_blocks t + b"

lemma live_finite: "finite (Collect (live t))"
  by (rule finite_subset [of _ "{..MAX_INODES}"]) (auto simp: live_def)

lemma goodD:
  assumes "good A k b t"
  shows "vol_inv t" "dir_wf t 1" "g_dev t = Some DISK_IMG" "holds A t" "n_slots (inode_at t 1) \<le> 3 + k"
    "card (Collect (live t)) \<le> 2 + k" "4000 \<le> nfree_blocks t + b"
    "map_of (dir_entries t 1) USERS_NAME \<noteq> None" "map_of (dir_entries t 1) (bytes_of ''.session'') = None"
  using assms by (simp_all add: good_def volume_on_def)

lemma goodI:
  assumes "vol_inv t" "dir_wf t 1" "g_dev t = Some DISK_IMG" "holds A t" "n_slots (inode_at t 1) \<le> 3 + k"
    "card (Collect (live t)) \<le> 2 + k" "4000 \<le> nfree_blocks t + b"
    "map_of (dir_entries t 1) USERS_NAME \<noteq> None" "map_of (dir_entries t 1) (bytes_of ''.session'') = None"
  shows "good A k b t"
  using assms by (simp add: good_def volume_on_def live_finite)

lemma holds_cases:
  assumes "holds A t" and "user_name w"
  obtains "A w = None" "map_of (dir_entries t 1) w = None"
    | y n where "A w = Some y" "0 \<notin> set y" "stored t w n y"
proof -
  have c: "case A w of None \<Rightarrow> map_of (dir_entries t 1) w = None | Some y \<Rightarrow> 0 \<notin> set y \<and> (\<exists>n. stored t w n y)"
    using assms by (simp add: holds_def)
  show thesis
  proof (cases "A w")
    case None
    with c show thesis using that(1) by simp
  next
    case (Some y)
    with c show thesis using that(2) by auto
  qed
qed

text \<open>A stored file stays so while its entry, its inode and its blocks do.\<close>

lemma stored_frame:
  assumes "stored s w n y" and "map_of (dir_entries t 1) w = map_of (dir_entries s 1) w" and "live t n"
    and "inode_at t n = inode_at s n" and "file_at t n = file_at s n" and "hole_at t n = hole_at s n"
  shows "stored t w n y"
  using assms by (simp add: stored_def file_size_def)

text \<open>
  The relation after a step that gives one name a new text, or removes it, and leaves the files of
  the other names alone.
\<close>

lemma holds_step:
  assumes h: "holds A s" and w: "user_name w"
    and d: "distinct (map fst (dir_entries t 1))"
    and names: "\<And>v. v \<noteq> w \<Longrightarrow> map_of (dir_entries t 1) v = map_of (dir_entries s 1) v"
    and new: "case a of None \<Rightarrow> map_of (dir_entries t 1) w = None | Some y \<Rightarrow> 0 \<notin> set y \<and> stored t w n y"
    and others: "\<And>v m y. user_name v \<Longrightarrow> v \<noteq> w \<Longrightarrow> stored s v m y \<Longrightarrow>
      m \<noteq> n \<and> live t m \<and> inode_at t m = inode_at s m \<and> file_at t m = file_at s m \<and> hole_at t m = hole_at s m"
  shows "holds (A(w := a)) t"
proof -
  have mine: "m = n" if "map_of (dir_entries t 1) w = Some m" for m
    using new that by (auto simp: stored_def split: option.splits)
  have keep: "stored t v m y" if "user_name v" "v \<noteq> w" "stored s v m y" for v m y
    using stored_frame [OF that(3) names [OF that(2)]] others [OF that] by blast
  have away: "m \<noteq> n" if "user_name v" "v \<noteq> w" "map_of (dir_entries t 1) v = Some m" for v m
    using that(1)
  proof (rule holds_cases [OF h])
    assume "map_of (dir_entries s 1) v = None"
    then show ?thesis using that(3) names [OF that(2)] by simp
  next
    fix y m'
    assume st: "stored s v m' y"
    then have "m' = m" using that(3) names [OF that(2)] by (simp add: stored_def)
    then show ?thesis using others [OF that(1,2) st] by simp
  qed
  have inj: "v = v'" if "user_name v" "user_name v'" "map_of (dir_entries t 1) v = Some m" "map_of (dir_entries t 1) v' = Some m" for v v' m
  proof (cases "v = w \<or> v' = w")
    case True
    then show ?thesis using mine away that by metis
  next
    case False
    then show ?thesis using h that names [of v] names [of v'] unfolding holds_def by auto
  qed
  have "case (A(w := a)) v of None \<Rightarrow> map_of (dir_entries t 1) v = None | Some y \<Rightarrow> 0 \<notin> set y \<and> (\<exists>n. stored t v n y)"
    if v: "user_name v" for v
  proof (cases "v = w")
    case True
    with new show ?thesis by (auto split: option.splits)
  next
    case False
    from h v show ?thesis
      by (rule holds_cases) (use False names [OF False] keep [OF v False] in auto)
  qed
  with d inj show ?thesis unfolding holds_def by blast
qed

lemma same_names:
  assumes "holds A s" and "user_name w" and "user_name v" and "v \<noteq> w" and "stored s w n x" and "stored s v m y"
  shows "m \<noteq> n"
  using assms unfolding holds_def stored_def by metis

section \<open>Commands\<close>

text \<open>What a command starts from: the mounted volume, root, a free descriptor.\<close>

definition ready :: "fs \<Rightarrow> bool" where
  "ready s \<longleftrightarrow> g_uid s = 0 \<and> length (g_ofile s) = MAX_OPEN \<and> (\<exists>f \<in> set (g_ofile s). \<not> of_used f)"

lemma good_same_disk:
  assumes "good A k b t" and "same_disk t u"
  shows "good A k b u"
proof -
  note sd = same_disk_view [OF assms(2)]
  have "holds A u = holds A t" unfolding holds_def sd stored_same_disk [OF assms(2)] ..
  with assms show ?thesis by (simp add: good_def volume_on_def sd same_disk_def)
qed

lemma spare_inode:
  assumes "card (Collect (live s)) < MAX_INODES"
  obtains m where "valid_ino m" "\<not> live s m"
proof -
  have "\<not> {1..MAX_INODES} \<subseteq> Collect (live s)"
    using card_mono [OF live_finite, of "{1..MAX_INODES}" s] assms by auto
  then obtain m where "m \<in> {1..MAX_INODES}" "\<not> live s m" by blast
  with that show thesis by simp
qed

lemma put_step:
  assumes g: "good A k b s" and r: "ready s" and ok: "op_ok (Put w x)" and k: "k < 77" and b: "b + cost (Put w x) \<le> 4000"
  shows "\<exists>t. cmd_writef (47 # w) x s = Some (fst (store_step (Put w x) A), t) \<and>
    good (snd (store_step (Put w x) A)) (Suc k) (b + cost (Put w x)) t"
proof -
  note gd = goodD [OF g]
  have w: "user_name w" "plain_name w" "w \<noteq> USERS_NAME" "w \<noteq> bytes_of ''.session''" and x: "length x \<le> FILE_MAX" "0 \<notin> set x"
    using ok by (auto simp: user_name_def)
  have r': "g_uid s = 0" "length (g_ofile s) = MAX_OPEN" "\<exists>f \<in> set (g_ofile s). \<not> of_used f" using r by (simp_all add: ready_def)
  have out: "wrote_line (int (length x)) = fst (store_step (Put w x) A)" by (simp add: wrote_line_def puts_def)
  have dist: "distinct (map fst (dir_entries s 1))" using gd(4) by (simp add: holds_def)
  from gd(4) w(1) show ?thesis
  proof (rule holds_cases)
    assume e: "A w = None" "map_of (dir_entries s 1) w = None"
    obtain m where m: "valid_ino m" "\<not> live s m" using spare_inode [of s] gd(6) k by auto
    have ns: "n_slots (inode_at s 1) < 80" using gd(5) k by simp
    have rm: "blocks_touched 0 (length x) + 2 \<le> nfree_blocks s" using gd(7) b by simp
    obtain n t where t: "cmd_writef (47 # w) x s = Some (wrote_line (int (length x)), t)" "vol_inv t" "dir_wf t 1" "stored t w n x"
      "dir_entries t 1 = dir_entries s 1 @ [(w, n)]" "g_dev t = g_dev s"
      "\<forall>k. live s k \<and> k \<noteq> 1 \<longrightarrow> live t k \<and> inode_at t k = inode_at s k \<and> file_at t k = file_at s k \<and> hole_at t k = hole_at s k"
      "\<not> live s n" "live t = (live s)(n := True)" "nfree_blocks s \<le> nfree_blocks t + (blocks_touched 0 (length x) + 2)"
      "n_slots (inode_at t 1) \<le> Suc (n_slots (inode_at s 1))"
      by (rule writef_new_ok [OF gd(1,2) w(2) e(2) ns rm m r'(2,3) x(1)]) blast
    have "holds (A(w := Some x)) t"
    proof (rule holds_step [OF gd(4) w(1), where n = n])
      show "distinct (map fst (dir_entries t 1))" unfolding t(5) using dist e(2) by (simp add: map_of_eq_None_iff)
      show "map_of (dir_entries t 1) v = map_of (dir_entries s 1) v" if "v \<noteq> w" for v unfolding t(5) by (rule map_of_snoc [OF that])
      show "case Some x of None \<Rightarrow> map_of (dir_entries t 1) w = None | Some y \<Rightarrow> 0 \<notin> set y \<and> stored t w n y" using t(4) x(2) by simp
      show "m \<noteq> n \<and> live t m \<and> inode_at t m = inode_at s m \<and> file_at t m = file_at s m \<and> hole_at t m = hole_at s m"
        if "stored s v m y" for v m y
        using that t(7,8) unfolding stored_def by blast
    qed
    moreover have "Collect (live t) = insert n (Collect (live s))" by (auto simp: t(9))
    then have "card (Collect (live t)) \<le> 2 + Suc k" using gd(6) live_finite t(8) by (simp add: card_insert_if)
    moreover have "map_of (dir_entries t 1) USERS_NAME \<noteq> None" "map_of (dir_entries t 1) (bytes_of ''.session'') = None"
      unfolding t(5) map_of_snoc [OF w(3) [symmetric]] map_of_snoc [OF w(4) [symmetric]] by (rule gd(8,9))+
    ultimately have "good (A(w := Some x)) (Suc k) (b + cost (Put w x)) t"
      using t(2,3,6,10,11) gd(3,5,7) by (intro goodI) simp_all
    with t(1) e(1) show ?thesis unfolding out by (auto simp: fun_upd_def)
  next
    fix y n
    assume e: "A w = Some y" "0 \<notin> set y" "stored s w n y"
    have rm: "blocks_touched 0 (length x) + 1 \<le> nfree_blocks s" using gd(7) b by simp
    obtain t where t: "cmd_writef (47 # w) x s = Some (wrote_line (int (length x)), t)" "file_step s n t"
      "stored t w n (x @ drop (length x) y)" "nfree_blocks s \<le> nfree_blocks t + (blocks_touched 0 (length x) + 1)"
      by (rule writef_over_ok [OF gd(1,2) w(2) e(3) r'(1-3) x(1) rm]) blast
    have n1: "n \<noteq> 1" using e(3) by (simp add: stored_def)
    have st: "vol_inv t" "dir_wf t 1" "dir_entries t 1 = dir_entries s 1" "live t = live s" "g_dev t = g_dev s"
      "inode_at t 1 = inode_at s 1"
      using t(2) gd(2) n1 by (auto simp: file_step_def dir_wf_def)
    have "holds (A(w := Some (x @ drop (length x) y))) t"
    proof (rule holds_step [OF gd(4) w(1), where n = n])
      show "distinct (map fst (dir_entries t 1))" unfolding st by (rule dist)
      show "case Some (x @ drop (length x) y) of None \<Rightarrow> map_of (dir_entries t 1) w = None | Some y \<Rightarrow> 0 \<notin> set y \<and> stored t w n y"
        using t(3) x(2) e(2) by (auto dest: in_set_dropD)
      show "m \<noteq> n \<and> live t m \<and> inode_at t m = inode_at s m \<and> file_at t m = file_at s m \<and> hole_at t m = hole_at s m"
        if v: "user_name v" "v \<noteq> w" "stored s v m z" for v m z
      proof -
        have "m \<noteq> n" by (rule same_names [OF gd(4) w(1) v(1,2) e(3) v(3)])
        moreover have "live s m" using v(3) by (simp add: stored_def)
        ultimately show ?thesis using t(2) by (simp add: file_step_def)
      qed
    qed (unfold st, rule refl)
    then have "good (A(w := Some (x @ drop (length x) y))) (Suc k) (b + cost (Put w x)) t"
      using st t(4) gd(3,5-9) by (intro goodI) simp_all
    with t(1) e(1) show ?thesis unfolding out by (auto simp: fun_upd_def)
  qed
qed

lemma get_step:
  assumes g: "good A k b s" and r: "ready s" and ok: "op_ok (Get w c)"
  shows "\<exists>t. cmd_readf (47 # w) (int c) s = Some (fst (store_step (Get w c) A), t) \<and> good A k b t"
proof -
  note gd = goodD [OF g]
  have w: "user_name w" "plain_name w" "c < 2 ^ 31" using ok by (auto simp: user_name_def)
  have r': "g_uid s = 0" "length (g_ofile s) = MAX_OPEN" "\<exists>f \<in> set (g_ofile s). \<not> of_used f" using r by (simp_all add: ready_def)
  from gd(4) w(1) show ?thesis
  proof (rule holds_cases)
    assume e: "A w = None" "map_of (dir_entries s 1) w = None"
    have "namei (47 # w) s = Inl FS_ENOENT" using namei_root(1) [OF gd(1,2) w(2)] e(2) by simp
    then show ?thesis using g e(1) by (simp add: cmd_readf_def fs_open_def bytes_of_def puts_def)
  next
    fix y n
    assume e: "A w = Some y" "0 \<notin> set y" "stored s w n y"
    obtain t where t: "cmd_readf (47 # w) (int c) s = Some (read_line (int (min c (length y))) (take c y), t)" "file_step s n t"
      "stored t w n y" "nfree_blocks t = nfree_blocks s"
      by (rule readf_stored_ok [OF gd(1,2) w(2) e(3) r' w(3)]) blast
    have "0 \<notin> set (take c y)" using e(2) by (auto dest: in_set_takeD)
    then have "read_line (int (min c (length y))) (take c y) = fst (store_step (Get w c) A)"
      using e(1) by (simp add: read_line_def cstr_id puts_def)
    moreover have "good A k b t"
    proof -
      have n1: "n \<noteq> 1" using e(3) by (simp add: stored_def)
      have st: "vol_inv t" "dir_wf t 1" "dir_entries t 1 = dir_entries s 1" "live t = live s" "g_dev t = g_dev s"
        "inode_at t 1 = inode_at s 1"
        using t(2) gd(2) n1 by (auto simp: file_step_def dir_wf_def)
      have "holds (A(w := Some y)) t"
      proof (rule holds_step [OF gd(4) w(1), where n = n])
        show "distinct (map fst (dir_entries t 1))" unfolding st using gd(4) by (simp add: holds_def)
        show "case Some y of None \<Rightarrow> map_of (dir_entries t 1) w = None | Some y \<Rightarrow> 0 \<notin> set y \<and> stored t w n y"
          using t(3) e(2) by simp
        show "m \<noteq> n \<and> live t m \<and> inode_at t m = inode_at s m \<and> file_at t m = file_at s m \<and> hole_at t m = hole_at s m"
          if v: "user_name v" "v \<noteq> w" "stored s v m z" for v m z
          using same_names [OF gd(4) w(1) v(1,2) e(3) v(3)] v(3) t(2) by (simp add: stored_def file_step_def)
      qed (unfold st, rule refl)
      moreover have "A(w := Some y) = A" using e(1) by auto
      ultimately show ?thesis using st t(4) gd(3,5-9) by (intro goodI) simp_all
    qed
    ultimately show ?thesis using t(1) by auto
  qed
qed

lemma map_of_remove1_self: "distinct (map fst xs) \<Longrightarrow> (w, n) \<in> set xs \<Longrightarrow> map_of (remove1 (w, n) xs) w = None"
  by (induction xs) (force simp: map_of_eq_None_iff)+

lemma del_step:
  assumes g: "good A k b s" and r: "ready s" and ok: "op_ok (Del w)"
  shows "\<exists>t. cmd_delete (47 # w) s = Some (fst (store_step (Del w) A), t) \<and> good (snd (store_step (Del w) A)) k b t"
proof -
  note gd = goodD [OF g]
  have w: "user_name w" "plain_name w" "w \<noteq> USERS_NAME" "w \<noteq> bytes_of ''.session''" using ok by (auto simp: user_name_def)
  from gd(4) w(1) show ?thesis
  proof (rule holds_cases)
    assume e: "A w = None" "map_of (dir_entries s 1) w = None"
    have "namei (47 # w) s = Inl FS_ENOENT" using namei_root(1) [OF gd(1,2) w(2)] e(2) by simp
    moreover have "A(w := None) = A" using e(1) by auto
    ultimately show ?thesis using g e(1) by (simp add: cmd_delete_def puts_def)
  next
    fix y n
    assume e: "A w = Some y" "0 \<notin> set y" "stored s w n y"
    then have n: "map_of (dir_entries s 1) w = Some n" "live s n" "n \<noteq> 1" "\<not> is_dir_mode (i_mode (inode_at s n))"
      by (simp_all add: stored_def)
    obtain t where t: "cmd_delete (47 # w) s = Some (puts (bytes_of ''[OK]''), t)" "deleted s w n t"
      by (rule delete_ok [OF gd(1,2) w(2) n(1-3)]) (use n(4) in blast)+
    note d = t(2) [unfolded deleted_def]
    have de: "dir_entries t 1 = remove1 (w, n) (dir_entries s 1)" using d by blast
    have dist: "distinct (map fst (dir_entries s 1))" using gd(4) by (simp add: holds_def)
    have "holds (A(w := None)) t"
    proof (rule holds_step [OF gd(4) w(1), where n = n])
      have "distinct (map fst (remove1 x xs))" if "distinct (map fst xs)" for x and xs :: "(bytes \<times> nat) list"
        using that by (induction xs) (auto dest: in_set_remove1 [THEN iffD1, rotated] notin_set_remove1 simp: image_iff)
      then show "distinct (map fst (dir_entries t 1))" unfolding de using dist by blast
      show "map_of (dir_entries t 1) v = map_of (dir_entries s 1) v" if "v \<noteq> w" for v unfolding de by (rule map_of_remove1 [OF that])
      show "case None of None \<Rightarrow> map_of (dir_entries t 1) w = None | Some y \<Rightarrow> 0 \<notin> set y \<and> stored t w n y"
        unfolding de using map_of_remove1_self [OF dist map_of_SomeD [OF n(1)]] by simp
      show "m \<noteq> n \<and> live t m \<and> inode_at t m = inode_at s m \<and> file_at t m = file_at s m \<and> hole_at t m = hole_at s m"
        if v: "user_name v" "v \<noteq> w" "stored s v m z" for v m z
      proof -
        have "m \<noteq> n" by (rule same_names [OF gd(4) w(1) v(1,2) e(3) v(3)])
        moreover have "live s m" "m \<noteq> 1" using v(3) by (simp_all add: stored_def)
        ultimately show ?thesis using d by simp
      qed
    qed
    moreover have "nfree_blocks s \<le> nfree_blocks t"
      unfolding nfree_blocks_def n_free_def by (rule card_mono) (use d in auto)
    moreover have "card (Collect (live t)) \<le> card (Collect (live s))"
      by (rule card_mono [OF live_finite]) (use d in \<open>auto split: if_splits\<close>)
    moreover have "map_of (dir_entries t 1) USERS_NAME \<noteq> None" "map_of (dir_entries t 1) (bytes_of ''.session'') = None"
      unfolding de map_of_remove1 [OF w(3) [symmetric]] map_of_remove1 [OF w(4) [symmetric]] by (rule gd(8,9))+
    ultimately have "good (A(w := None)) k b t" using d gd(3,5-7) by (intro goodI) simp_all
    with t(1) e(1) show ?thesis by (simp add: puts_def)
  qed
qed

section \<open>Processes\<close>

text \<open>One operation as a process: it prints what the store says and leaves the relation.\<close>

lemma op_process:
  assumes g: "good A k b t" and ok: "op_ok op" and k: "k + slots op \<le> 77" and b: "b + cost op \<le> 4000"
  shows "\<exists>p v. main tz junk (argv op) (proc_start (host t) clk) = Some (0, fst (store_step op A), p) \<and>
    host p = host v \<and> good (snd (store_step op A)) (k + slots op) (b + cost op) v"
proof -
  have v: "volume_on (host t) t" using g by (simp add: good_def)
  obtain c as where a: "argv op = c # as" "c \<noteq> bytes_of ''format''" "c \<noteq> bytes_of ''mount''"
    by (cases op) (simp_all add: bytes_of_def)
  obtain u where u: "same_disk t u" "ready u" "main tz junk (c # as) (proc_start (host t) clk) =
      do { (o1, s2) \<leftarrow> dispatch tz junk c as u; Some (0, o1, snd (dev_close s2)) }"
    by (rule process_ok [OF v a(2,3), where tz = tz and junk = junk and clk = clk and as = as]) (unfold ready_def, blast)
  note gu = good_same_disk [OF g u(1)]
  have "\<exists>z. dispatch tz junk c as u = Some (fst (store_step op A), z) \<and> good (snd (store_step op A)) (k + slots op) (b + cost op) z"
  proof (cases op)
    case (Put w x)
    then have "c = bytes_of ''writef''" "as = [47 # w, x]" using a(1) by simp_all
    then have "dispatch tz junk c as u = cmd_writef (47 # w) x u" by (simp add: dispatch_def bytes_of_def)
    with put_step [OF gu u(2), of w x] Put ok k b show ?thesis by simp
  next
    case (Get w c')
    then have "c = bytes_of ''readf''" "as = [47 # w, fmt_d (int c')]" using a(1) by simp_all
    moreover have "atoi (fmt_d (int c')) = int c'" using Get ok by (intro atoi_fmt_d) simp_all
    ultimately have "dispatch tz junk c as u = cmd_readf (47 # w) (int c') u" by (simp add: dispatch_def bytes_of_def)
    with get_step [OF gu u(2), of w c'] Get ok show ?thesis by simp
  next
    case (Del w)
    then have "c = bytes_of ''delete''" "as = [47 # w]" using a(1) by simp_all
    then have "dispatch tz junk c as u = cmd_delete (47 # w) u" by (simp add: dispatch_def bytes_of_def)
    with del_step [OF gu u(2), of w] Del ok show ?thesis by simp
  qed
  then obtain z where z: "dispatch tz junk c as u = Some (fst (store_step op A), z)"
    "good (snd (store_step op A)) (k + slots op) (b + cost op) z" by blast
  have "main tz junk (argv op) (proc_start (host t) clk) = Some (0, fst (store_step op A), snd (dev_close z))"
    unfolding a(1) u(3) using z(1) by simp
  moreover have "host (snd (dev_close z)) = host z" by (simp add: dev_close_def)
  ultimately show ?thesis using z(2) by blast
qed

lemma store_processes:
  assumes "good A k b t" and "\<forall>op \<in> set ops. op_ok op" and "k + sum_list (map slots ops) \<le> 77" and "b + sum_list (map cost ops) \<le> 4000"
  shows "\<exists>p. processes tz junk clk (map argv ops) (host t) = Some (map (Pair 0) (store_run ops A), p)"
  using assms
proof (induction ops arbitrary: A k b t)
  case Nil
  then show ?case by simp
next
  case (Cons op ops)
  have "op_ok op" "k + slots op \<le> 77" "b + cost op \<le> 4000" using Cons.prems by simp_all
  then obtain p v where v: "main tz junk (argv op) (proc_start (host t) (clk (Suc (length ops)))) = Some (0, fst (store_step op A), p)"
    "host p = host v" "good (snd (store_step op A)) (k + slots op) (b + cost op) v"
    using op_process [OF Cons.prems(1)] by blast
  from Cons.IH [OF v(3)] Cons.prems(2-4) obtain q where
    "processes tz junk clk (map argv ops) (host v) = Some (map (Pair 0) (store_run ops (snd (store_step op A))), q)"
    by auto
  with v(1,2) show ?case by (auto split: prod.splits)
qed

text \<open>The volume that \<open>format\<close> makes is the empty store, whatever files the host has.\<close>

lemma format_process:
  obtains p t where "main tz junk [bytes_of ''format''] (proc_start h clk) = Some (0, bytes_of ''[OK] formatted'' @ [10], p)"
    "host p = host t" "good Map.empty 0 0 t"
proof -
  let ?s = "proc_start h clk"
  have "mem_ok ?s" "\<forall>f \<in> set (g_ofile ?s). \<not> of_used f" "\<not> denied ?s DISK_IMG" by (simp_all add: proc_start_def mem_ok_def zero_ofile_def)
  then obtain n t where t: "fs_format ?s = Some (FS_OK, snd (dev_close t))" "g_dev t = Some DISK_IMG" "fresh_volume t n"
    by (rule fs_format_ok) blast
  show thesis
  proof (rule that)
    show "main tz junk [bytes_of ''format''] ?s = Some (0, bytes_of ''[OK] formatted'' @ [10], snd (dev_close t))"
      using t(1) by (simp add: main_def cmd_format_def puts_def)
    show "host (snd (dev_close t)) = host t" by (simp add: dev_close_def)
    have e: "dir_entries t 1 = [(bytes_of ''.'', 1), (bytes_of ''..'', 1), (USERS_NAME, n)]" using t(3) by (simp add: fresh_volume_def)
    have none: "map_of (dir_entries t 1) w = None" if "user_name w" for w
      unfolding e using that by (simp add: user_name_def)
    have "distinct (map fst (dir_entries t 1))" unfolding e by (simp add: bytes_of_def)
    then have "holds Map.empty t"
      unfolding holds_def by (intro conjI allI impI; (elim conjE)?) (simp_all add: none [unfolded One_nat_def] del: map_of_eq_Some_iff)
    moreover have "map_of (dir_entries t 1) USERS_NAME \<noteq> None" "map_of (dir_entries t 1) (bytes_of ''.session'') = None"
      unfolding e by (simp_all add: bytes_of_def)
    moreover have "Collect (live t) = {1, n}" using t(3) by (auto simp: fresh_volume_def)
    then have "card (Collect (live t)) \<le> 2" by (simp add: card_insert_if)
    ultimately show "good Map.empty 0 0 t" using t(2,3) by (intro goodI) (simp_all add: fresh_volume_def)
  qed
qed

end
