(* ===== verification/Cli_Props.thy ===== *)
theory Cli_Props
  imports Store Demo
begin

text \<open>
  The properties of the command line of \<open>project3\<close>: whole processes, from the globals a process
  starts with to its exit code, its output and the files it leaves on the host. The witnesses run
  on the image that \<open>format\<close> makes on a host without files.
\<close>

section \<open>The formatted image\<close>

lemma demo_volume:
  obtains t where "volume_on (host demo_disk) t" "fresh_volume t demo_users"
proof -
  obtain n t where t: "demo_disk = snd (dev_close t)" "g_dev t = Some DISK_IMG" "fresh_volume t n" "same_disk t demo"
    by (rule demo_mounted) blast
  have "demo_users = n" by (rule demo_namei_users [OF t(3,4)])
  moreover have "volume_on (host demo_disk) t"
    unfolding t(1) by (rule volume_on_close) (use t(2,3) in \<open>simp_all add: fresh_volume_def bytes_of_def\<close>)
  ultimately show thesis using that t(3) by blast
qed

lemma fresh_room:
  assumes "fresh_volume t n"
  shows "n_slots (inode_at t 1) < 80" "\<exists>m. valid_ino m \<and> \<not> live t m" "4000 \<le> nfree_blocks t"
    "dir_entries t 1 = [(bytes_of ''.'', 1), (bytes_of ''..'', 1), (USERS_NAME, n)]" "vol_inv t" "dir_wf t 1"
proof -
  show "\<exists>m. valid_ino m \<and> \<not> live t m"
    using assms by (intro exI [of _ "if n = 2 then 3 else 2"]) (auto simp: fresh_volume_def)
qed (use assms in \<open>simp_all add: fresh_volume_def\<close>)

section \<open>Properties\<close>

text \<open>C1: Run as separate processes after \<open>format\<close>, \<open>writef\<close>, \<open>readf\<close> and \<open>delete\<close> implement a map from names
  to texts: on any host, every sequence of these commands on plain names, of at most 77 \<open>writef\<close>s
  that together touch few enough blocks, runs to its end with exit codes 0 and prints exactly what
  the store prints, the errors for absent names included.\<close>
theorem processes_refine_store:
  assumes "\<forall>op \<in> set ops. op_ok op" and "sum_list (map slots ops) \<le> 77" and "sum_list (map cost ops) \<le> 4000"
  shows "\<exists>p. processes tz junk clk ([bytes_of ''format''] # map argv ops) h =
    Some ((0, bytes_of ''[OK] formatted'' @ [10]) # map (Pair 0) (store_run ops Map.empty), p)"
proof -
  obtain p t where f: "main tz junk [bytes_of ''format''] (proc_start h (clk (Suc (length ops)))) = Some (0, bytes_of ''[OK] formatted'' @ [10], p)"
    "host p = host t" "good Map.empty 0 0 t"
    by (rule format_process)
  obtain q where "processes tz junk clk (map argv ops) (host t) = Some (map (Pair 0) (store_run ops Map.empty), q)"
    using store_processes [OF f(3) assms(1), of tz junk clk] assms(2,3) by auto
  with f(1,2) show ?thesis by simp
qed

lemma processes_refine_store_witness:
  "\<exists>p. processes 0 [] (\<lambda>_ _. 0) ([bytes_of ''format''] # map argv [Put [97] [104, 105], Put [97] [72], Get [97] 9, Del [97], Get [97] 9])
      (\<lambda>_. None) =
    Some ([(0, bytes_of ''[OK] formatted'' @ [10]), (0, bytes_of ''wrote=2'' @ [10]), (0, bytes_of ''wrote=1'' @ [10]),
      (0, bytes_of ''read=2: '' @ [72, 105, 10]), (0, bytes_of ''[OK]'' @ [10]), (0, bytes_of ''readf: open fail'' @ [10])], p)"
proof -
  let ?ops = "[Put [97] [104, 105], Put [97] [72], Get [97] 9, Del [97], Get [97] 9]"
  have "user_name [97]" by (simp add: user_name_def plain_name_def bytes_of_def)
  then have "\<forall>op \<in> set ?ops. op_ok op" "sum_list (map slots ?ops) \<le> 77" "sum_list (map cost ?ops) \<le> 4000"
    by (simp_all add: blocks_touched_def)
  from processes_refine_store [OF this, of 0 "[]" "\<lambda>_ _. 0" "\<lambda>_. None"]
  show ?thesis by (simp add: bytes_of_def fmt_d_def fmt_u.simps del: processes.simps)
qed

text \<open>What one process stores, every later one reads: on a volume with room a \<open>writef\<close> of a new
  name prints the length of the text, and any process that then runs \<open>readf\<close> on the image it left
  prints exactly the text; the image stays a consistent volume after both.\<close>
lemma stored_text_survives:
  assumes "volume_on h t" and "plain_name w" and "w \<noteq> bytes_of ''.session''" and "map_of (dir_entries t 1) w = None"
    and "n_slots (inode_at t 1) < 80" and "valid_ino m" and "\<not> live t m"
    and "blocks_touched 0 (length x) + 2 \<le> nfree_blocks t" and "length x \<le> FILE_MAX" and "0 \<notin> set x"
  shows "\<exists>p v. main tz junk [bytes_of ''writef'', 47 # w, x] (proc_start h clk) = Some (0, wrote_line (int (length x)), p) \<and>
    volume_on (host p) v \<and>
    (\<forall>tz' junk' clk'. \<exists>q v'. main tz' junk' [bytes_of ''readf'', 47 # w, fmt_d (int (length x))] (proc_start (host p) clk') =
        Some (0, puts (bytes_of ''read='' @ fmt_d (int (length x)) @ bytes_of '': '' @ x), q) \<and> volume_on (host q) v')"
proof -
  obtain n p v where v: "main tz junk [bytes_of ''writef'', 47 # w, x] (proc_start h clk) = Some (0, wrote_line (int (length x)), p)"
    "volume_on (host p) v" "stored v w n x"
    by (rule writef_process [OF assms(1-5,8,6,7,9)]) blast
  have len: "length x < 2 ^ 31" using assms(9) by simp
  have "\<exists>q v'. main tz' junk' [bytes_of ''readf'', 47 # w, fmt_d (int (length x))] (proc_start (host p) clk') =
      Some (0, read_line (int (length x)) x, q) \<and> volume_on (host q) v'" for tz' junk' clk'
    using readf_process [OF v(2) assms(2) v(3) len, of tz' junk' clk'] by blast
  moreover have "read_line (int (length x)) x = puts (bytes_of ''read='' @ fmt_d (int (length x)) @ bytes_of '': '' @ x)"
    using assms(10) by (simp add: read_line_def cstr_id)
  ultimately show ?thesis using v(1,2) by metis
qed

text \<open>\<open>delete\<close> of a file of the root directory prints \<open>[OK]\<close>, takes its entry out, releases its inode
  and exactly the blocks it owned, and leaves every other file and directory and a consistent
  volume; when the name stood only for that file, a later \<open>readf\<close> fails to open it.\<close>
lemma delete_forgets_file:
  assumes "volume_on h t" and "plain_name w" and "w \<noteq> USERS_NAME" and "map_of (dir_entries t 1) w = Some n"
    and "live t n" and "n \<noteq> 1" and "is_dir_mode (i_mode (inode_at t n)) \<Longrightarrow> file_size t n \<le> 2 * DIRENT_SIZE"
  shows "\<exists>p v. main tz junk [bytes_of ''delete'', 47 # w] (proc_start h clk) = Some (0, puts (bytes_of ''[OK]''), p) \<and>
    volume_on (host p) v \<and> deleted t w n v \<and>
    (w \<notin> fst ` set (remove1 (w, n) (dir_entries t 1)) \<longrightarrow>
      (\<forall>tz' junk' k clk'. \<exists>q. main tz' junk' [bytes_of ''readf'', 47 # w, k] (proc_start (host p) clk') =
         Some (0, puts (bytes_of ''readf: open fail''), q)))"
proof -
  obtain p v where v: "main tz junk [bytes_of ''delete'', 47 # w] (proc_start h clk) = Some (0, puts (bytes_of ''[OK]''), p)"
    "volume_on (host p) v" "deleted t w n v"
    by (rule delete_process [OF assms]) blast+
  have "map_of (dir_entries v 1) w = None" if "w \<notin> fst ` set (remove1 (w, n) (dir_entries t 1))"
    using that v(3) by (simp add: deleted_def map_of_eq_None_iff)
  then show ?thesis using v readf_absent [OF v(2) assms(2)] by blast
qed

text \<open>C27: \<open>mkdir\<close> under a directory with room makes a new directory with its two dot entries, enters it
  under the last component of the path, and changes no other file or directory.\<close>
theorem mkdir_makes_directory:
  assumes "vol_inv s" and "dir_wf s d" and "mkdir_target path s = Inr (d, name)" and "n_slots (inode_at s d) < 80"
    and "2 \<le> nfree_blocks s" and "valid_ino m" and "\<not> live s m"
  shows "\<exists>n t. cmd_mkdir path s = Some (puts (bytes_of ''[OK]''), t) \<and> dir_made s d name n t"
  using mkdir_ok [OF assms] by blast

lemma mkdir_makes_directory_witness:
  "\<exists>n t. cmd_mkdir [97] demo = Some (puts (bytes_of ''[OK]''), t) \<and> dir_entries t n = [(bytes_of ''.'', n), (bytes_of ''..'', 1)]"
proof -
  have c: "mkdir_target [97] demo = Inr (1, [97])" using demo_ok(16) by (simp add: mkdir_target_def split_last_def)
  have k: "n_slots (inode_at demo 1) < 80" "2 \<le> nfree_blocks demo" using demo_ok(12,20) by simp_all
  have "\<exists>m. valid_ino m \<and> \<not> live demo m"
    unfolding demo_ok(6) by (intro exI [of _ "if demo_users = 2 then 3 else 2"]) auto
  then obtain m where m: "valid_ino m" "\<not> live demo m" by blast
  from mkdir_makes_directory [OF demo_ok(1,4) c k m] show ?thesis unfolding dir_made_def by blast
qed

text \<open>C28: \<open>chmod\<close> by root or the owner makes the nine permission bits those of the octal number, keeps the
  four bits of the type and clears the three between them (the mask is \<open>0170000\<close>). Of the inode it writes
  the mode and the change time and nothing else: owner, size, links, other times and block pointers are as
  they were, as are the contents, the bitmap, the open files and every other file. From then on the
  bits decide who may write. Anyone else gets \<open>EPERM\<close> and nothing changes.\<close>
theorem chmod_sets_bits:
  assumes "vol_inv s" and "namei path s = Inr n" and "live s n"
  shows "if g_uid s = 0 \<or> int (unat (i_uid (inode_at s n))) = g_uid s
    then \<exists>t. cmd_chmod oct path s = Some (puts (bytes_of ''[OK]''), t) \<and> file_step s n t \<and> file_at t n = file_at s n \<and>
      inode_at t n = (inode_at s n)\<lparr>i_mode := i_mode (inode_at t n), i_ctime := clock s (tick s)\<rparr> \<and>
      is_dir_mode (i_mode (inode_at t n)) = is_dir_mode (i_mode (inode_at s n)) \<and>
      (\<forall>k. bit (i_mode (inode_at t n)) k \<longleftrightarrow> (if k < 9 then bit (scan_octal oct) k else 12 \<le> k \<and> bit (i_mode (inode_at s n)) k)) \<and>
      blk_used t = blk_used s \<and> g_ofile t = g_ofile s \<and>
      (\<forall>uid. perm_can_write (inode_at t n) uid \<longleftrightarrow>
         uid = 0 \<or> bit (scan_octal oct) (if i_uid (inode_at s n) = of_int uid then 7 else 1))
    else cmd_chmod oct path s = Some (puts (bytes_of ''chmod: EPERM''), s)"
proof (cases "g_uid s = 0 \<or> int (unat (i_uid (inode_at s n))) = g_uid s")
  case True
  obtain t where t: "cmd_chmod oct path s = Some (puts (bytes_of ''[OK]''), t)" "file_step s n t" "file_at t n = file_at s n"
    "inode_at t n = (inode_at s n)\<lparr>i_mode := (i_mode (inode_at s n) AND MODE_MASK) OR (ucast (scan_octal oct) AND 0x1FF),
       i_ctime := clock s (tick s)\<rparr>" "blk_used t = blk_used s" "g_ofile t = g_ofile s"
    by (rule chmod_ok [OF assms True, of oct]) blast
  let ?m = "i_mode (inode_at t n)" and ?v = "scan_octal oct"
  have m: "?m = (i_mode (inode_at s n) AND MODE_MASK) OR (ucast ?v AND 0x1FF)" and u: "i_uid (inode_at t n) = i_uid (inode_at s n)"
    by (simp_all add: t(4))
  have b: "bit ?m k \<longleftrightarrow> (if k < 9 then bit ?v k else 12 \<le> k \<and> bit (i_mode (inode_at s n)) k)" for k
    unfolding m by (rule bit_chmod)
  have "is_dir_mode ?m = is_dir_mode (i_mode (inode_at s n))" by (rule dir_mode_chmod [OF m])
  moreover have "perm_can_write (inode_at t n) uid \<longleftrightarrow> uid = 0 \<or> bit ?v (if i_uid (inode_at s n) = of_int uid then 7 else 1)" for uid
    by (simp add: perm_write_bits u b)
  moreover have "inode_at t n = (inode_at s n)\<lparr>i_mode := ?m, i_ctime := clock s (tick s)\<rparr>" by (simp add: t(4))
  ultimately have "\<exists>t. cmd_chmod oct path s = Some (puts (bytes_of ''[OK]''), t) \<and> file_step s n t \<and> file_at t n = file_at s n \<and>
      inode_at t n = (inode_at s n)\<lparr>i_mode := i_mode (inode_at t n), i_ctime := clock s (tick s)\<rparr> \<and>
      is_dir_mode (i_mode (inode_at t n)) = is_dir_mode (i_mode (inode_at s n)) \<and>
      (\<forall>k. bit (i_mode (inode_at t n)) k \<longleftrightarrow> (if k < 9 then bit (scan_octal oct) k else 12 \<le> k \<and> bit (i_mode (inode_at s n)) k)) \<and>
      blk_used t = blk_used s \<and> g_ofile t = g_ofile s \<and>
      (\<forall>uid. perm_can_write (inode_at t n) uid \<longleftrightarrow>
         uid = 0 \<or> bit (scan_octal oct) (if i_uid (inode_at s n) = of_int uid then 7 else 1))"
    using t(1-3,5,6) b by (intro exI [of _ t] conjI allI)
  then show ?thesis unfolding if_P [OF True] .
next
  case False
  have "view_inv s (inode_at s)" using assms(1) by (simp add: vol_inv_def)
  then have "read_inode n s = Some (inode_at s n)" using live_valid [OF assms(3)] by (intro read_inode_ok view_invD(1))
  with False assms(2) show ?thesis by (simp add: cmd_chmod_def)
qed

lemma chmod_sets_bits_witness:
  "\<exists>t. cmd_chmod (bytes_of ''600'') USERS_PATH demo = Some (puts (bytes_of ''[OK]''), t) \<and> \<not> bit (i_mode (inode_at t demo_users)) 2"
proof -
  have l: "live demo demo_users" by (simp add: demo_ok(6))
  have "scan_octal (bytes_of ''600'') = 384" by (simp add: scan_octal_def bytes_of_def is_space_def)
  moreover have "\<not> bit (384 :: u32) 2" by simp
  moreover have "(2 :: nat) < 9" by simp
  moreover note chmod_sets_bits [OF demo_ok(1,18) l, of "bytes_of ''600''", unfolded if_P [OF disjI1 [OF demo_ok(14)]]]
  ultimately show ?thesis by metis
qed

text \<open>C29: On a host whose \<open>disk.img\<close> is missing, too short or without the superblock's magic number and
  block size, every command but \<open>format\<close> and \<open>mount\<close> fails with exit code 1 and writes nothing.\<close>
theorem unformatted_refused:
  assumes "no_volume (h DISK_IMG)" and "c \<noteq> bytes_of ''format''" and "c \<noteq> bytes_of ''mount''"
  shows "\<exists>p. main tz junk (c # as) (proc_start h clk) =
      Some (1, puts (bytes_of ''[ERR] auto-mount disk.img fail (run format first)''), p) \<and> host p = h"
  using mount_refused [of h clk, OF assms(1)] assms(2,3) by (auto simp: main_def)

lemma unformatted_refused_witness:
  "\<exists>p. main 0 [] [bytes_of ''ls''] (proc_start (\<lambda>_. None) (\<lambda>_. 0)) =
     Some (1, puts (bytes_of ''[ERR] auto-mount disk.img fail (run format first)''), p)"
proof -
  have "no_volume ((\<lambda>_. None) DISK_IMG)" "bytes_of ''ls'' \<noteq> bytes_of ''format''" "bytes_of ''ls'' \<noteq> bytes_of ''mount''"
    by (simp_all add: no_volume_def bytes_of_def)
  from unformatted_refused [OF this, of 0 "[]" "[]" "\<lambda>_. 0"] show ?thesis by blast
qed

end
