(* ===== verification/Users.thy ===== *)
theory Users
  imports Format
begin

text \<open>
  What the account functions of \<open>project3/src/security.c\<close> do to a user table that is stored as the
  file \<open>/.users\<close>: reading the file as a whole, appending a line and rewriting it. Only \<open>users_login\<close>
  changes who is logged in.
\<close>

section \<open>Who is logged in\<close>

definition who :: "fs \<Rightarrow> int \<times> bytes" where
  "who s = (g_uid s, g_user s)"

named_theorems who_dests \<open>operations that do not change who is logged in\<close>

lemmas who_unfold = Option.bind_eq_Some_conv Let_def ts_now_def case_prod_unfold

lemma who_frame [simp]:
  "who (tick_update f s) = who s" "who (fd_set n g s) = who s" "who (g_sb_update h s) = who s" "who (g_gd_update k s) = who s"
  by (simp_all add: who_def fd_set_def)

lemma who_dev [who_dests]: "dev_write_block b n s = (r, t) \<Longrightarrow> who t = who s"
  by (auto simp: who_def dev_write_block_def split: option.splits if_splits)

lemma who_dev_snd [simp]: "who (snd (dev_write_block b n s)) = who s"
  by (cases "dev_write_block b n s") (simp add: who_dev)

lemma who_sync [simp]: "who (set_free_blocks f s) = who s" "who (set_free_inodes f s) = who s"
  by (simp_all add: set_free_blocks_def set_free_inodes_def sync_sb_def sync_gd_def Let_def)

lemma who_write_inode [who_dests]: "write_inode n i s = (r, t) \<Longrightarrow> who t = who s"
  by (auto simp: write_inode_def dest: who_dests split: option.splits)

lemma who_write_inode_snd [simp]: "who (snd (write_inode n i s)) = who s"
  by (cases "write_inode n i s") (simp add: who_write_inode)

lemma who_alloc_block [who_dests]: "alloc_block s = Some (r, t) \<Longrightarrow> who t = who s"
  by (auto simp: alloc_block_def who_unfold dest: who_dests split: option.splits if_splits)

lemma who_alloc_inode [who_dests]: "alloc_inode s = Some (r, t) \<Longrightarrow> who t = who s"
  by (auto simp: alloc_inode_def who_unfold dest: who_dests split: option.splits if_splits)

lemma who_ensure_dir_block [who_dests]: "ensure_dir_block i bn s = Some (r, t) \<Longrightarrow> who t = who s"
  by (auto simp: ensure_dir_block_def who_unfold dest: who_dests split: if_splits)

lemma who_dir_add [who_dests]: "dir_add d name ft c s = Some (r, t) \<Longrightarrow> who t = who s"
  by (clarsimp simp: dir_add_def who_unfold split: option.splits if_splits)
    (auto simp: who_unfold dest!: who_dests split: sum.splits if_splits)

lemma who_alloc_zeroed [who_dests]: "alloc_zeroed s = Some (r, t) \<Longrightarrow> who t = who s"
  by (auto simp: alloc_zeroed_def who_unfold dest: who_dests split: if_splits)

lemma who_ensure_indirect [who_dests]: "ensure_indirect i s = Some (r, j, t) \<Longrightarrow> who t = who s"
  by (auto simp: ensure_indirect_def who_unfold dest: who_dests split: if_splits)

lemma who_map_direct [who_dests]: "map_direct i bn s = Some (r, j, t) \<Longrightarrow> who t = who s"
  by (auto simp: map_direct_def who_unfold dest: who_dests split: if_splits)

lemma who_map_table [who_dests]: "map_table i k s = Some (r, j, t) \<Longrightarrow> who t = who s"
  by (auto simp: map_table_def who_unfold dest!: who_dests split: option.splits if_splits)

lemma who_map_bn [who_dests]: "map_bn_for_write i bn s = Some (r, j, t) \<Longrightarrow> who t = who s"
  by (auto simp: map_bn_for_write_def who_unfold dest!: who_dests split: if_splits)

lemma who_write_loop [who_dests]: "write_loop i pos dn buf s = Some (r, j, t) \<Longrightarrow> who t = who s"
proof (induction i pos dn buf s arbitrary: r j t rule: write_loop.induct)
  case (1 i pos dn buf s)
  show ?case
  proof (cases "dn \<ge> length buf")
    case True
    then show ?thesis using "1.prems" by (simp add: write_loop.simps [of i pos dn])
  next
    case False
    obtain ph i1 s1 where m: "map_bn_for_write i (pos div BLOCK_SIZE) s = Some (ph, i1, s1)"
      using "1.prems" False by (auto simp: write_loop.simps [of i pos dn] Option.bind_eq_Some_conv)
    have w1: "who s1 = who s" by (rule who_map_bn [OF m])
    show ?thesis
    proof (cases "ph < 0 \<or> dev_read_block (nat ph) s1 = None")
      case True
      then show ?thesis using "1.prems" False m w1 by (auto simp: write_loop.simps [of i pos dn] split: option.splits if_splits)
    next
      case nf: False
      then obtain b where b: "dev_read_block (nat ph) s1 = Some b" "\<not> ph < 0" by auto
      let ?c = "min (BLOCK_SIZE - pos mod BLOCK_SIZE) (length buf - dn)"
      obtain rc s2 where d: "dev_write_block (splice_at b (pos mod BLOCK_SIZE) (bslice ?c dn buf)) (nat ph) s1 = (rc, s2)"
        by fastforce
      have w2: "who s2 = who s" using who_dev [OF d] w1 by simp
      have "(if rc \<noteq> FS_OK then Some (Inl FS_ERR, i1, s2) else write_loop i1 (pos + ?c) (dn + ?c) buf s2) = Some (r, j, t)"
        using "1.prems" False m b d by (simp add: write_loop.simps [of i pos dn] Let_def)
      then show ?thesis
        using "1.IH" [OF False m refl refl b(2) b(1) refl refl refl d [symmetric]] w2 by (auto split: if_splits)
    qed
  qed
qed

lemma who_fs_write [who_dests]: "fs_write fd buf s = Some (r, t) \<Longrightarrow> who t = who s"
  by (clarsimp simp: fs_write_def who_unfold split: option.splits if_splits)
    (auto simp: who_unfold dest!: who_dests split: sum.splits if_splits)

lemma who_fs_close [simp]: "who (snd (fs_close fd s)) = who s"
  by (simp add: fs_close_def)

lemma who_fs_seek [simp]: "who (snd (fs_seek fd off s)) = who s"
  by (simp add: fs_seek_def)

lemma who_fs_read [who_dests]: "fs_read fd len s = (r, out, t) \<Longrightarrow> who t = who s"
  by (auto simp: fs_read_def who_unfold split: option.splits if_splits sum.splits)

lemma who_open_fd [who_dests]: "open_fd ino w s = (r, t) \<Longrightarrow> who t = who s"
  by (auto simp: open_fd_def split: option.splits)

lemma who_new_file [who_dests]: "new_file ino s = (r, t) \<Longrightarrow> who t = who s"
  by (auto simp: new_file_def who_unfold dest!: who_dests)

lemma who_create_file [who_dests]: "create_file d name s = Some (r, t) \<Longrightarrow> who t = who s"
  by (clarsimp simp: create_file_def Option.bind_eq_Some_conv split: if_splits)
    (auto simp: Option.bind_eq_Some_conv dest!: who_dests split: if_splits prod.splits)

lemma who_fs_open [who_dests]: "fs_open path m s = Some (r, t) \<Longrightarrow> who t = who s"
  by (auto simp: fs_open_def who_unfold dest!: who_dests split: sum.splits option.splits if_splits)

lemma who_zero_size [who_dests]: "zero_size n s = (r, t) \<Longrightarrow> who t = who s"
  by (auto simp: zero_size_def dest!: who_dests split: option.splits)

lemma who_rewrite_users [who_dests]: "rewrite_users fd name pass es s = Some t \<Longrightarrow> who t = who s"
  by (induction es arbitrary: s) (auto simp: Option.bind_eq_Some_conv dest!: who_fs_write)

lemma who_session_save [who_dests]: "session_save uid user s = Some (r, t) \<Longrightarrow> who t = who s"
  by (auto simp: session_save_def Option.bind_eq_Some_conv dest!: who_dests split: if_splits prod.splits)

section \<open>The table as a file\<close>

text \<open>
  \<open>table s n es\<close>: \<open>/.users\<close> is the file \<open>n\<close> and holds, without a hole, the lines of the users \<open>es\<close>; a
  descriptor is free.
\<close>

definition file_text :: "fs \<Rightarrow> nat \<Rightarrow> bytes \<Rightarrow> bool" where
  "file_text s n x \<longleftrightarrow> file_size s n = length x \<and> map (file_at s n) [0..<length x] = x \<and> (\<forall>q < length x. \<not> hole_at s n q)"

definition fds_free :: "fs \<Rightarrow> bool" where
  "fds_free s \<longleftrightarrow> length (g_ofile s) = MAX_OPEN \<and> (\<exists>f \<in> set (g_ofile s). \<not> of_used f)"

definition table :: "fs \<Rightarrow> nat \<Rightarrow> (bytes \<times> bytes \<times> int) list \<Rightarrow> bool" where
  "table s n es \<longleftrightarrow> vol_inv s \<and> dir_wf s 1 \<and> map_of (dir_entries s 1) USERS_NAME = Some n \<and> live s n \<and> n \<noteq> 1 \<and>
     (\<forall>e \<in> set es. wf_user e) \<and> length (fmt_users es) < 2 ^ 31 \<and> file_text s n (fmt_users es) \<and> fds_free s"

lemma tableD:
  assumes "table s n es"
  shows "vol_inv s" "dir_wf s 1" "namei USERS_PATH s = Inr n" "live s n" "n \<noteq> 1" "\<forall>e \<in> set es. wf_user e"
    "file_text s n (fmt_users es)" "length (fmt_users es) < 2 ^ 31" "length (g_ofile s) = MAX_OPEN" "\<exists>f \<in> set (g_ofile s). \<not> of_used f"
    "read_inode n s = Some (inode_at s n)"
proof -
  show t: "vol_inv s" "dir_wf s 1" "live s n" "n \<noteq> 1" "\<forall>e \<in> set es. wf_user e" "file_text s n (fmt_users es)"
    "length (fmt_users es) < 2 ^ 31" "length (g_ofile s) = MAX_OPEN" "\<exists>f \<in> set (g_ofile s). \<not> of_used f"
    using assms by (simp_all add: table_def fds_free_def)
  show "namei USERS_PATH s = Inr n"
    unfolding users_path using namei_root(1) [OF t(1,2) plain_name_users] assms by (simp add: table_def)
  have "view_inv s (inode_at s)" using t(1) by (simp add: vol_inv_def)
  then show "read_inode n s = Some (inode_at s n)" using live_valid [OF t(3)] by (intro read_inode_ok view_invD(1))
qed

text \<open>An operation on the table's file that leaves the new text in it leaves the new table.\<close>

lemma table_step:
  assumes "table s n es" and "file_step s n t" and "\<forall>e \<in> set es'. wf_user e" and "length (fmt_users es') < 2 ^ 31"
    and "file_text t n (fmt_users es')" and "fds_free t"
  shows "table t n es'"
  using assms unfolding table_def file_step_def by (metis (no_types, lifting))

lemma file_text_same:
  "file_at t n = file_at s n \<Longrightarrow> file_size t n = file_size s n \<Longrightarrow> \<forall>q. hole_at t n q = hole_at s n q \<Longrightarrow> file_text t n x = file_text s n x"
  by (simp add: file_text_def)

lemma fd_text [simp]: "file_text (fd_set k f s) n x = file_text s n x"
  by (rule file_text_same) (simp_all add: fun_eq_iff file_at_def file_size_def hole_at_def)

lemma fds_free_closed: "fd_open s fd n off w \<Longrightarrow> fds_free (snd (fs_close fd s))"
proof -
  assume f: "fd_open s fd n off w"
  let ?t = "snd (fs_close fd s)"
  have "length (g_ofile ?t) = MAX_OPEN" "nat fd < MAX_OPEN" "\<not> of_used (g_ofile ?t ! nat fd)"
    using fd_openD(1,6) [OF f] f by (simp_all add: fs_close_def fd_set_def fd_open_def)
  then show ?thesis using nth_mem [of "nat fd" "g_ofile ?t"] by (auto simp: fds_free_def)
qed

section \<open>Reading the whole table\<close>

text \<open>
  The reading loop on a file without holes: the buffer always has room for 4096 bytes more, and the
  loop ends at the end of the file with its contents.
\<close>

lemma read_all_ok:
  assumes "vol_inv s" and "fd_open s fd n off w" and "perm_can_read (inode_at s n) (g_uid s)" and "file_text s n x"
    and "off \<le> length x" and "length x < 2 ^ 31" and "length acc \<le> cap" and "cap = 0 \<or> 4096 \<le> cap" and "acc = take off x"
  shows "\<exists>cap' t off'. read_all fd cap acc s = Some (FS_OK, x, cap', t) \<and> file_step s n t \<and> file_text t n x \<and> fd_open t fd n off' w \<and>
    who t = who s \<and> i_mode (inode_at t n) = i_mode (inode_at s n) \<and> i_uid (inode_at t n) = i_uid (inode_at s n) \<and>
    blk_used t = blk_used s"
  using assms
proof (induction "length x - off" arbitrary: s off cap acc rule: less_induct)
  case less
  note p = less.prems
  define cap1 where "cap1 = (if cap - length acc < 4096 then (if cap = 0 then 4096 else cap * 2) else cap)"
  have c1: "length acc + 4096 \<le> cap1" "4096 \<le> cap1" using p(7,8) by (auto simp: cap1_def)
  obtain r out t where rd: "fs_read fd 4096 s = (r, out, t)" by (cases "fs_read fd 4096 s") auto
  note ro = fs_read_ok [OF p(1,2,3) rd]
  obtain q where q: "file_step s n t" "r = int (q - off)" "out = map (file_at s n) [off..<q]" "fd_open t fd n q w"
    "read_upto s (inode_at s n) off (min 4096 (length x - off)) q" "file_at t n = file_at s n" "file_size t n = file_size s n"
    "\<forall>q. hole_at t n q = hole_at s n q" "i_mode (inode_at t n) = i_mode (inode_at s n)" "i_uid (inode_at t n) = i_uid (inode_at s n)"
    "blk_used t = blk_used s"
    using ro p(4) by (auto simp: file_text_def)
  have tx: "file_text t n x" using p(4) file_text_same [OF q(6-8)] by simp
  have wt: "who t = who s" by (rule who_fs_read [OF rd])
  have sz: "map (file_at s n) [0..<length x] = x" "\<forall>q < length x. \<not> hole_at s n q" using p(4) by (simp_all add: file_text_def)
  have "phys s (inode_at s n) (k div BLOCK_SIZE) \<noteq> 0" if "off \<le> k" "k < off + min 4096 (length x - off)" for k
    using sz(2) that by (auto simp: hole_at_def)
  then have qe: "q = off + min 4096 (length x - off)" by (rule read_upto_full [OF q(5)])
  have "map (file_at s n) [off..<q] = take (q - off) (drop off (map (file_at s n) [0..<length x]))"
    using qe p(5) by (simp add: drop_map take_map take_upt)
  then have ao: "acc @ out = take q x" using p(9) q(3) qe unfolding sz(1) by (simp add: take_add)
  have room: "\<not> cap1 < length acc + length out" using c1(1) q(3) qe by simp
  have step: "read_all fd cap acc s = (if r = 0 then Some (FS_OK, acc, cap1, t) else read_all fd cap1 (acc @ out) t)"
    using rd room q(2) by (simp add: read_all.simps [of fd cap] cap1_def)
  show ?case
  proof (cases "off = length x")
    case True
    then have "r = 0" "acc = x" using q(2) qe p(9) by simp_all
    then show ?thesis using step q tx wt by auto
  next
    case False
    then have lt: "length x - q < length x - off" "q \<le> length x" "r \<noteq> 0" using p(5) qe q(2) by auto
    have pr: "vol_inv t" "perm_can_read (inode_at t n) (g_uid t)"
      using q(1,9,10) p(3) by (simp_all add: file_step_def perm_can_read_def)
    have l: "length (acc @ out) \<le> cap1" "cap1 = 0 \<or> 4096 \<le> cap1" using room c1(2) by simp_all
    obtain cap' u off' where u: "read_all fd cap1 (acc @ out) t = Some (FS_OK, x, cap', u)" "file_step t n u" "file_text u n x"
      "fd_open u fd n off' w" "who u = who t" "i_mode (inode_at u n) = i_mode (inode_at t n)" "i_uid (inode_at u n) = i_uid (inode_at t n)"
      "blk_used u = blk_used t"
      using less.hyps [OF lt(1) pr(1) q(4) pr(2) tx lt(2) p(6) l ao] by blast
    have "file_step s n u" using q(1) u(2) by (rule file_step_trans)
    then show ?thesis using step lt(3) u q(9-11) wt by auto
  qed
qed

section \<open>Opening, appending, emptying\<close>

lemma open_table:
  assumes t: "table s n es"
    and p: "if 119 \<in> set m then perm_can_write (inode_at s n) (g_uid s) else perm_can_read (inode_at s n) (g_uid s)"
  obtains fd s1 where "fs_open USERS_PATH m s = Some (fd, s1)" "0 \<le> fd" "fd_open s1 fd n 0 (119 \<in> set m)"
    "s1 = fd_set (nat fd) (\<lambda>_. \<lparr>of_used = True, of_ino = of_nat n, of_offset = 0, of_writable = 119 \<in> set m\<rparr>) s"
proof -
  note d = tableD [OF t]
  obtain fd s1 where o: "open_fd n (119 \<in> set m) s = (fd, s1)" by fastforce
  have "fs_open USERS_PATH m s = Some (fd, s1)" using d(3,11) p o by (simp add: fs_open_def Let_def)
  with open_fd_ok [OF d(9,4) o] d(10) that show thesis by (auto simp: fd_open_def)
qed

lemma read_table_ok:
  assumes t: "table s n es" and p: "perm_can_read (inode_at s n) (g_uid s)"
  obtains u where "read_whole_file USERS_PATH s = Some (Inr (fmt_users es), u)" "table u n es" "file_step s n u" "who u = who s"
    "i_mode (inode_at u n) = i_mode (inode_at s n)" "i_uid (inode_at u n) = i_uid (inode_at s n)" "blk_used u = blk_used s"
proof -
  note d = tableD [OF t]
  have pr: "if 119 \<in> set (bytes_of ''r'') then perm_can_write (inode_at s n) (g_uid s) else perm_can_read (inode_at s n) (g_uid s)"
    using p by (simp add: bytes_of_def)
  obtain fd s1 where o: "fs_open USERS_PATH (bytes_of ''r'') s = Some (fd, s1)" "0 \<le> fd" "fd_open s1 fd n 0 (119 \<in> set (bytes_of ''r''))"
    "s1 = fd_set (nat fd) (\<lambda>_. \<lparr>of_used = True, of_ino = of_nat n, of_offset = 0, of_writable = 119 \<in> set (bytes_of ''r'')\<rparr>) s"
    by (rule open_table [OF t pr]) blast
  have s1: "vol_inv s1" "perm_can_read (inode_at s1 n) (g_uid s1)" "file_text s1 n (fmt_users es)" "who s1 = who s"
    using d(1,7) p by (simp_all add: o(4))
  have z: "0 \<le> length (fmt_users es)" "length ([] :: u8 list) \<le> 0" "(0 :: nat) = 0 \<or> 4096 \<le> (0 :: nat)" "[] = take 0 (fmt_users es)"
    by simp_all
  obtain cap v off' where v: "read_all fd 0 [] s1 = Some (FS_OK, fmt_users es, cap, v)" "file_step s1 n v" "file_text v n (fmt_users es)"
    "fd_open v fd n off' (119 \<in> set (bytes_of ''r''))" "who v = who s1" "i_mode (inode_at v n) = i_mode (inode_at s1 n)"
    "i_uid (inode_at v n) = i_uid (inode_at s1 n)" "blk_used v = blk_used s1"
    using read_all_ok [OF s1(1) o(3) s1(2,3) z(1) d(8) z(2-4)] by blast
  let ?u = "snd (fs_close fd v)"
  have u: "?u = fd_set (nat fd) (\<lambda>f. f\<lparr>of_used := False\<rparr>) v" using fd_openD(1) [OF v(4)] by (simp add: fs_close_def)
  have st: "file_step s n ?u" using v(2) unfolding u o(4) by (simp add: file_step_closed)
  show thesis
  proof (rule that [of ?u])
    show "read_whole_file USERS_PATH s = Some (Inr (fmt_users es), ?u)" using o(1,2) v(1) by (simp add: read_whole_file_def)
    show "table ?u n es"
      by (rule table_step [OF t st d(6,8) _ fds_free_closed [OF v(4)]]) (use v(3) in \<open>simp add: u\<close>)
    show "who ?u = who s" using v(5) s1(4) by simp
    show "i_mode (inode_at ?u n) = i_mode (inode_at s n)" "i_uid (inode_at ?u n) = i_uid (inode_at s n)"
      using v(6,7) by (simp_all add: u o(4))
    show "blk_used ?u = blk_used s" using v(8) by (simp add: u o(4))
  qed (rule st)
qed

text \<open>A write at the end of a file appends.\<close>

lemma append_write:
  assumes inv: "vol_inv s" and fd: "fd_open s fd n (length x) True" and perm: "perm_can_write (inode_at s n) (g_uid s)"
    and tx: "file_text s n x" and w: "fs_write fd y s = Some (r, t)"
  shows "file_step s n t \<and>
    (r = FS_ENOSPC \<and> FILE_MAX < length x + length y \<and> fd_open t fd n (length x) True \<or>
     r = int (length y) \<and> fd_open t fd n (length (x @ y)) True \<and> file_text t n (x @ y) \<and>
     i_mode (inode_at t n) = i_mode (inode_at s n) \<and> i_uid (inode_at t n) = i_uid (inode_at s n))"
proof -
  note fw = fs_write_ok [OF inv fd perm w]
  have "file_text t n (x @ y)" if "file_size t n = max (file_size s n) (length x + length y)"
    "\<forall>q. file_at t n q = (if length x \<le> q \<and> q < length x + length y then y ! (q - length x) else file_at s n q)"
    "\<forall>q. length x \<le> q \<and> q < length x + length y \<or> \<not> hole_at s n q \<longrightarrow> \<not> hole_at t n q"
  proof -
    have sx: "file_size s n = length x" "map (file_at s n) [0..<length x] = x" "\<forall>q < length x. \<not> hole_at s n q"
      using tx by (simp_all add: file_text_def)
    have "file_at s n q = x ! q" if "q < length x" for q using arg_cong [OF sx(2), of "\<lambda>l. l ! q"] that by simp
    then have "map (file_at t n) [0..<length (x @ y)] = x @ y"
      using that(2) by (intro nth_equalityI) (auto simp: nth_append)
    moreover have "\<not> hole_at t n q" if "q < length (x @ y)" for q
      using \<open>\<forall>q. length x \<le> q \<and> q < length x + length y \<or> _ q \<longrightarrow> _ q\<close> sx(3) that by (cases "q < length x") auto
    ultimately show ?thesis using that(1) sx(1) by (simp add: file_text_def)
  qed
  with fw show ?thesis by (auto simp: add.commute)
qed

lemma append_line_ok:
  assumes t: "table s n es" and p: "perm_can_write (inode_at s n) (g_uid s)" and a: "append_line USERS_PATH y s = Some (r, u)"
  shows "file_step s n u \<and> (r = FS_ENOSPC \<and> FILE_MAX < length (fmt_users es) + length y \<or>
    r = FS_OK \<and> file_text u n (fmt_users es @ y) \<and> fds_free u)"
proof -
  note d = tableD [OF t]
  have m: "119 \<in> set (bytes_of ''w'')" by (simp add: bytes_of_def)
  have pw: "if 119 \<in> set (bytes_of ''w'') then perm_can_write (inode_at s n) (g_uid s) else perm_can_read (inode_at s n) (g_uid s)"
    using p m by simp
  obtain fd s1 where o: "fs_open USERS_PATH (bytes_of ''w'') s = Some (fd, s1)" "0 \<le> fd" "fd_open s1 fd n 0 (119 \<in> set (bytes_of ''w''))"
    "s1 = fd_set (nat fd) (\<lambda>_. \<lparr>of_used = True, of_ino = of_nat n, of_offset = 0, of_writable = 119 \<in> set (bytes_of ''w'')\<rparr>) s"
    by (rule open_table [OF t pw]) blast
  have f1: "fd_open s1 fd n 0 True" using o(3) m by simp
  have s1: "vol_inv s1" "inode_at s1 = inode_at s" "g_uid s1 = g_uid s" "file_text s1 n (fmt_users es)" using d(1,7) by (simp_all add: o(4))
  have vs: "view_inv s1 (inode_at s1)" using s1(1) by (simp add: vol_inv_def)
  have rd: "read_inode (unat (of_ino (g_ofile s1 ! nat fd))) s1 = Some (inode_at s n)"
    unfolding fd_openD(2) [OF f1] using read_inode_ok [OF view_invD(1) [OF vs] live_valid [OF fd_openD(5) [OF f1]]] s1(2) by simp
  have sz: "i_size (inode_at s n) = of_nat (length (fmt_users es))"
  proof -
    have "unat (i_size (inode_at s n)) = length (fmt_users es)" using d(7) by (simp add: file_text_def file_size_def)
    moreover have "i_size (inode_at s n) = of_nat (unat (i_size (inode_at s n)))" by simp
    ultimately show ?thesis by (simp only:)
  qed
  obtain v where v: "fs_seek fd (of_nat (length (fmt_users es))) s1 = (FS_OK, v)" "fd_open v fd n (length (fmt_users es)) True"
    "v = fd_set (nat fd) (\<lambda>f. f\<lparr>of_offset := of_nat (length (fmt_users es))\<rparr>) s1"
    using fs_seek_ok [OF f1 d(8)] by blast
  obtain k w where w: "fs_write fd y v = Some (k, w)" "r = (if k < 0 then k else FS_OK)" "u = snd (fs_close fd w)"
    using a o(1,2) rd sz v(1) by (auto simp: append_line_def Option.bind_eq_Some_conv)
  have va: "vol_inv v" "perm_can_write (inode_at v n) (g_uid v)" "file_text v n (fmt_users es)"
    using s1 p by (simp_all add: v(3))
  note aw = append_write [OF va(1) v(2) va(2,3) w(1)]
  then obtain off where fo: "fd_open w fd n off True" by blast
  have u: "u = fd_set (nat fd) (\<lambda>f. f\<lparr>of_used := False\<rparr>) w" using fd_openD(1) [OF fo] by (simp add: w(3) fs_close_def)
  have "file_step s n u" using aw unfolding u v(3) o(4) by (simp add: file_step_closed)
  moreover have "fds_free u" unfolding w(3) by (rule fds_free_closed [OF fo])
  ultimately show ?thesis using aw w(2) by (auto simp: u)
qed

lemma zero_size_ok:
  assumes inv: "vol_inv s" and l: "live s n"
  obtains t where "zero_size n s = (FS_OK, t)" "file_step s n t" "file_text t n []" "g_ofile t = g_ofile s" "live t = live s"
    "i_mode (inode_at t n) = i_mode (inode_at s n)" "i_uid (inode_at t n) = i_uid (inode_at s n)" "blk_used t = blk_used s"
proof -
  let ?j = "(inode_at s n)\<lparr>i_size := 0\<rparr>"
  have vs: "view_inv s (inode_at s)" using inv by (simp add: vol_inv_def)
  have rd: "read_inode n s = Some (inode_at s n)" using view_invD(1) [OF vs] live_valid [OF l] by (rule read_inode_ok)
  have sp: "same_ptrs ?j (inode_at s n)" by (simp add: same_ptrs_def)
  note co = edit_commit [OF edit_ok_refl [OF inv] l sp]
  show thesis
  proof (rule that [of "put_inode n ?j s"])
    show "zero_size n s = (FS_OK, put_inode n ?j s)" using rd co(1) by (simp add: zero_size_def)
    show "file_step s n (put_inode n ?j s)" by (rule file_stepI [OF co(2) inv l]) simp
    show "file_text (put_inode n ?j s) n []" by (simp add: file_text_def file_size_def co(3))
    have "wf_inode ?j" using same_ptrs_own [OF sp] own_okD(1) [OF view_invD(4) [OF vs l]] by simp
    then show "blk_used (put_inode n ?j s) = blk_used s" by (rule put_inode_used(1) [OF view_invD(1) [OF vs] live_valid [OF l]])
  qed (use only_changedD [OF co(2)] co(3) in simp_all)
qed

lemma file_step_refl: "vol_inv s \<Longrightarrow> file_step s n s"
  by (simp add: file_step_def)

text \<open>The table reopened, emptied and rewound.\<close>

lemma reopen_empty:
  assumes t: "table s n es" and p: "perm_can_write (inode_at s n) (g_uid s)"
  obtains fd s1 s2 s3 where "fs_open USERS_PATH (bytes_of ''w'') s = Some (fd, s1)" "0 \<le> fd"
    "zero_size (unat (of_ino (g_ofile s1 ! nat fd))) s1 = (FS_OK, s2)" "fs_seek fd 0 s2 = (FS_OK, s3)"
    "fd_open s3 fd n 0 True" "file_text s3 n []" "file_step s n s3" "who s3 = who s" "i_mode (inode_at s3 n) = i_mode (inode_at s n)"
    "i_uid (inode_at s3 n) = i_uid (inode_at s n)" "blk_used s3 = blk_used s"
proof -
  have m: "119 \<in> set (bytes_of ''w'')" by (simp add: bytes_of_def)
  then have pw: "if 119 \<in> set (bytes_of ''w'') then perm_can_write (inode_at s n) (g_uid s) else perm_can_read (inode_at s n) (g_uid s)"
    using p by simp
  obtain fd s1 where o: "fs_open USERS_PATH (bytes_of ''w'') s = Some (fd, s1)" "0 \<le> fd" "fd_open s1 fd n 0 (119 \<in> set (bytes_of ''w''))"
    "s1 = fd_set (nat fd) (\<lambda>_. \<lparr>of_used = True, of_ino = of_nat n, of_offset = 0, of_writable = 119 \<in> set (bytes_of ''w'')\<rparr>) s"
    by (rule open_table [OF t pw]) blast
  have f1: "fd_open s1 fd n 0 True" using o(3) m by simp
  have inv: "vol_inv s" "live s n" using tableD(1,4) [OF t] by simp_all
  have s1: "vol_inv s1" "live s1 n" "file_step s n s1" unfolding o(4) using inv file_step_closed [OF file_step_refl] by simp_all
  obtain s2 where z: "zero_size n s1 = (FS_OK, s2)" "file_step s1 n s2" "file_text s2 n []" "g_ofile s2 = g_ofile s1" "live s2 = live s1"
    "i_mode (inode_at s2 n) = i_mode (inode_at s1 n)" "i_uid (inode_at s2 n) = i_uid (inode_at s1 n)" "blk_used s2 = blk_used s1"
    by (rule zero_size_ok [OF s1(1,2)]) blast
  have f2: "fd_open s2 fd n 0 True" using f1 z(4,5) by (simp add: fd_open_def)
  obtain s3 where k: "fs_seek fd (of_nat 0) s2 = (FS_OK, s3)" "fd_open s3 fd n 0 True" "s3 = fd_set (nat fd) (\<lambda>f. f\<lparr>of_offset := of_nat 0\<rparr>) s2"
    using fs_seek_ok [OF f2, of 0] by auto
  have st: "file_step s n s3" unfolding k(3) by (rule file_step_closed [OF file_step_trans [OF s1(3) z(2)]])
  show thesis
  proof (rule that [OF o(1,2) _ _ k(2) _ st])
    show "zero_size (unat (of_ino (g_ofile s1 ! nat fd))) s1 = (FS_OK, s2)" using z(1) fd_openD(2) [OF f1] by simp
    show "fs_seek fd 0 s2 = (FS_OK, s3)" using k(1) by simp
    show "file_text s3 n []" unfolding k(3) using z(3) by simp
    show "who s3 = who s" using who_zero_size [OF z(1)] who_fs_open [OF o(1)] by (simp add: k(3))
    show "i_mode (inode_at s3 n) = i_mode (inode_at s n)" "i_uid (inode_at s3 n) = i_uid (inode_at s n)" "blk_used s3 = blk_used s"
      using z(6-8) by (simp_all add: k(3) o(4))
  qed
qed

section \<open>Rewriting\<close>

definition set_pass :: "bytes \<Rightarrow> bytes \<Rightarrow> bytes \<times> bytes \<times> int \<Rightarrow> bytes \<times> bytes \<times> int" where
  "set_pass name pass e = (case e of (u, p, i) \<Rightarrow> (u, if u = name then pass else p, i))"

lemma fmt_line_short: "wf_user (u, p, i) \<Longrightarrow> take 255 (fmt_line u p i) = fmt_line u p i"
proof -
  assume w: "wf_user (u, p, i)"
  then have "length u < 16" "length p < 16" "length (fmt_d i) < 12" using length_fmt_d [of i] by (simp_all add: wf_user_def)
  then have "length (fmt_line u p i) \<le> 255" unfolding fmt_line_def by simp
  then show ?thesis by simp
qed

lemma rewrite_users_ok:
  assumes "rewrite_users fd name pass es s = Some t" and "vol_inv s" and "fd_open s fd n (length x) True"
    and "perm_can_write (inode_at s n) (g_uid s)" and "file_text s n x" and "\<forall>e \<in> set es. wf_user (set_pass name pass e)"
    and "length x + length (fmt_users (map (set_pass name pass) es)) \<le> FILE_MAX"
  shows "file_step s n t \<and> file_text t n (x @ fmt_users (map (set_pass name pass) es)) \<and> (\<exists>off. fd_open t fd n off True)"
  using assms
proof (induction es arbitrary: s x)
  case Nil
  then show ?case by (auto simp: fmt_users_def file_step_def)
next
  case (Cons e es)
  obtain u p i where e: "e = (u, p, i)" by (cases e)
  let ?l = "fmt_line u (if u = name then pass else p) i" and ?r = "fmt_users (map (set_pass name pass) es)"
  have wf: "wf_user (u, if u = name then pass else p, i)" using Cons.prems(6) by (simp add: e set_pass_def)
  have f: "fmt_users (map (set_pass name pass) (e # es)) = ?l @ ?r" by (simp add: e set_pass_def fmt_users_Cons)
  obtain k s1 where w: "fs_write fd ?l s = Some (k, s1)" "rewrite_users fd name pass es s1 = Some t"
    using Cons.prems(1) fmt_line_short [OF wf] by (auto simp: e Option.bind_eq_Some_conv)
  have "\<not> FILE_MAX < length x + length ?l" using Cons.prems(7) unfolding f by simp
  with append_write [OF Cons.prems(2-5) w(1)] have a: "file_step s n s1" "fd_open s1 fd n (length (x @ ?l)) True" "file_text s1 n (x @ ?l)"
    "i_mode (inode_at s1 n) = i_mode (inode_at s n)" "i_uid (inode_at s1 n) = i_uid (inode_at s n)" by blast+
  have p1: "vol_inv s1" "perm_can_write (inode_at s1 n) (g_uid s1)"
    using a(1,4,5) Cons.prems(4) by (simp_all add: file_step_def perm_can_write_def)
  have "length (x @ ?l) + length ?r \<le> FILE_MAX" using Cons.prems(7) unfolding f by simp
  from Cons.IH [OF w(2) p1(1) a(2) p1(2) a(3) _ this] Cons.prems(6)
  have "file_step s1 n t" "file_text t n ((x @ ?l) @ ?r)" "\<exists>off. fd_open t fd n off True" by auto
  then show ?case unfolding f using file_step_trans [OF a(1)] by simp
qed

section \<open>What is behind the table\<close>

text \<open>
  The uninitialised bytes behind the buffer, read as lines up to their first zero: the users the account
  functions find there, and whether there is a zero at all.
\<close>

definition heap_users :: "bytes \<Rightarrow> (bytes \<times> bytes \<times> int) list" where
  "heap_users junk = fst (c_lines junk)"

definition heap_ends :: "bytes \<Rightarrow> bool" where
  "heap_ends junk \<longleftrightarrow> 0 \<in> set junk"

lemma c_lines_table: "\<forall>e \<in> set es. wf_user e \<Longrightarrow> c_lines (fmt_users es @ junk) = (es @ heap_users junk, heap_ends junk)"
  by (simp add: c_lines_fmt heap_users_def heap_ends_def) (simp add: c_lines_def)

lemma known_users_wf: "\<forall>e \<in> set es. wf_user e \<Longrightarrow> \<forall>e \<in> set (es @ heap_users junk). wf_user e"
  using c_lines_wf by (auto simp: heap_users_def)

lemma heap_none: "heap_users [0] = []" "heap_users [] = []" "heap_ends [0]" "\<not> heap_ends []"
  by (simp_all add: heap_users_def heap_ends_def c_lines_def cstr_def full_lines_def user_lines.simps [of "[]"])

section \<open>The account functions return\<close>

lemma short_touch: "length y \<le> 255 \<Longrightarrow> blocks_touched off (length y) \<le> 2"
proof -
  assume y: "length y \<le> 255"
  have "off mod BLOCK_SIZE < BLOCK_SIZE" by simp
  then have "off mod BLOCK_SIZE + length y + (BLOCK_SIZE - 1) < 3 * BLOCK_SIZE" using y by simp
  then show ?thesis unfolding blocks_touched_def by (metis less_mult_imp_div_less less_Suc_eq_le numeral_2_eq_2 numeral_3_eq_3)
qed

text \<open>Each returns when the disk has the blocks its writes can need.\<close>

lemma append_line_total:
  assumes t: "table s n es" and p: "perm_can_write (inode_at s n) (g_uid s)" and y: "length y \<le> 255" and room: "3 \<le> nfree_blocks s"
  shows "\<exists>r u. append_line USERS_PATH y s = Some (r, u)"
proof -
  note d = tableD [OF t]
  have m: "119 \<in> set (bytes_of ''w'')" by (simp add: bytes_of_def)
  have pw: "if 119 \<in> set (bytes_of ''w'') then perm_can_write (inode_at s n) (g_uid s) else perm_can_read (inode_at s n) (g_uid s)"
    using p m by simp
  obtain fd s1 where o: "fs_open USERS_PATH (bytes_of ''w'') s = Some (fd, s1)" "0 \<le> fd" "fd_open s1 fd n 0 (119 \<in> set (bytes_of ''w''))"
    "s1 = fd_set (nat fd) (\<lambda>_. \<lparr>of_used = True, of_ino = of_nat n, of_offset = 0, of_writable = 119 \<in> set (bytes_of ''w'')\<rparr>) s"
    by (rule open_table [OF t pw]) blast
  have f1: "fd_open s1 fd n 0 True" using o(3) m by simp
  let ?l = "file_size s n"
  have l: "?l < 2 ^ 31" using d(7,8) by (simp add: file_text_def)
  have sz: "i_size (inode_at s n) = of_nat ?l" by (simp add: file_size_def)
  have "vol_inv s1" "inode_at s1 = inode_at s" using d(1) by (simp_all add: o(4))
  then have rd: "read_inode (unat (of_ino (g_ofile s1 ! nat fd))) s1 = Some (inode_at s n)"
    unfolding fd_openD(2) [OF f1] using read_inode_ok [OF view_invD(1) live_valid [OF fd_openD(5) [OF f1]]] by (simp add: vol_inv_def)
  obtain v where v: "fs_seek fd (of_nat ?l) s1 = (FS_OK, v)" "fd_open v fd n ?l True" "v = fd_set (nat fd) (\<lambda>f. f\<lparr>of_offset := of_nat ?l\<rparr>) s1"
    using fs_seek_ok [OF f1 l] by blast
  have va: "vol_inv v" "perm_can_write (inode_at v n) (g_uid v)" "nfree_blocks v = nfree_blocks s"
    using d(1) p by (simp_all add: v(3) o(4))
  have "need (inode_at v n) (blocks_touched ?l (length y)) \<le> nfree_blocks v"
    using short_touch [OF y, of ?l] room va(3) by (simp add: need_def)
  from fs_write_total [OF va(1) v(2) va(2) this] obtain k w where "fs_write fd y v = Some (k, w)" by blast
  then show ?thesis using o(1,2) rd v(1) by (simp add: append_line_def sz)
qed

lemma rewrite_users_total:
  assumes "vol_inv s" and "fd_open s fd n (length x) True" and "perm_can_write (inode_at s n) (g_uid s)" and "file_text s n x"
    and "\<forall>e \<in> set es. wf_user (set_pass name pass e)" and "length x + length (fmt_users (map (set_pass name pass) es)) \<le> FILE_MAX"
    and "3 * length es \<le> nfree_blocks s"
  shows "\<exists>t. rewrite_users fd name pass es s = Some t"
  using assms
proof (induction es arbitrary: s x)
  case (Cons e es)
  obtain u p i where e: "e = (u, p, i)" by (cases e)
  let ?l = "fmt_line u (if u = name then pass else p) i"
  have wf: "wf_user (u, if u = name then pass else p, i)" using Cons.prems(5) by (simp add: e set_pass_def)
  have short: "take 255 ?l = ?l" by (rule fmt_line_short [OF wf])
  then have "length ?l \<le> 255" by (metis length_take min.cobounded2)
  then have "need (inode_at s n) (blocks_touched (length x) (length ?l) + 3 * length es) \<le> nfree_blocks s"
    using short_touch [of ?l "length x"] Cons.prems(7) by (simp add: need_def)
  from fs_write_room [OF Cons.prems(1-3) this] obtain k s1 where
    w: "fs_write fd ?l s = Some (k, s1)" "3 * length es \<le> nfree_blocks s1" by blast
  have f: "length (fmt_users (map (set_pass name pass) (e # es))) = length ?l + length (fmt_users (map (set_pass name pass) es))"
    by (simp add: e set_pass_def fmt_users_Cons)
  have "\<not> FILE_MAX < length x + length ?l" using Cons.prems(6) unfolding f by simp
  with append_write [OF Cons.prems(1-4) w(1)] have a: "file_step s n s1" "fd_open s1 fd n (length (x @ ?l)) True" "file_text s1 n (x @ ?l)"
    "i_mode (inode_at s1 n) = i_mode (inode_at s n)" "i_uid (inode_at s1 n) = i_uid (inode_at s n)" by blast+
  have p1: "vol_inv s1" "perm_can_write (inode_at s1 n) (g_uid s1)"
    using a(1,4,5) Cons.prems(3) by (simp_all add: file_step_def perm_can_write_def)
  have "length (x @ ?l) + length (fmt_users (map (set_pass name pass) es)) \<le> FILE_MAX" using Cons.prems(6) unfolding f by simp
  from Cons.IH [OF p1(1) a(2) p1(2) a(3) _ this w(2)] Cons.prems(5) show ?case using w(1) short by (simp add: e)
qed simp

text \<open>
  Saving a session: \<open>/.session\<close> is created or emptied and written, or cannot be opened; the result is
  ignored by \<open>users_login\<close>.
\<close>

lemma save_into:
  assumes "vol_inv s" and "fd_open s fd n 0 True" and "perm_can_write (inode_at s n) (g_uid s)" and "length y \<le> 255" and "3 \<le> nfree_blocks s"
  shows "\<exists>s2 k. zero_size (unat (of_ino (g_ofile s ! nat fd))) s = (FS_OK, s2) \<and> fs_write fd y (snd (fs_seek fd 0 s2)) = Some k"
proof -
  obtain s2 where z: "zero_size n s = (FS_OK, s2)" "file_step s n s2" "file_text s2 n []" "g_ofile s2 = g_ofile s" "live s2 = live s"
    "i_mode (inode_at s2 n) = i_mode (inode_at s n)" "i_uid (inode_at s2 n) = i_uid (inode_at s n)" "blk_used s2 = blk_used s"
    by (rule zero_size_ok [OF assms(1) fd_openD(5) [OF assms(2)]]) blast
  have f2: "fd_open s2 fd n 0 True" using assms(2) z(4,5) by (simp add: fd_open_def)
  obtain s3 where k: "fs_seek fd (of_nat 0) s2 = (FS_OK, s3)" "fd_open s3 fd n 0 True" "s3 = fd_set (nat fd) (\<lambda>f. f\<lparr>of_offset := of_nat 0\<rparr>) s2"
    using fs_seek_ok [OF f2, of 0] by auto
  have s3: "vol_inv s3" "perm_can_write (inode_at s3 n) (g_uid s3)" "nfree_blocks s3 = nfree_blocks s"
    using z(2,6,7) assms(3) nfree_cong(1) [OF z(8)] by (simp_all add: k(3) file_step_def perm_can_write_def)
  have "need (inode_at s3 n) (blocks_touched 0 (length y)) \<le> nfree_blocks s3"
    using short_touch [OF assms(4), of 0] assms(5) s3(3) by (simp add: need_def)
  from fs_write_total [OF s3(1) k(2) s3(2) this] show ?thesis using z(1) fd_openD(2) [OF assms(2)] k(1) by auto
qed

lemma session_save_total:
  assumes inv: "vol_inv s" and dw: "dir_wf s 1" and fds: "length (g_ofile s) = MAX_OPEN" and room: "4 \<le> nfree_blocks s"
    and old: "\<forall>k. map_of (dir_entries s 1) (bytes_of ''.session'') = Some k \<longrightarrow> live s k"
    and u: "- (2 ^ 31) \<le> uid" "uid < 2 ^ 31" "length user < MAX_USER_LEN"
  shows "\<exists>r t. session_save uid user s = Some (r, t)"
proof -
  let ?y = "session_text uid user"
  have m: "119 \<in> set (bytes_of ''w'')" by (simp add: bytes_of_def)
  have y: "length ?y \<le> 255" using u(3) length_fmt_d [OF u(1,2)] by (simp add: session_text_def bytes_of_def)
  have "\<exists>fd s1. fs_open SESSION_PATH (bytes_of ''w'') s = Some (fd, s1) \<and> (fd < 0 \<or>
      (\<exists>n. vol_inv s1 \<and> fd_open s1 fd n 0 True \<and> perm_can_write (inode_at s1 n) (g_uid s1) \<and> 3 \<le> nfree_blocks s1))"
  proof (cases "map_of (dir_entries s 1) (bytes_of ''.session'')")
    case (Some n)
    then have nm: "namei SESSION_PATH s = Inr n" and l: "live s n"
      using namei_root(1) [OF inv dw plain_name_session] old by (simp_all add: session_path)
    have rd: "read_inode n s = Some (inode_at s n)" using inv live_valid [OF l] by (simp add: vol_inv_def view_invD(1) read_inode_ok)
    show ?thesis
    proof (cases "perm_can_write (inode_at s n) (g_uid s)")
      case True
      obtain fd s1 where od: "open_fd n True s = (fd, s1)" by fastforce
      have "fs_open SESSION_PATH (bytes_of ''w'') s = Some (fd, s1)" using nm rd m True od by (simp add: fs_open_def Let_def)
      moreover from open_fd_ok [OF fds l od] have "fd < 0 \<or> fd_open s1 fd n 0 True \<and>
        s1 = fd_set (nat fd) (\<lambda>_. \<lparr>of_used = True, of_ino = of_nat n, of_offset = 0, of_writable = True\<rparr>) s" by auto
      then have "fd < 0 \<or> vol_inv s1 \<and> fd_open s1 fd n 0 True \<and> perm_can_write (inode_at s1 n) (g_uid s1) \<and> 3 \<le> nfree_blocks s1"
        using inv True room by auto
      ultimately show ?thesis by blast
    next
      case False
      then have "fs_open SESSION_PATH (bytes_of ''w'') s = Some (FS_EPERM, s)" using nm rd m by (simp add: fs_open_def Let_def)
      then show ?thesis by auto
    qed
  next
    case None
    then have nm: "namei SESSION_PATH s = Inl FS_ENOENT" and tg: "open_target SESSION_PATH s = Some (1, bytes_of ''.session'')"
      using namei_root [OF inv dw plain_name_session] by (simp_all add: session_path)
    have "0 < nfree_blocks s" using room by simp
    from create_file_total [OF inv dw this] obtain q u where "create_file 1 (bytes_of ''.session'') s = Some (q, u)" by blast
    then have "\<exists>r s1. fs_open SESSION_PATH (bytes_of ''w'') s = Some (r, s1)" using nm tg m by (simp add: fs_open_def)
    then obtain fd s1 where o: "fs_open SESSION_PATH (bytes_of ''w'') s = Some (fd, s1)" by blast
    from fs_open_new [OF inv fds nm m tg dw o] consider "fd < 0" | n u1 where "fd_open s1 fd n 0 True" "created s 1 n u1"
      "s1 = fd_set (nat fd) (\<lambda>_. \<lparr>of_used = True, of_ino = of_nat n, of_offset = 0, of_writable = True\<rparr>) u1" by blast
    then show ?thesis
    proof cases
      case (2 n u1)
      have "i_mode (inode_at s1 n) = MODE_FILE" "i_uid (inode_at s1 n) = of_int (g_uid s1)" "vol_inv s1" "nfree_blocks s \<le> Suc (nfree_blocks s1)"
        using 2(2) by (simp_all add: 2(3) created_def same_session_def)
      then show ?thesis using o 2(1) own_file_perms [of "inode_at s1 n" "g_uid s1"] room by auto
    qed (use o in blast)
  qed
  then obtain fd s1 where o: "fs_open SESSION_PATH (bytes_of ''w'') s = Some (fd, s1)" "fd < 0 \<or>
      (\<exists>n. vol_inv s1 \<and> fd_open s1 fd n 0 True \<and> perm_can_write (inode_at s1 n) (g_uid s1) \<and> 3 \<le> nfree_blocks s1)" by blast
  show ?thesis
  proof (cases "fd < 0")
    case True
    then show ?thesis using o(1) by (simp add: session_save_def)
  next
    case False
    then obtain n where n: "vol_inv s1" "fd_open s1 fd n 0 True" "perm_can_write (inode_at s1 n) (g_uid s1)" "3 \<le> nfree_blocks s1"
      using o(2) by blast
    from save_into [OF n(1-3) y n(4)] obtain s2 k where
      "zero_size (unat (of_ino (g_ofile s1 ! nat fd))) s1 = (FS_OK, s2)" "fs_write fd ?y (snd (fs_seek fd 0 s2)) = Some k" by blast
    then show ?thesis using o(1) False by (cases k) (simp add: session_save_def)
  qed
qed

section \<open>The next uid\<close>

lemma fold_max_uid:
  fixes es :: "(bytes \<times> bytes \<times> int) list"
  shows "a \<le> fold (\<lambda>(_, _, u) a. max u a) es a \<and> (\<forall>(x, y, u) \<in> set es. u \<le> fold (\<lambda>(_, _, u) a. max u a) es a) \<and>
    (a < b \<longrightarrow> (\<forall>(x, y, u) \<in> set es. u < b) \<longrightarrow> fold (\<lambda>(_, _, u) a. max u a) es a < b)"
proof (induction es arbitrary: a)
  case (Cons e es)
  obtain x y u where e: "e = (x, y, u)" by (cases e)
  show ?case using Cons [of "max u a"] by (auto simp: e)
qed simp

lemma max_uid_bounds: "0 \<le> max_uid es \<and> (\<forall>(u, p, i) \<in> set es. i \<le> max_uid es)"
  using fold_max_uid [of 0 es] by (simp add: max_uid_def)

lemma max_uid_less: "0 < b \<Longrightarrow> \<forall>(u, p, i) \<in> set es. i < b \<Longrightarrow> max_uid es < b"
  using fold_max_uid [of 0 es b] by (simp add: max_uid_def)

end
