(* ===== verification/Users_Props.thy ===== *)
theory Users_Props
  imports Users Demo
begin

text \<open>
  The properties of the account functions on a stored user table, for all contents \<open>junk\<close> of the memory
  behind the buffer of \<open>read_whole_file\<close>, which the code does not terminate.
\<close>

section \<open>The table of the demo volume\<close>

definition root_users :: "(bytes \<times> bytes \<times> int) list" where
  "root_users = [(bytes_of ''root'', bytes_of ''root'', 0)]"

lemma demo_table: "table demo demo_users root_users"
proof -
  have f: "fmt_users root_users = ROOT_LINE" by (simp add: root_users_def fmt_users_def)
  have "live demo demo_users" by (simp add: demo_ok(6))
  moreover have "map_of (dir_entries demo 1) USERS_NAME = Some demo_users" unfolding demo_ok(7) by (simp add: bytes_of_def)
  moreover have "wf_user (bytes_of ''root'', bytes_of ''root'', 0)" by (simp add: wf_user_def bytes_of_def)
  moreover have "length ROOT_LINE < 2 ^ 31" unfolding root_line by simp
  moreover have "fds_free demo" unfolding fds_free_def demo_ok(17) by (simp add: zero_ofile_def)
  moreover have "file_text demo demo_users ROOT_LINE" unfolding file_text_def using demo_ok(8-10) by blast
  ultimately show ?thesis unfolding table_def f using demo_ok(1,4,5) by (simp add: root_users_def)
qed


section \<open>Properties\<close>




text \<open>C31: Only root adds users. A name that the table or a line in the uninitialised bytes behind it has is refused
  with \<open>FS_EEXIST\<close> and the table stays. Otherwise, when those bytes contain a zero and no uid is the
  largest \<open>int\<close> (or the call is undefined), the table gets exactly one line more, at its end: the name, the
  password and one more than the largest uid met, or 1. It fails with \<open>FS_ENOSPC\<close> only when that line would
  take the file beyond its largest size. Name and password have at most 15 bytes and no separator.\<close>
theorem useradd_extends_table:
  assumes "table s n es" and "wf_user (name, pass, 0)" and "length (fmt_users es) \<le> FILE_MAX" and "3 \<le> nfree_blocks s"
  shows "if g_uid s \<noteq> 0 then users_add junk name pass s = Some (FS_EPERM, s)
    else if name \<in> fst ` set (es @ heap_users junk) then \<exists>t. users_add junk name pass s = Some (FS_EEXIST, t) \<and> table t n es
    else if \<not> heap_ends junk \<or> max_uid (es @ heap_users junk) = 2 ^ 31 - 1 then users_add junk name pass s = None
    else \<exists>uid r t. users_add junk name pass s = Some (r, t) \<and> uid = max_uid (es @ heap_users junk) + 1 \<and>
      0 < uid \<and> (\<forall>(u, p, i) \<in> set (es @ heap_users junk). i < uid) \<and>
      (r = FS_OK \<and> table t n (es @ [(name, pass, uid)]) \<or> r = FS_ENOSPC \<and> FILE_MAX < length (fmt_users (es @ [(name, pass, uid)])))"
proof (cases "g_uid s = 0")
  case False
  then show ?thesis by (simp add: users_add_def)
next
  case root: True
  have pr: "perm_can_read (inode_at s n) (g_uid s)" using root by (simp add: demo_perms)
  obtain u where u: "read_whole_file USERS_PATH s = Some (Inr (fmt_users es), u)" "table u n es" "who u = who s" "blk_used u = blk_used s"
    by (rule read_table_ok [OF assms(1) pr]) blast
  note c = c_lines_table [OF tableD(6) [OF assms(1)], of junk]
  let ?us = "es @ heap_users junk" and ?m = "max_uid (es @ heap_users junk)"
  have ex: "(\<exists>e \<in> set ?us. fst e = name) \<longleftrightarrow> name \<in> fst ` set ?us" by auto
  have add: "users_add junk name pass s = (if name \<in> fst ` set ?us then Some (FS_EEXIST, u)
      else if \<not> heap_ends junk \<or> ?m = 2 ^ 31 - 1 then None else append_line USERS_PATH (take 255 (fmt_line name pass (?m + 1))) u)"
    using root u(1) unfolding ex [symmetric] by (simp add: users_add_def c Let_def)
  show ?thesis
  proof (cases "name \<in> fst ` set ?us \<or> \<not> heap_ends junk \<or> ?m = 2 ^ 31 - 1")
    case True
    then show ?thesis using root u(2) add by auto
  next
    case False
    have "\<forall>(u, p, i) \<in> set ?us. i < 2 ^ 31" using known_users_wf [OF tableD(6) [OF assms(1)]] by (fastforce simp: wf_user_def)
    then have "?m < 2 ^ 31" by (intro max_uid_less) simp_all
    then have m: "0 \<le> ?m" "?m < 2 ^ 31 - 1" "\<forall>(u, p, i) \<in> set ?us. i < ?m + 1" using max_uid_bounds [of ?us] False by fastforce+
    have wf: "wf_user (name, pass, ?m + 1)" using assms(2) m by (simp add: wf_user_def)
    let ?l = "fmt_line name pass (?m + 1)"
    have short: "take 255 ?l = ?l" "length ?l \<le> 255" using fmt_line_short [OF wf] by (simp, metis length_take min.cobounded2)
    have pw: "perm_can_write (inode_at u n) (g_uid u)" using root u(3) by (simp add: who_def demo_perms)
    have "3 \<le> nfree_blocks u" using assms(4) nfree_cong(1) [OF u(4)] by simp
    from append_line_total [OF u(2) pw short(2) this] obtain r t where ap: "append_line USERS_PATH ?l u = Some (r, t)" by blast
    note al = append_line_ok [OF u(2) pw ap]
    have fm: "fmt_users (es @ [(name, pass, ?m + 1)]) = fmt_users es @ ?l" by (simp add: fmt_users_def)
    have "table t n (es @ [(name, pass, ?m + 1)])" if "file_text t n (fmt_users es @ ?l)" "fds_free t"
    proof (rule table_step [OF u(2)])
      show "file_text t n (fmt_users (es @ [(name, pass, ?m + 1)]))" unfolding fm by (rule that(1))
      show "length (fmt_users (es @ [(name, pass, ?m + 1)])) < 2 ^ 31" unfolding fm using assms(3) short(2) by simp
      show "\<forall>e \<in> set (es @ [(name, pass, ?m + 1)]). wf_user e" using wf tableD(6) [OF assms(1)] by simp
    qed (use al that(2) in blast)+
    with al have "r = FS_OK \<and> table t n (es @ [(name, pass, ?m + 1)]) \<or> r = FS_ENOSPC \<and> FILE_MAX < length (fmt_users (es @ [(name, pass, ?m + 1)]))"
      unfolding fm length_append by blast
    moreover have "users_add junk name pass s = Some (r, t)" using False add ap short(1) by simp
    moreover have "0 < ?m + 1" using m(1) by simp
    ultimately have "\<exists>uid r t. users_add junk name pass s = Some (r, t) \<and> uid = ?m + 1 \<and> 0 < uid \<and> (\<forall>(u, p, i) \<in> set ?us. i < uid) \<and>
      (r = FS_OK \<and> table t n (es @ [(name, pass, uid)]) \<or> r = FS_ENOSPC \<and> FILE_MAX < length (fmt_users (es @ [(name, pass, uid)])))"
      using m(3) by blast
    with root False show ?thesis by simp
  qed
qed

lemma useradd_extends_table_witness:
  "(\<exists>t. users_add [0] (bytes_of ''bob'') (bytes_of ''x'') demo = Some (FS_OK, t) \<and> table t demo_users (root_users @ [(bytes_of ''bob'', bytes_of ''x'', 1)])) \<and>
   (\<exists>t. users_add [0] (bytes_of ''root'') (bytes_of ''x'') demo = Some (FS_EEXIST, t) \<and> table t demo_users root_users)"
proof -
  have w: "wf_user (bytes_of ''root'', bytes_of ''x'', 0)" "wf_user (bytes_of ''bob'', bytes_of ''x'', 0)"
    by (simp_all add: wf_user_def bytes_of_def)
  have l: "length (fmt_users root_users) \<le> FILE_MAX" by (simp add: root_users_def fmt_users_def root_line)
  have r: "3 \<le> nfree_blocks demo" using demo_ok(12) by simp
  have "length (fmt_users (root_users @ [(bytes_of ''bob'', bytes_of ''x'', 1)])) \<le> FILE_MAX"
    by (simp add: root_users_def fmt_users_def root_line fmt_line_def fmt_d_def fmt_u.simps bytes_of_def)
  moreover have "bytes_of ''bob'' \<notin> fst ` set root_users" "max_uid root_users = 0" "bytes_of ''root'' \<in> fst ` set root_users"
    by (simp_all add: root_users_def max_uid_def bytes_of_def)
  ultimately show ?thesis
    using useradd_extends_table [OF demo_table w(2) l r, of "[0]"] useradd_extends_table [OF demo_table w(1) l r, of "[0]"] demo_ok(14)
    by (auto simp: heap_none)
qed

text \<open>C32: When root changes a password the table is rewritten with the new password in the lines of
  that name and every other line as it was, in the same order; the lines in the uninitialised bytes behind the
  table, up to their first zero, are written into it too, and without a zero there the scan leaves the
  buffer. A name without a line is answered with success as well. The password has at most 15
  bytes and no separator, and the new table fits into a file.\<close>
theorem root_changes_password:
  assumes "table s n es" and "g_uid s = 0" and "wf_user (name, pass, 0)"
    and "length (fmt_users (map (set_pass name pass) (es @ heap_users junk))) \<le> FILE_MAX"
    and "3 * length (es @ heap_users junk) \<le> nfree_blocks s"
  shows "if heap_ends junk
    then \<exists>t. users_change_password junk name pass s = Some (FS_OK, t) \<and> table t n (map (set_pass name pass) (es @ heap_users junk)) \<and> who t = who s
    else users_change_password junk name pass s = None"
proof -
  let ?us = "es @ heap_users junk" let ?new = "map (set_pass name pass) ?us"
  have pr: "perm_can_read (inode_at s n) (g_uid s)" using assms(2) by (simp add: demo_perms)
  obtain u where u: "read_whole_file USERS_PATH s = Some (Inr (fmt_users es), u)" "table u n es" "who u = who s" "blk_used u = blk_used s"
    by (rule read_table_ok [OF assms(1) pr]) blast
  note c = c_lines_table [OF tableD(6) [OF assms(1)], of junk]
  have wf: "\<forall>e \<in> set ?us. wf_user (set_pass name pass e)"
    using known_users_wf [OF tableD(6) [OF assms(1)], of junk] assms(3) by (fastforce simp: set_pass_def wf_user_def)
  have pw: "perm_can_write (inode_at u n) (g_uid u)" using assms(2) u(3) by (simp add: who_def demo_perms)
  obtain fd s1 s2 s3 where o: "fs_open USERS_PATH (bytes_of ''w'') u = Some (fd, s1)" "0 \<le> fd"
    "zero_size (unat (of_ino (g_ofile s1 ! nat fd))) s1 = (FS_OK, s2)" "fs_seek fd 0 s2 = (FS_OK, s3)"
    "fd_open s3 fd n 0 True" "file_text s3 n []" "file_step u n s3" "who s3 = who u" "blk_used s3 = blk_used u"
    by (rule reopen_empty [OF u(2) pw]) blast
  have "g_uid s3 = 0" using o(8) u(3) assms(2) by (simp add: who_def)
  then have p3: "perm_can_write (inode_at s3 n) (g_uid s3)" by (simp add: demo_perms)
  have f3: "vol_inv s3" "fd_open s3 fd n (length ([] :: u8 list)) True" using o(5,7) by (simp_all add: file_step_def)
  have l3: "length ([] :: u8 list) + length (fmt_users ?new) \<le> FILE_MAX" using assms(4) by simp
  have r3: "3 * length ?us \<le> nfree_blocks s3" using assms(5) nfree_cong(1) [OF o(9)] nfree_cong(1) [OF u(4)] by simp
  obtain s4 where w: "rewrite_users fd name pass ?us s3 = Some s4" using rewrite_users_total [OF f3 p3 o(6) wf l3 r3] by blast
  have run: "users_change_password junk name pass s = (if heap_ends junk then Some (FS_OK, snd (fs_close fd s4)) else None)"
    using assms(2) u(1) o(1-4) w by (simp add: users_change_password_def c Let_def)
  from rewrite_users_ok [OF w f3 p3 o(6) wf l3] obtain off where
    rw: "file_step s3 n s4" "file_text s4 n (fmt_users ?new)" "fd_open s4 fd n off True" by auto
  let ?t = "snd (fs_close fd s4)"
  have t: "?t = fd_set (nat fd) (\<lambda>f. f\<lparr>of_used := False\<rparr>) s4" using fd_openD(1) [OF rw(3)] by (simp add: fs_close_def)
  have "table ?t n ?new"
  proof (rule table_step [OF u(2)])
    show "file_step u n ?t" unfolding t by (intro file_step_closed file_step_trans [OF o(7) rw(1)])
    show "length (fmt_users ?new) < 2 ^ 31" using assms(4) by simp
    show "fds_free ?t" by (rule fds_free_closed [OF rw(3)])
    show "\<forall>e \<in> set ?new. wf_user e" using wf by auto
  qed (use rw(2) in \<open>simp add: t\<close>)
  moreover have "who ?t = who s" using who_rewrite_users [OF w] o(8) u(3) by simp
  ultimately show ?thesis unfolding run by simp
qed

lemma root_changes_password_witness:
  "\<exists>t. users_change_password [0] (bytes_of ''root'') (bytes_of ''x'') demo = Some (FS_OK, t) \<and>
    table t demo_users [(bytes_of ''root'', bytes_of ''x'', 0)]"
proof -
  let ?l = "fmt_line (bytes_of ''root'') (bytes_of ''x'') 0"
  have l: "map (set_pass (bytes_of ''root'') (bytes_of ''x'')) (root_users @ heap_users [0]) = [(bytes_of ''root'', bytes_of ''x'', 0)]"
    by (simp add: root_users_def heap_none set_pass_def)
  have w: "wf_user (bytes_of ''root'', bytes_of ''x'', 0)" by (simp add: wf_user_def bytes_of_def)
  have len: "length (fmt_users (map (set_pass (bytes_of ''root'') (bytes_of ''x'')) (root_users @ heap_users [0]))) \<le> FILE_MAX"
    unfolding l by (simp add: fmt_users_def fmt_line_def fmt_d_def fmt_u.simps bytes_of_def)
  have room: "3 * length (root_users @ heap_users [0]) \<le> nfree_blocks demo" using demo_ok(12) by (simp add: root_users_def heap_none)
  from root_changes_password [OF demo_table demo_ok(14) w len room] show ?thesis unfolding l by (auto simp: heap_none)
qed



end
