(* ===== verification/Memsim.thy ===== *)
theory Memsim
  imports Prelude "HOL-Library.Multiset"
begin

text \<open>
  \<open>project2/part3/memsim.c\<close>: the simulator of contiguous memory allocation with first, best
  and worst fit, coalescing and compaction. The two linked lists are HOL lists; sizes and
  addresses are \<open>int\<close>, which the invariant keeps between 0 and \<open>mem_size\<close>, so C's \<open>int\<close> never
  overflows on them. What \<open>scanf\<close> yields is an \<open>int option\<close>, \<open>None\<close> when it converts nothing;
  \<open>heap\<close> answers the calls of \<open>malloc\<close>, the \<open>heap_tick\<close>-th with \<open>heap heap_tick\<close>.
\<close>

section \<open>Data\<close>

abbreviation (input) DEFAULT_MEM_SIZE :: int where "DEFAULT_MEM_SIZE \<equiv> 1024"
abbreviation (input) DEFAULT_MEM_START :: int where "DEFAULT_MEM_START \<equiv> 0"
abbreviation (input) MA_FF :: int where "MA_FF \<equiv> 1"
abbreviation (input) MA_BF :: int where "MA_BF \<equiv> 2"
abbreviation (input) MA_WF :: int where "MA_WF \<equiv> 3"

record free_block_type =
  f_size :: int
  f_start :: int

record allocated_block =
  a_pid :: int
  a_size :: int
  a_start :: int
  a_name :: bytes

record mem =
  free_block :: "free_block_type list"
  allocated_block_head :: "allocated_block list"
  mem_size :: int
  ma_algorithm :: int
  pid_seq :: int
  lock_set_size :: bool
  min_slice :: int
  auto_compact :: bool
  heap :: "nat \<Rightarrow> bool"
  heap_tick :: nat

definition malloc_ok :: "mem \<Rightarrow> bool \<times> mem" where
  "malloc_ok s = (heap s (heap_tick s), s\<lparr>heap_tick := Suc (heap_tick s)\<rparr>)"

section \<open>Sorting the lists\<close>

text \<open>
  All four sorts move the nodes one by one into a sorted list: to its front when \<open>lt\<close> the first
  node, otherwise behind the first node and the run of nodes after it that are \<open>le\<close> the new one.
\<close>

fun ll_after :: "('a \<Rightarrow> 'a \<Rightarrow> bool) \<Rightarrow> 'a \<Rightarrow> 'a list \<Rightarrow> 'a list" where
  "ll_after le x [] = [x]"
| "ll_after le x (y # ys) = (if le y x then y # ll_after le x ys else x # y # ys)"

definition ll_insert :: "('a \<Rightarrow> 'a \<Rightarrow> bool) \<Rightarrow> ('a \<Rightarrow> 'a \<Rightarrow> bool) \<Rightarrow> 'a \<Rightarrow> 'a list \<Rightarrow> 'a list" where
  "ll_insert lt le x ys =
     (case ys of
        [] \<Rightarrow> [x]
      | y # zs \<Rightarrow> if lt x y then x # ys else y # ll_after le x zs)"

definition ll_sort :: "('a \<Rightarrow> 'a \<Rightarrow> bool) \<Rightarrow> ('a \<Rightarrow> 'a \<Rightarrow> bool) \<Rightarrow> 'a list \<Rightarrow> 'a list" where
  "ll_sort lt le xs = fold (ll_insert lt le) xs []"

definition addr_lt :: "free_block_type \<Rightarrow> free_block_type \<Rightarrow> bool" where
  "addr_lt a b \<longleftrightarrow> f_start a < f_start b"

definition addr_le :: "free_block_type \<Rightarrow> free_block_type \<Rightarrow> bool" where
  "addr_le a b \<longleftrightarrow> f_start a \<le> f_start b"

definition asc_lt :: "free_block_type \<Rightarrow> free_block_type \<Rightarrow> bool" where
  "asc_lt a b \<longleftrightarrow> f_size a < f_size b \<or> f_size a = f_size b \<and> f_start a < f_start b"

definition asc_le :: "free_block_type \<Rightarrow> free_block_type \<Rightarrow> bool" where
  "asc_le a b \<longleftrightarrow> f_size a < f_size b \<or> f_size a = f_size b \<and> f_start a \<le> f_start b"

definition desc_lt :: "free_block_type \<Rightarrow> free_block_type \<Rightarrow> bool" where
  "desc_lt a b \<longleftrightarrow> f_size a > f_size b \<or> f_size a = f_size b \<and> f_start a < f_start b"

definition desc_le :: "free_block_type \<Rightarrow> free_block_type \<Rightarrow> bool" where
  "desc_le a b \<longleftrightarrow> f_size a > f_size b \<or> f_size a = f_size b \<and> f_start a \<le> f_start b"

definition alloc_lt :: "allocated_block \<Rightarrow> allocated_block \<Rightarrow> bool" where
  "alloc_lt a b \<longleftrightarrow> a_start a < a_start b"

definition alloc_le :: "allocated_block \<Rightarrow> allocated_block \<Rightarrow> bool" where
  "alloc_le a b \<longleftrightarrow> a_start a \<le> a_start b"

definition sort_free_by_addr :: "mem \<Rightarrow> mem" where
  "sort_free_by_addr s = s\<lparr>free_block := ll_sort addr_lt addr_le (free_block s)\<rparr>"

definition sort_free_by_size_asc :: "mem \<Rightarrow> mem" where
  "sort_free_by_size_asc s = s\<lparr>free_block := ll_sort asc_lt asc_le (free_block s)\<rparr>"

definition sort_free_by_size_desc :: "mem \<Rightarrow> mem" where
  "sort_free_by_size_desc s = s\<lparr>free_block := ll_sort desc_lt desc_le (free_block s)\<rparr>"

definition sort_alloc_by_addr :: "mem \<Rightarrow> mem" where
  "sort_alloc_by_addr s = s\<lparr>allocated_block_head := ll_sort alloc_lt alloc_le (allocated_block_head s)\<rparr>"

definition rearrange :: "int \<Rightarrow> mem \<Rightarrow> mem" where
  "rearrange alg s =
     (if alg = MA_FF then sort_free_by_addr s
      else if alg = MA_BF then sort_free_by_size_asc s
      else if alg = MA_WF then sort_free_by_size_desc s
      else s)"

section \<open>Free blocks\<close>

fun merge_run :: "free_block_type list \<Rightarrow> free_block_type list" where
  "merge_run (a # b # r) =
     (if f_start a + f_size a = f_start b then merge_run (a\<lparr>f_size := f_size a + f_size b\<rparr> # r)
      else a # merge_run (b # r))"
| "merge_run r = r"

definition merge_free_adjacent :: "mem \<Rightarrow> mem" where
  "merge_free_adjacent s =
     (if free_block s = [] then s
      else let s1 = sort_free_by_addr s in s1\<lparr>free_block := merge_run (free_block s1)\<rparr>)"

definition insert_free_tail :: "free_block_type \<Rightarrow> mem \<Rightarrow> mem" where
  "insert_free_tail n s = s\<lparr>free_block := free_block s @ [n]\<rparr>"

definition init_free_block :: "int \<Rightarrow> mem \<Rightarrow> free_block_type option \<times> mem" where
  "init_free_block n s =
     (let (ok, s1) = malloc_ok s in
      (if ok then Some \<lparr>f_size = n, f_start = DEFAULT_MEM_START\<rparr> else None, s1))"

definition sum_free_memory :: "mem \<Rightarrow> int" where
  "sum_free_memory s = sum_list (map f_size (free_block s))"

section \<open>Allocation\<close>

text \<open>
  The scan of \<open>allocate_mem\<close>: start and size of the piece granted, and the free list without it.
\<close>

fun carve :: "int \<Rightarrow> int \<Rightarrow> free_block_type list \<Rightarrow> (int \<times> int \<times> free_block_type list) option" where
  "carve need thr [] = None"
| "carve need thr (c # cs) =
     (if f_size c \<ge> need then
        let leftover = f_size c - need in
        if leftover = 0 then Some (f_start c, need, cs)
        else if leftover < thr then Some (f_start c, f_size c, cs)
        else Some (f_start c, need, c\<lparr>f_start := f_start c + need, f_size := f_size c - need\<rparr> # cs)
      else map_option (\<lambda>(st, sz, r). (st, sz, c # r)) (carve need thr cs))"

text \<open>The allocated blocks are moved down to follow one another; the result is the first address after them.\<close>

fun pack :: "int \<Rightarrow> allocated_block list \<Rightarrow> allocated_block list \<times> int" where
  "pack nxt [] = ([], nxt)"
| "pack nxt (a # r) = (let (r', e) = pack (nxt + a_size a) r in (a\<lparr>a_start := nxt\<rparr> # r', e))"

definition compact_memory :: "mem \<Rightarrow> int \<times> mem" where
  "compact_memory s =
     (let s1 = sort_alloc_by_addr s;
          (as, nxt) = pack DEFAULT_MEM_START (allocated_block_head s1);
          s2 = s1\<lparr>allocated_block_head := as, free_block := []\<rparr>;
          free_size = mem_size s2 - (nxt - DEFAULT_MEM_START) in
      if free_size > 0 then
        let (ok, s3) = malloc_ok s2 in
        if \<not> ok then (- 1, s3)
        else (1, rearrange (ma_algorithm s3) (s3\<lparr>free_block := [\<lparr>f_size = free_size, f_start = nxt\<rparr>]\<rparr>))
      else (1, rearrange (ma_algorithm s2) s2))"

text \<open>
  \<open>allocate_mem\<close> for a request of \<open>need\<close>: \<open>Some\<close> of start and granted size, or \<open>None\<close> for \<open>-1\<close>.
  After compaction it calls itself; the outer \<open>None\<close> would be a call that never returns.
\<close>

partial_function (option) allocate_mem :: "int \<Rightarrow> mem \<Rightarrow> ((int \<times> int) option \<times> mem) option" where
  "allocate_mem need s =
     (case carve need (min_slice s) (free_block s) of
        Some (st, sz, r) \<Rightarrow> Some (Some (st, sz), rearrange (ma_algorithm s) (s\<lparr>free_block := r\<rparr>))
      | None \<Rightarrow>
          if auto_compact s \<and> sum_free_memory s \<ge> need then
            let (rc, s1) = compact_memory s in
            if rc = 1 then allocate_mem need s1 else Some (None, s1)
          else Some (None, s))"

definition process_name :: "int \<Rightarrow> bytes" where
  "process_name pid =
     (let d = fmt_d pid in
      take 31 (bytes_of ''PROCESS-'' @ (if length d < 2 then 48 # d else d)))"

definition new_process :: "int option \<Rightarrow> mem \<Rightarrow> (int \<times> mem) option" where
  "new_process input s =
     (let (ok, s1) = malloc_ok s in
      if \<not> ok then Some (- 1, s1)
      else
        let s2 = s1\<lparr>pid_seq := pid_seq s1 + 1\<rparr>; pid = pid_seq s2 in
        case input of
          None \<Rightarrow> Some (- 1, s2)
        | Some n \<Rightarrow>
            if n \<le> 0 then Some (- 1, s2)
            else do {
              (r, s3) \<leftarrow> allocate_mem n s2;
              case r of
                None \<Rightarrow> Some (- 1, s3)
              | Some (st, sz) \<Rightarrow>
                  Some (1, s3\<lparr>allocated_block_head :=
                      \<lparr>a_pid = pid, a_size = sz, a_start = st, a_name = process_name pid\<rparr> # allocated_block_head s3,
                    lock_set_size := True\<rparr>) })"

section \<open>Release\<close>

definition free_mem :: "allocated_block \<Rightarrow> mem \<Rightarrow> int \<times> mem" where
  "free_mem ab s =
     (let (ok, s1) = malloc_ok s in
      if \<not> ok then (- 1, s1)
      else
        let s2 = insert_free_tail \<lparr>f_size = a_size ab, f_start = a_start ab\<rparr> s1;
            s3 = merge_free_adjacent (sort_free_by_addr s2) in
        (1, rearrange (ma_algorithm s3) s3))"

text \<open>A node of the list of processes is named by its position, as the C code does by its address.\<close>

definition find_process :: "int \<Rightarrow> mem \<Rightarrow> nat option" where
  "find_process pid s =
     List.find (\<lambda>k. a_pid (allocated_block_head s ! k) = pid) [0..<length (allocated_block_head s)]"

definition dispose :: "nat \<Rightarrow> mem \<Rightarrow> mem" where
  "dispose k s = s\<lparr>allocated_block_head := take k (allocated_block_head s) @ drop (Suc k) (allocated_block_head s)\<rparr>"

definition kill_process :: "int option \<Rightarrow> mem \<Rightarrow> mem" where
  "kill_process input s =
     (case input of
        None \<Rightarrow> s
      | Some pid \<Rightarrow>
          (case find_process pid s of
             None \<Rightarrow> s
           | Some k \<Rightarrow> (dispose k (snd (free_mem (allocated_block_head s ! k) s)))\<lparr>lock_set_size := True\<rparr>))"

section \<open>Settings and the main loop\<close>

definition set_mem_size :: "int option \<Rightarrow> mem \<Rightarrow> int \<times> mem" where
  "set_mem_size input s =
     (if lock_set_size s then (0, s)
      else case input of
        None \<Rightarrow> (0, s)
      | Some n \<Rightarrow>
          if n \<le> 0 then (0, s)
          else let s1 = s\<lparr>mem_size := n\<rparr> in
            if free_block s1 \<noteq> [] then (1, s1\<lparr>free_block := [\<lparr>f_size = n, f_start = DEFAULT_MEM_START\<rparr>]\<rparr>)
            else let (b, s2) = init_free_block n s1 in
                 (1, s2\<lparr>free_block := (case b of None \<Rightarrow> [] | Some x \<Rightarrow> [x])\<rparr>))"

definition set_algorithm :: "int option \<Rightarrow> mem \<Rightarrow> mem" where
  "set_algorithm input s =
     (case input of
        None \<Rightarrow> s
      | Some alg \<Rightarrow>
          if alg < 1 \<or> alg > 3 then s
          else (rearrange alg (s\<lparr>ma_algorithm := alg\<rparr>))\<lparr>lock_set_size := True\<rparr>)"

definition set_min_slice :: "int option \<Rightarrow> mem \<Rightarrow> mem" where
  "set_min_slice input s =
     (case input of None \<Rightarrow> s | Some v \<Rightarrow> if v < 0 then s else s\<lparr>min_slice := v\<rparr>)"

definition toggle_auto_compact :: "mem \<Rightarrow> mem" where
  "toggle_auto_compact s = s\<lparr>auto_compact := \<not> auto_compact s\<rparr>"

text \<open>
  One turn of the menu: the choice and the number typed at the prompt that follows. Choice 0
  releases both lists and ends the program; a choice that shows or prints something leaves the state alone.
\<close>

definition menu :: "int option \<Rightarrow> int option \<Rightarrow> mem \<Rightarrow> mem option" where
  "menu choice input s =
     (if choice = Some 1 then Some (snd (set_mem_size input s))
      else if choice = Some 2 then Some (set_algorithm input s)
      else if choice = Some 3 then map_option snd (new_process input s)
      else if choice = Some 4 then Some (kill_process input s)
      else if choice = Some 6 then Some (set_min_slice input s)
      else if choice = Some 7 then Some (toggle_auto_compact s)
      else Some s)"

definition do_exit :: "mem \<Rightarrow> mem" where
  "do_exit s = s\<lparr>allocated_block_head := [], free_block := []\<rparr>"

fun session :: "(int option \<times> int option) list \<Rightarrow> mem \<Rightarrow> mem option" where
  "session [] s = Some s"
| "session ((c, i) # cs) s = (if c = Some 0 then Some (do_exit s) else do { s1 \<leftarrow> menu c i s; session cs s1 })"

definition boot_mem :: "(nat \<Rightarrow> bool) \<Rightarrow> mem" where
  "boot_mem h =
     (let s = \<lparr>free_block = [], allocated_block_head = [], mem_size = DEFAULT_MEM_SIZE, ma_algorithm = MA_FF,
               pid_seq = 0, lock_set_size = False, min_slice = 10, auto_compact = True, heap = h, heap_tick = 0\<rparr>;
          (b, s1) = init_free_block (mem_size s) s in
      s1\<lparr>free_block := (case b of None \<Rightarrow> [] | Some x \<Rightarrow> [x])\<rparr>)"

section \<open>What the sorts share\<close>

text \<open>
  The contract of the comparison pairs: \<open>le\<close> is a total preorder and \<open>lt\<close> the negation of its
  converse. Then the insertion keeps a list sorted and the sort is a sorted permutation.
\<close>

locale linked_sort =
  fixes lt le :: "'a \<Rightarrow> 'a \<Rightarrow> bool"
  assumes le_trans: "le x y \<Longrightarrow> le y z \<Longrightarrow> le x z"
    and le_total: "le x y \<or> le y x"
    and lt_iff: "lt x y \<longleftrightarrow> \<not> le y x"
begin

lemma mset_after: "mset (ll_after le x ys) = add_mset x (mset ys)"
  by (induction ys) auto

lemma mset_insert: "mset (ll_insert lt le x ys) = add_mset x (mset ys)"
  by (cases ys) (auto simp: ll_insert_def mset_after)

lemma set_after: "set (ll_after le x ys) = insert x (set ys)"
  by (induction ys) auto

lemma sorted_after: "sorted_wrt le (y # ys) \<Longrightarrow> le y x \<Longrightarrow> sorted_wrt le (y # ll_after le x ys)"
proof (induction ys arbitrary: y)
  case Nil
  then show ?case by simp
next
  case (Cons z zs)
  show ?case
  proof (cases "le z x")
    case True
    have "sorted_wrt le (z # zs)" using Cons.prems(1) by simp
    from Cons.IH [OF this True] have "sorted_wrt le (z # ll_after le x zs)" .
    with True Cons.prems show ?thesis by (auto simp: set_after)
  next
    case False
    then have xz: "le x z" using le_total by blast
    with Cons.prems(1) have "\<forall>w \<in> set (z # zs). le x w" using le_trans [of x z] by auto
    with False Cons.prems show ?thesis by auto
  qed
qed

lemma sorted_insert: "sorted_wrt le ys \<Longrightarrow> sorted_wrt le (ll_insert lt le x ys)"
proof (cases ys)
  case (Cons y zs)
  assume s: "sorted_wrt le ys"
  show ?thesis
  proof (cases "lt x y")
    case True
    then have "le x y" using le_total lt_iff by blast
    with s Cons have "\<forall>z \<in> set ys. le x z" using le_trans [of x y] by auto
    with True s Cons show ?thesis by (simp add: ll_insert_def)
  next
    case False
    then have "le y x" by (simp add: lt_iff)
    with False s Cons sorted_after show ?thesis by (simp add: ll_insert_def del: sorted_wrt.simps)
  qed
qed (simp add: ll_insert_def)

lemma sort_fold: "sorted_wrt le ys \<Longrightarrow>
   sorted_wrt le (fold (ll_insert lt le) xs ys) \<and> mset (fold (ll_insert lt le) xs ys) = mset xs + mset ys"
  by (induction xs arbitrary: ys) (auto simp: sorted_insert mset_insert)

lemma sort_sorted: "sorted_wrt le (ll_sort lt le xs)"
  using sort_fold [of "[]" xs] by (simp add: ll_sort_def)

lemma sort_mset: "mset (ll_sort lt le xs) = mset xs"
  using sort_fold [of "[]" xs] by (simp add: ll_sort_def)

lemma sort_set: "set (ll_sort lt le xs) = set xs"
  using sort_mset by (metis set_mset_mset)

end

interpretation by_addr: linked_sort addr_lt addr_le
  by unfold_locales (auto simp: addr_lt_def addr_le_def)

interpretation by_size_asc: linked_sort asc_lt asc_le
  by unfold_locales (auto simp: asc_lt_def asc_le_def)

interpretation by_size_desc: linked_sort desc_lt desc_le
  by unfold_locales (auto simp: desc_lt_def desc_le_def)

interpretation alloc_by_addr: linked_sort alloc_lt alloc_le
  by unfold_locales (auto simp: alloc_lt_def alloc_le_def)

text \<open>The order of the free list under each algorithm.\<close>

definition policy :: "int \<Rightarrow> free_block_type \<Rightarrow> free_block_type \<Rightarrow> bool" where
  "policy alg = (if alg = MA_FF then addr_le else if alg = MA_BF then asc_le else desc_le)"

lemma rearrange_props:
  assumes "1 \<le> alg" and "alg \<le> 3"
  shows "mset (free_block (rearrange alg s)) = mset (free_block s)"
    and "set (free_block (rearrange alg s)) = set (free_block s)"
    and "sorted_wrt (policy alg) (free_block (rearrange alg s))"
proof -
  have "alg = 1 \<or> alg = 2 \<or> alg = 3" using assms by auto
  then show "mset (free_block (rearrange alg s)) = mset (free_block s)"
    "set (free_block (rearrange alg s)) = set (free_block s)"
    "sorted_wrt (policy alg) (free_block (rearrange alg s))"
    by (auto simp: rearrange_def policy_def sort_free_by_addr_def sort_free_by_size_asc_def
        sort_free_by_size_desc_def by_addr.sort_mset by_size_asc.sort_mset by_size_desc.sort_mset
        by_addr.sort_set by_size_asc.sort_set by_size_desc.sort_set
        by_addr.sort_sorted by_size_asc.sort_sorted by_size_desc.sort_sorted)
qed

lemma rearrange_frame [simp]:
  "allocated_block_head (rearrange alg s) = allocated_block_head s" "mem_size (rearrange alg s) = mem_size s"
  "ma_algorithm (rearrange alg s) = ma_algorithm s" "pid_seq (rearrange alg s) = pid_seq s"
  "lock_set_size (rearrange alg s) = lock_set_size s" "min_slice (rearrange alg s) = min_slice s"
  "auto_compact (rearrange alg s) = auto_compact s" "heap (rearrange alg s) = heap s"
  "heap_tick (rearrange alg s) = heap_tick s"
  by (simp_all add: rearrange_def sort_free_by_addr_def sort_free_by_size_asc_def sort_free_by_size_desc_def)

section \<open>The memory as a set of spans\<close>

text \<open>
  A span is a start and a size. \<open>ok_spans m sp\<close>: the spans are not empty, lie within the first
  \<open>m\<close> addresses and do not overlap.
\<close>

definition apart :: "int \<times> int \<Rightarrow> int \<times> int \<Rightarrow> bool" where
  "apart a b \<longleftrightarrow> fst a + snd a \<le> fst b \<or> fst b + snd b \<le> fst a"

definition ok_spans :: "int \<Rightarrow> (int \<times> int) list \<Rightarrow> bool" where
  "ok_spans m sp \<longleftrightarrow> (\<forall>a \<in> set sp. 0 \<le> fst a \<and> 0 < snd a \<and> fst a + snd a \<le> m) \<and> sorted_wrt apart sp"

definition f_span :: "free_block_type \<Rightarrow> int \<times> int" where
  "f_span b = (f_start b, f_size b)"

definition a_span :: "allocated_block \<Rightarrow> int \<times> int" where
  "a_span a = (a_start a, a_size a)"

definition spans :: "mem \<Rightarrow> (int \<times> int) list" where
  "spans s = map f_span (free_block s) @ map a_span (allocated_block_head s)"

lemma apart_sym: "apart a b = apart b a"
  by (auto simp: apart_def)

lemma sorted_wrt_middle:
  "(\<And>x y. P x y = P y x) \<Longrightarrow> sorted_wrt P (a @ x # b) \<longleftrightarrow> (\<forall>y \<in> set (a @ b). P x y) \<and> sorted_wrt P (a @ b)"
  by (auto simp: sorted_wrt_append)

lemma sorted_wrt_sym_mset:
  assumes sym: "\<And>x y. P x y = P y x" and m: "mset xs = mset ys"
  shows "sorted_wrt P xs = sorted_wrt P ys"
  using m
proof (induction xs arbitrary: ys)
  case Nil
  then show ?case by simp
next
  case (Cons x xs)
  then have "x \<in> set ys" by (metis list.set_intros(1) set_mset_mset)
  then obtain a b where ys: "ys = a @ x # b" by (meson split_list)
  with Cons.prems have m: "mset xs = mset (a @ b)" by simp
  then have "set xs = set (a @ b)" by (metis set_mset_mset)
  with Cons.IH [OF m] show ?case unfolding ys sorted_wrt_middle [OF sym] by auto
qed

lemma ok_spans_mset: "mset xs = mset ys \<Longrightarrow> ok_spans m xs = ok_spans m ys"
  using sorted_wrt_sym_mset [of apart xs ys, OF apart_sym] mset_eq_setD [of xs ys] by (simp add: ok_spans_def)

lemma ok_spans_Cons:
  "ok_spans m (a # sp) \<longleftrightarrow> 0 \<le> fst a \<and> 0 < snd a \<and> fst a + snd a \<le> m \<and> (\<forall>b \<in> set sp. apart a b) \<and> ok_spans m sp"
  by (auto simp: ok_spans_def)

lemma ok_spans_sum_sorted:
  "ok_spans m sp \<Longrightarrow> sorted (map fst sp) \<Longrightarrow> \<forall>a \<in> set sp. lo \<le> fst a \<Longrightarrow> lo \<le> m \<Longrightarrow> sum_list (map snd sp) \<le> m - lo"
proof (induction sp arbitrary: lo)
  case Nil
  then show ?case by simp
next
  case (Cons a sp)
  have "fst a + snd a \<le> fst b" if "b \<in> set sp" for b
    using Cons.prems(1,2) that by (fastforce simp: ok_spans_Cons apart_def ok_spans_def)
  with Cons have "sum_list (map snd sp) \<le> m - (fst a + snd a)"
    by (auto simp: ok_spans_Cons)
  with Cons.prems(3) show ?case by auto
qed

text \<open>Disjoint spans cannot add up to more than the memory.\<close>

lemma ok_spans_sum:
  assumes ok: "ok_spans m sp" and m: "0 \<le> m"
  shows "sum_list (map snd sp) \<le> m"
proof -
  let ?ys = "sort_key fst sp"
  have ys: "ok_spans m ?ys" using ok ok_spans_mset [of ?ys sp m] by simp
  moreover have "sorted (map fst ?ys)" by simp
  moreover have "\<forall>a \<in> set ?ys. 0 \<le> fst a" using ok by (simp add: ok_spans_def)
  ultimately have "sum_list (map snd ?ys) \<le> m - 0" using ok_spans_sum_sorted m by blast
  moreover have "sum_list (map snd ?ys) = sum_list (map snd sp)"
    by (metis mset_map mset_sort sum_mset_sum_list)
  ultimately show ?thesis by simp
qed

section \<open>The invariant\<close>

text \<open>
  Free and allocated blocks are disjoint spans of the memory, the free list is coalesced and in
  the algorithm's order, pids are distinct and not above \<open>pid_seq\<close>, and while the size may still
  be set no process exists.
\<close>

definition coalesced :: "free_block_type list \<Rightarrow> bool" where
  "coalesced fs \<longleftrightarrow> (\<forall>a \<in> set fs. \<forall>b \<in> set fs. f_start a + f_size a \<noteq> f_start b)"

definition mem_inv :: "mem \<Rightarrow> bool" where
  "mem_inv s \<longleftrightarrow> 0 < mem_size s \<and> ok_spans (mem_size s) (spans s) \<and>
     coalesced (free_block s) \<and> sorted_wrt (policy (ma_algorithm s)) (free_block s) \<and>
     1 \<le> ma_algorithm s \<and> ma_algorithm s \<le> 3 \<and> 0 \<le> min_slice s \<and>
     distinct (map a_pid (allocated_block_head s)) \<and> (\<forall>a \<in> set (allocated_block_head s). a_pid a \<le> pid_seq s) \<and>
     (lock_set_size s \<or> allocated_block_head s = [])"

lemma mem_invD:
  assumes "mem_inv s"
  shows "0 < mem_size s" "ok_spans (mem_size s) (spans s)" "coalesced (free_block s)"
    "sorted_wrt (policy (ma_algorithm s)) (free_block s)" "1 \<le> ma_algorithm s" "ma_algorithm s \<le> 3"
    "0 \<le> min_slice s" "distinct (map a_pid (allocated_block_head s))"
    "\<forall>a \<in> set (allocated_block_head s). a_pid a \<le> pid_seq s" "lock_set_size s \<or> allocated_block_head s = []"
  using assms by (simp_all add: mem_inv_def)

lemma ok_spans_free:
  assumes "ok_spans m (spans s)" and "b \<in> set (free_block s)"
  shows "0 \<le> f_start b" "0 < f_size b" "f_start b + f_size b \<le> m"
proof -
  have "f_span b \<in> set (spans s)" using assms(2) by (simp add: spans_def)
  with assms(1) have "0 \<le> fst (f_span b) \<and> 0 < snd (f_span b) \<and> fst (f_span b) + snd (f_span b) \<le> m"
    by (simp add: ok_spans_def)
  then show "0 \<le> f_start b" "0 < f_size b" "f_start b + f_size b \<le> m" by (simp_all add: f_span_def)
qed

text \<open>A span may be cut in two.\<close>

lemma apart_split: "apart (a, n) x \<Longrightarrow> 0 < k \<Longrightarrow> k < n \<Longrightarrow> apart (a, k) x \<and> apart (a + k, n - k) x"
  by (auto simp: apart_def)

lemma ok_spans_split: "ok_spans m ((a, n) # sp) \<Longrightarrow> 0 < k \<Longrightarrow> k < n \<Longrightarrow> ok_spans m ((a, k) # (a + k, n - k) # sp)"
  using apart_split [of a n _ k] by (auto simp: ok_spans_Cons apart_def [of "(a, k)" "(a + k, n - k)"])

text \<open>The scan takes the first block that is large enough; a piece below the threshold goes with it.\<close>

definition carved :: "int \<Rightarrow> int \<Rightarrow> free_block_type list \<Rightarrow> int \<Rightarrow> int \<Rightarrow> free_block_type list \<Rightarrow> bool" where
  "carved need thr fs st sz r \<longleftrightarrow>
     (\<exists>pre c post. fs = pre @ c # post \<and> (\<forall>x \<in> set pre. f_size x < need) \<and> need \<le> f_size c \<and> st = f_start c \<and>
        (sz = f_size c \<and> (f_size c = need \<or> f_size c - need < thr) \<and> r = pre @ post \<or>
         sz = need \<and> need < f_size c \<and> thr \<le> f_size c - need \<and>
           r = pre @ c\<lparr>f_start := f_start c + need, f_size := f_size c - need\<rparr> # post))"

lemma carve_Some: "carve need thr fs = Some (st, sz, r) \<Longrightarrow> carved need thr fs st sz r"
proof (induction fs arbitrary: r)
  case Nil
  then show ?case by simp
next
  case (Cons c cs)
  show ?case
  proof (cases "need \<le> f_size c")
    case True
    with Cons.prems show ?thesis
      unfolding carved_def by (intro exI [of _ "[]"] exI [of _ c] exI [of _ cs]) (auto simp: Let_def split: if_splits)
  next
    case False
    with Cons.prems obtain r' where r: "carve need thr cs = Some (st, sz, r')" "r = c # r'" by auto
    from Cons.IH [OF r(1)] obtain pre d post where h: "cs = pre @ d # post" "\<forall>x \<in> set pre. f_size x < need"
      "need \<le> f_size d" "st = f_start d"
      "sz = f_size d \<and> (f_size d = need \<or> f_size d - need < thr) \<and> r' = pre @ post \<or>
         sz = need \<and> need < f_size d \<and> thr \<le> f_size d - need \<and>
           r' = pre @ d\<lparr>f_start := f_start d + need, f_size := f_size d - need\<rparr> # post"
      unfolding carved_def by blast
    with False r(2) show ?thesis
      unfolding carved_def by (intro exI [of _ "c # pre"] exI [of _ d] exI [of _ post]) auto
  qed
qed

lemma carve_None: "carve need thr fs = None \<longleftrightarrow> (\<forall>x \<in> set fs. f_size x < need)"
  by (induction fs) (auto simp: Let_def)

lemma sum_map_mset: "mset xs = mset ys \<Longrightarrow> sum_list (map f xs) = sum_list (map f ys)" for f :: "'a \<Rightarrow> int"
  by (metis mset_map sum_mset_sum_list)

text \<open>What is granted and what remains make up the free memory there was.\<close>

definition granted :: "mem \<Rightarrow> int \<Rightarrow> int \<times> int \<Rightarrow> mem \<Rightarrow> bool" where
  "granted s need g t \<longleftrightarrow> mem_inv t \<and> ok_spans (mem_size t) (g # spans t) \<and> need \<le> snd g \<and>
     (snd g = need \<or> snd g - need < min_slice s) \<and> snd g + sum_free_memory t = sum_free_memory s \<and>
     mem_size t = mem_size s \<and> pid_seq t = pid_seq s \<and> lock_set_size t = lock_set_size s"

lemma mem_inv_rearrange:
  assumes "mem_inv s" and a: "1 \<le> alg" "alg \<le> 3"
  shows "mem_inv ((rearrange alg s)\<lparr>ma_algorithm := alg\<rparr>)"
proof -
  note r = rearrange_props [OF a, of s]
  have "mset (spans (rearrange alg s)) = mset (spans s)" using r(1) by (simp add: spans_def)
  then have "ok_spans (mem_size s) (spans (rearrange alg s))" using mem_invD(2) [OF assms(1)] ok_spans_mset by blast
  moreover have "spans ((rearrange alg s)\<lparr>ma_algorithm := alg\<rparr>) = spans (rearrange alg s)" by (simp add: spans_def)
  ultimately show ?thesis
    using mem_invD [OF assms(1)] r(2,3) a by (simp add: mem_inv_def coalesced_def)
qed

lemma granted_carve:
  assumes inv: "mem_inv s" and need: "0 < need" and c: "carve need (min_slice s) (free_block s) = Some (st, sz, r)"
  shows "granted s need (st, sz) (rearrange (ma_algorithm s) (s\<lparr>free_block := r\<rparr>))"
proof -
  note i = mem_invD [OF inv]
  obtain pre c post where h: "free_block s = pre @ c # post" "need \<le> f_size c" "st = f_start c"
    "sz = f_size c \<and> (f_size c = need \<or> f_size c - need < min_slice s) \<and> r = pre @ post \<or>
         sz = need \<and> need < f_size c \<and> min_slice s \<le> f_size c - need \<and>
           r = pre @ c\<lparr>f_start := f_start c + need, f_size := f_size c - need\<rparr> # post"
    using carve_Some [OF c] unfolding carved_def by blast
  let ?s1 = "s\<lparr>free_block := r\<rparr>"
  let ?t = "rearrange (ma_algorithm s) ?s1"
  have m0: "mset (spans s) = mset (f_span c # map f_span (pre @ post) @ map a_span (allocated_block_head s))"
    by (simp add: spans_def h(1))
  then have ok0: "ok_spans (mem_size s) (f_span c # map f_span (pre @ post) @ map a_span (allocated_block_head s))"
    using i(2) ok_spans_mset by blast
  have ok1: "ok_spans (mem_size s) ((st, sz) # spans ?s1)"
  proof (cases "r = pre @ post")
    case True
    with h(3,4) ok0 show ?thesis
      by (auto simp: spans_def f_span_def)
  next
    case False
    with h(4) have r: "sz = need" "need < f_size c" "r = pre @ c\<lparr>f_start := f_start c + need, f_size := f_size c - need\<rparr> # post"
      by auto
    let ?rest = "map f_span (pre @ post) @ map a_span (allocated_block_head s)"
    have "mset (spans ?s1) = mset ((f_start c + need, f_size c - need) # ?rest)"
      by (simp add: spans_def r(3) f_span_def)
    then have "mset ((st, sz) # spans ?s1) = mset ((f_start c, need) # (f_start c + need, f_size c - need) # ?rest)"
      using r(1) h(3) by simp
    moreover have "ok_spans (mem_size s) ((f_start c, need) # (f_start c + need, f_size c - need) # ?rest)"
      using ok0 r(2) need by (intro ok_spans_split) (simp_all add: f_span_def [of c])
    ultimately show ?thesis using ok_spans_mset by blast
  qed
  have co: "coalesced r"
  proof (cases "r = pre @ post")
    case True
    then show ?thesis using i(3) h(1) by (auto simp: coalesced_def)
  next
    case False
    with h(4) have r: "need < f_size c" "r = pre @ c\<lparr>f_start := f_start c + need, f_size := f_size c - need\<rparr> # post"
      by auto
    have cc: "\<forall>a \<in> set (pre @ c # post). \<forall>b \<in> set (pre @ c # post). f_start a + f_size a \<noteq> f_start b"
      using i(3) h(1) by (simp add: coalesced_def)
    have "f_start a + f_size a \<noteq> f_start c + need" if "a \<in> set (pre @ post)" for a
    proof -
      have "apart (f_span c) (f_span a)" using ok0 that by (auto simp: ok_spans_Cons)
      moreover have "0 < f_size a" using ok_spans_free(2) [OF i(2), of a] that h(1) by auto
      ultimately show ?thesis using r(1) need by (auto simp: apart_def f_span_def)
    qed
    moreover have "f_start c + f_size c \<noteq> f_start b" if "b \<in> set (pre @ post)" for b
      using cc that by auto
    moreover have "0 < f_size c - need" using r(1) by simp
    ultimately show ?thesis unfolding r(2) coalesced_def using cc by auto
  qed
  have "mset (spans ?t) = mset (spans ?s1)" using rearrange_props(1) [OF i(5,6), of ?s1] by (simp add: spans_def)
  then have "mset ((st, sz) # spans ?t) = mset ((st, sz) # spans ?s1)" by simp
  then have ok: "ok_spans (mem_size s) ((st, sz) # spans ?t)" using ok1 ok_spans_mset by blast
  then have okt: "ok_spans (mem_size s) (spans ?t)" by (simp add: ok_spans_Cons)
  have "mem_inv ?t"
    using i okt co rearrange_props [OF i(5,6), of ?s1] by (simp add: mem_inv_def coalesced_def)
  moreover have "sum_free_memory ?t = sum_list (map f_size r)"
  proof -
    have "mset (map f_size (free_block ?t)) = mset (map f_size r)"
      using rearrange_props(1) [OF i(5,6), of ?s1] by simp
    then show ?thesis unfolding sum_free_memory_def by (metis sum_mset_sum_list)
  qed
  moreover have "sz + sum_list (map f_size r) = sum_free_memory s"
    using h by (auto simp: sum_free_memory_def)
  ultimately show ?thesis
    using ok h(2,4) by (auto simp: granted_def)
qed

section \<open>Compaction\<close>

definition used_memory :: "mem \<Rightarrow> int" where
  "used_memory s = sum_list (map a_size (allocated_block_head s))"

text \<open>What compaction keeps of a process: everything but the address.\<close>

definition a_ident :: "allocated_block \<Rightarrow> int \<times> int \<times> bytes" where
  "a_ident a = (a_pid a, a_size a, a_name a)"

lemma pack_props:
  assumes "pack n as = (bs, e)" and "\<forall>a \<in> set as. 0 < a_size a"
  shows "e = n + sum_list (map a_size as)" "map a_ident bs = map a_ident as"
    "\<forall>b \<in> set bs. n \<le> a_start b \<and> 0 < a_size b \<and> a_start b + a_size b \<le> e" "sorted_wrt apart (map a_span bs)" "n \<le> e"
proof -
  have "e = n + sum_list (map a_size as) \<and> map a_ident bs = map a_ident as \<and>
    (\<forall>b \<in> set bs. n \<le> a_start b \<and> 0 < a_size b \<and> a_start b + a_size b \<le> e) \<and> sorted_wrt apart (map a_span bs) \<and> n \<le> e"
    using assms
  proof (induction as arbitrary: n bs)
    case Nil
    then show ?case by simp
  next
    case (Cons a as)
    then obtain bs' where b: "pack (n + a_size a) as = (bs', e)" "bs = a\<lparr>a_start := n\<rparr> # bs'"
      by (auto split: prod.splits)
    have IH: "e = n + a_size a + sum_list (map a_size as)" "map a_ident bs' = map a_ident as"
      "\<forall>b \<in> set bs'. n + a_size a \<le> a_start b \<and> 0 < a_size b \<and> a_start b + a_size b \<le> e"
      "sorted_wrt apart (map a_span bs')" "n + a_size a \<le> e"
      using Cons.IH [OF b(1)] Cons.prems(2) by auto
    have p: "0 < a_size a" using Cons.prems(2) by simp
    then have "\<forall>x \<in> set (map a_span bs'). apart (n, a_size a) x"
      using IH(3) by (auto simp: apart_def a_span_def)
    then have "sorted_wrt apart (map a_span bs)" using IH(4) b(2) by (simp add: a_span_def [of "a\<lparr>a_start := n\<rparr>"])
    moreover have "map a_ident bs = map a_ident (a # as)" using IH(2) b(2) by (simp add: a_ident_def [of a] a_ident_def [of "a\<lparr>a_start := n\<rparr>"])
    moreover have "\<forall>x \<in> set bs. n \<le> a_start x \<and> 0 < a_size x \<and> a_start x + a_size x \<le> e"
      using IH(3,5) p b(2) by fastforce
    ultimately show ?case using IH(1,5) p by simp
  qed
  then show "e = n + sum_list (map a_size as)" "map a_ident bs = map a_ident as"
    "\<forall>b \<in> set bs. n \<le> a_start b \<and> 0 < a_size b \<and> a_start b + a_size b \<le> e" "sorted_wrt apart (map a_span bs)" "n \<le> e"
    by blast+
qed

lemma ok_spans_alloc:
  assumes "ok_spans m (spans s)" and "a \<in> set (allocated_block_head s)"
  shows "0 \<le> a_start a" "0 < a_size a" "a_start a + a_size a \<le> m"
proof -
  have "a_span a \<in> set (spans s)" using assms(2) by (simp add: spans_def)
  with assms(1) have "0 \<le> fst (a_span a) \<and> 0 < snd (a_span a) \<and> fst (a_span a) + snd (a_span a) \<le> m"
    by (simp add: ok_spans_def)
  then show "0 \<le> a_start a" "0 < a_size a" "a_start a + a_size a \<le> m" by (simp_all add: a_span_def)
qed

lemma memory_bound:
  assumes "mem_inv s"
  shows "sum_free_memory s + used_memory s \<le> mem_size s"
proof -
  note i = mem_invD [OF assms]
  have "sum_list (map snd (spans s)) \<le> mem_size s" using ok_spans_sum [OF i(2)] i(1) by simp
  moreover have "map snd (map f_span fs) = map f_size fs" "map snd (map a_span as) = map a_size as" for fs as
    by (simp_all add: f_span_def a_span_def comp_def)
  ultimately show ?thesis by (simp add: spans_def sum_free_memory_def used_memory_def del: map_map)
qed

text \<open>
  After compaction the processes lie one after the other from address 0 and what is left is one
  free block; only a failing \<open>malloc\<close> loses it.
\<close>

definition compacted :: "mem \<Rightarrow> mem \<Rightarrow> bool" where
  "compacted s t \<longleftrightarrow> mem_inv t \<and> mset (map a_ident (allocated_block_head t)) = mset (map a_ident (allocated_block_head s)) \<and>
     mem_size t = mem_size s \<and> ma_algorithm t = ma_algorithm s \<and> pid_seq t = pid_seq s \<and> min_slice t = min_slice s \<and>
     auto_compact t = auto_compact s \<and> lock_set_size t = lock_set_size s \<and> heap t = heap s \<and>
     (\<forall>a \<in> set (allocated_block_head t). a_start a + a_size a \<le> used_memory s)"

lemma used_memory_ident: "mset (map a_ident (allocated_block_head t)) = mset (map a_ident (allocated_block_head s)) \<Longrightarrow>
   used_memory t = used_memory s"
proof -
  assume m: "mset (map a_ident (allocated_block_head t)) = mset (map a_ident (allocated_block_head s))"
  have e: "map a_size as = map (fst \<circ> snd) (map a_ident as)" for as by (simp add: a_ident_def comp_def)
  have "mset (map a_size (allocated_block_head t)) = mset (map a_size (allocated_block_head s))"
    unfolding e using m by (metis mset_map)
  then show ?thesis unfolding used_memory_def by (metis sum_mset_sum_list)
qed

lemma compact_memory_ok:
  assumes inv: "mem_inv s" and c: "compact_memory s = (rc, t)"
  shows "compacted s t"
    and "rc = 1 \<and> (free_block t = (if mem_size s - used_memory s > 0
            then [\<lparr>f_size = mem_size s - used_memory s, f_start = used_memory s\<rparr>] else [])) \<or>
         rc = - 1 \<and> free_block t = [] \<and> \<not> heap s (heap_tick s)"
proof -
  note i = mem_invD [OF inv]
  let ?s1 = "sort_alloc_by_addr s"
  obtain bs e where p: "pack 0 (allocated_block_head ?s1) = (bs, e)" by fastforce
  have ms: "mset (allocated_block_head ?s1) = mset (allocated_block_head s)"
    by (simp add: sort_alloc_by_addr_def alloc_by_addr.sort_mset)
  have pos: "\<forall>a \<in> set (allocated_block_head ?s1). 0 < a_size a"
    using ok_spans_alloc(2) [OF i(2)] mset_eq_setD [OF ms] by simp
  note pp = pack_props [OF p pos]
  have e: "e = used_memory s" using pp(1) ms unfolding used_memory_def by (metis add_0 mset_map sum_mset_sum_list)
  have id: "mset (map a_ident bs) = mset (map a_ident (allocated_block_head s))"
    unfolding pp(2) using ms by (metis mset_map)
  have le: "e \<le> mem_size s"
  proof -
    have "0 \<le> sum_free_memory s" unfolding sum_free_memory_def
      using ok_spans_free(2) [OF i(2)] by (intro sum_list_nonneg) (auto simp: less_imp_le)
    with memory_bound [OF inv] e show ?thesis by simp
  qed
  have frame1: "mem_size ?s1 = mem_size s" "ma_algorithm ?s1 = ma_algorithm s" "pid_seq ?s1 = pid_seq s"
    "lock_set_size ?s1 = lock_set_size s" "min_slice ?s1 = min_slice s" "auto_compact ?s1 = auto_compact s"
    "heap ?s1 = heap s" "heap_tick ?s1 = heap_tick s"
    by (simp_all add: sort_alloc_by_addr_def)
  have pids: "map a_pid xs = map fst (map a_ident xs)" for xs by (simp add: a_ident_def comp_def)
  have mp: "mset (map a_pid bs) = mset (map a_pid (allocated_block_head s))"
    unfolding pids using id by (metis mset_map)
  have dist: "distinct (map a_pid bs)" using i(8) mp by (metis mset_eq_imp_distinct_iff)
  have pq: "\<forall>a \<in> set bs. a_pid a \<le> pid_seq s"
    using i(9) mset_eq_setD [OF mp] by (metis (mono_tags, lifting) image_eqI image_iff list.set_map)
  have emp: "bs = [] \<longleftrightarrow> allocated_block_head s = []"
    using id by (metis Nil_is_map_conv mset.simps(1) mset_zero_iff)
  have okb: "ok_spans (mem_size s) (map a_span bs)"
    using pp(3,4) le by (auto simp: ok_spans_def a_span_def)
  define u where "u = ?s1\<lparr>allocated_block_head := bs, free_block := []\<rparr>"
  have mk: "mem_inv x" if "free_block x = fs" "allocated_block_head x = bs" "mem_size x = mem_size s"
      "ma_algorithm x = ma_algorithm s" "pid_seq x = pid_seq s" "min_slice x = min_slice s" "lock_set_size x = lock_set_size s"
      "fs = [] \<or> fs = [\<lparr>f_size = mem_size s - e, f_start = e\<rparr>] \<and> 0 < mem_size s - e" for x fs
  proof -
    have "ok_spans (mem_size s) (map f_span fs @ map a_span bs)"
      using that(8) okb pp(3,5) le by (auto simp: f_span_def ok_spans_Cons apart_def a_span_def)
    moreover have "coalesced fs" "sorted_wrt (policy (ma_algorithm s)) fs" using that(8) by (auto simp: coalesced_def)
    ultimately show ?thesis using that i dist pq emp by (auto simp: mem_inv_def spans_def)
  qed
  have cp: "compacted s x" if "mem_inv x" "allocated_block_head x = bs" "mem_size x = mem_size s"
      "ma_algorithm x = ma_algorithm s" "pid_seq x = pid_seq s" "min_slice x = min_slice s" "lock_set_size x = lock_set_size s"
      "auto_compact x = auto_compact s" "heap x = heap s" for x
    using that id pp(3) e by (simp add: compacted_def)
  have one: "free_block (rearrange a (y\<lparr>free_block := [z]\<rparr>)) = [z]" for a y z
    by (simp add: rearrange_def sort_free_by_addr_def sort_free_by_size_asc_def sort_free_by_size_desc_def ll_sort_def ll_insert_def)
  have zero: "free_block (rearrange a u) = []" for a
    by (simp add: u_def rearrange_def sort_free_by_addr_def sort_free_by_size_asc_def sort_free_by_size_desc_def ll_sort_def)
  have u: "free_block u = []" "allocated_block_head u = bs" "mem_size u = mem_size s" "ma_algorithm u = ma_algorithm s"
    "pid_seq u = pid_seq s" "lock_set_size u = lock_set_size s" "min_slice u = min_slice s" "auto_compact u = auto_compact s"
    "heap u = heap s" "heap_tick u = heap_tick s"
    by (simp_all add: u_def frame1)
  have cm: "compact_memory s =
      (if mem_size s - e > 0 then
        if \<not> heap s (heap_tick s) then (- 1, u\<lparr>heap_tick := Suc (heap_tick s)\<rparr>)
        else (1, rearrange (ma_algorithm s) (u\<lparr>heap_tick := Suc (heap_tick s), free_block := [\<lparr>f_size = mem_size s - e, f_start = e\<rparr>]\<rparr>))
      else (1, rearrange (ma_algorithm s) u))"
    unfolding compact_memory_def Let_def p by (simp add: malloc_ok_def u u_def [symmetric] frame1)
  consider "\<not> 0 < mem_size s - e" | "0 < mem_size s - e" "\<not> heap s (heap_tick s)" | "0 < mem_size s - e" "heap s (heap_tick s)"
    by blast
  then have "compacted s t \<and> (rc = 1 \<and> (free_block t = (if mem_size s - e > 0
            then [\<lparr>f_size = mem_size s - e, f_start = e\<rparr>] else [])) \<or>
         rc = - 1 \<and> free_block t = [] \<and> \<not> heap s (heap_tick s))"
  proof cases
    case 1
    then have t: "rc = 1" "t = rearrange (ma_algorithm s) u" using c cm by auto
    have "mem_inv t" unfolding t(2) by (rule mk [of _ "[]"]) (simp_all add: u zero)
    then have "compacted s t" unfolding t(2) by (rule cp) (simp_all add: u)
    with 1 t show ?thesis by (simp add: zero)
  next
    case 2
    then have t: "rc = - 1" "t = u\<lparr>heap_tick := Suc (heap_tick s)\<rparr>" using c cm by auto
    have "mem_inv t" unfolding t(2) by (rule mk [of _ "[]"]) (simp_all add: u)
    then have "compacted s t" unfolding t(2) by (rule cp) (simp_all add: u)
    with 2 t show ?thesis by (simp add: u)
  next
    case 3
    let ?b = "\<lparr>f_size = mem_size s - e, f_start = e\<rparr>"
    let ?v = "u\<lparr>heap_tick := Suc (heap_tick s), free_block := [?b]\<rparr>"
    have t: "rc = 1" "t = rearrange (ma_algorithm s) ?v" using 3 c cm by auto
    have fb: "free_block t = [?b]" unfolding t(2) by (rule one)
    have "mem_inv t" by (rule mk [OF fb]) (use 3 in \<open>simp_all add: t(2) u\<close>)
    then have "compacted s t" by (rule cp) (simp_all add: t(2) u)
    with 3 t fb show ?thesis by simp
  qed
  then show "compacted s t" "rc = 1 \<and> (free_block t = (if mem_size s - used_memory s > 0
            then [\<lparr>f_size = mem_size s - used_memory s, f_start = used_memory s\<rparr>] else [])) \<or>
         rc = - 1 \<and> free_block t = [] \<and> \<not> heap s (heap_tick s)"
    unfolding e by blast+
qed

section \<open>What allocation returns\<close>

text \<open>
  The call always returns. It grants a piece when a block is large enough or compaction can
  make one; compaction only happens when it can, and then the second scan succeeds.
\<close>

definition fits :: "int \<Rightarrow> mem \<Rightarrow> bool" where
  "fits need s \<longleftrightarrow> (\<exists>b \<in> set (free_block s). need \<le> f_size b)"

lemma sum_free_single: "free_block t = [b] \<Longrightarrow> sum_free_memory t = f_size b"
  by (simp add: sum_free_memory_def)

lemma allocate_mem_ok:
  assumes inv: "mem_inv s" and need: "0 < need"
  obtains r t where "allocate_mem need s = Some (r, t)"
    "fits need s \<Longrightarrow> \<exists>g. r = Some g \<and> granted s need g t \<and> allocated_block_head t = allocated_block_head s"
    "\<not> fits need s \<Longrightarrow> auto_compact s \<and> sum_free_memory s \<ge> need \<Longrightarrow>
       (\<exists>g u. r = Some g \<and> compacted s u \<and> granted u need g t \<and> allocated_block_head t = allocated_block_head u) \<or>
       r = None \<and> compacted s t \<and> free_block t = [] \<and> \<not> heap s (heap_tick s)"
    "\<not> fits need s \<Longrightarrow> \<not> (auto_compact s \<and> sum_free_memory s \<ge> need) \<Longrightarrow> r = None \<and> t = s"
proof (cases "carve need (min_slice s) (free_block s)")
  case (Some x)
  obtain st sz q where x: "x = (st, sz, q)" by (cases x)
  let ?t = "rearrange (ma_algorithm s) (s\<lparr>free_block := q\<rparr>)"
  have c: "carve need (min_slice s) (free_block s) = Some (st, sz, q)" using Some x by simp
  then have "fits need s" using carve_None [of need "min_slice s" "free_block s"] by (force simp: fits_def)
  then show thesis
    using granted_carve [OF inv need c] c
    by (intro that [of "Some (st, sz)" ?t]) (auto simp: allocate_mem.simps [of need s])
next
  case None
  then have nf: "\<not> fits need s" using carve_None [of need "min_slice s" "free_block s"] by (force simp: fits_def)
  show thesis
  proof (cases "auto_compact s \<and> sum_free_memory s \<ge> need")
    case False
    with None nf show thesis
      by (intro that [of None s]) (auto simp: allocate_mem.simps [of need s])
  next
    case True
    obtain rc u where cu: "compact_memory s = (rc, u)" by fastforce
    note co = compact_memory_ok [OF inv cu]
    from co(2) show thesis
    proof
      assume "rc = - 1 \<and> free_block u = [] \<and> \<not> heap s (heap_tick s)"
      then show thesis
        using None nf True cu co(1) by (intro that [of None u]) (auto simp: allocate_mem.simps [of need s])
    next
      assume one: "rc = 1 \<and> (free_block u = (if mem_size s - used_memory s > 0
            then [\<lparr>f_size = mem_size s - used_memory s, f_start = used_memory s\<rparr>] else []))"
      have big: "need \<le> mem_size s - used_memory s" using memory_bound [OF inv] True by linarith
      then have fb: "free_block u = [\<lparr>f_size = mem_size s - used_memory s, f_start = used_memory s\<rparr>]"
        using one need by simp
      obtain st sz q where c: "carve need (min_slice u) (free_block u) = Some (st, sz, q)"
        using big by (cases "carve need (min_slice u) (free_block u)") (auto simp: fb carve_None simp del: carve.simps)
      have iu: "mem_inv u" using co(1) by (simp add: compacted_def)
      let ?t = "rearrange (ma_algorithm u) (u\<lparr>free_block := q\<rparr>)"
      have "allocate_mem need s = Some (Some (st, sz), ?t)"
        using None True cu one c by (simp add: allocate_mem.simps [of need s] allocate_mem.simps [of need u])
      then show thesis
        using nf True co(1) granted_carve [OF iu need c] by (intro that [of "Some (st, sz)" ?t]) auto
    qed
  qed
qed

lemma allocate_mem_inv:
  assumes "mem_inv s" and "0 < need" and "allocate_mem need s = Some (r, t)"
  shows "mem_inv t" "pid_seq t = pid_seq s" "mem_size t = mem_size s" "lock_set_size t = lock_set_size s"
    "mset (map a_ident (allocated_block_head t)) = mset (map a_ident (allocated_block_head s))"
    "case r of None \<Rightarrow> True | Some g \<Rightarrow> ok_spans (mem_size t) (g # spans t) \<and> need \<le> snd g"
proof -
  obtain r' t' where a: "allocate_mem need s = Some (r', t')"
    "fits need s \<Longrightarrow> \<exists>g. r' = Some g \<and> granted s need g t' \<and> allocated_block_head t' = allocated_block_head s"
    "\<not> fits need s \<Longrightarrow> auto_compact s \<and> sum_free_memory s \<ge> need \<Longrightarrow>
       (\<exists>g u. r' = Some g \<and> compacted s u \<and> granted u need g t' \<and> allocated_block_head t' = allocated_block_head u) \<or>
       r' = None \<and> compacted s t' \<and> free_block t' = [] \<and> \<not> heap s (heap_tick s)"
    "\<not> fits need s \<Longrightarrow> \<not> (auto_compact s \<and> sum_free_memory s \<ge> need) \<Longrightarrow> r' = None \<and> t' = s"
    by (rule allocate_mem_ok [OF assms(1,2)]) blast
  have "r' = r" "t' = t" using a(1) assms(3) by simp_all
  consider g where "r = Some g" "granted s need g t" "allocated_block_head t = allocated_block_head s"
    | g u where "r = Some g" "compacted s u" "granted u need g t" "allocated_block_head t = allocated_block_head u"
    | "r = None" "compacted s t" | "r = None" "t = s"
    using a(2-4) unfolding \<open>r' = r\<close> \<open>t' = t\<close> by blast
  then have "mem_inv t \<and> pid_seq t = pid_seq s \<and> mem_size t = mem_size s \<and> lock_set_size t = lock_set_size s \<and>
    mset (map a_ident (allocated_block_head t)) = mset (map a_ident (allocated_block_head s)) \<and>
    (case r of None \<Rightarrow> True | Some g \<Rightarrow> ok_spans (mem_size t) (g # spans t) \<and> need \<le> snd g)"
    using assms(1) by cases (auto simp: granted_def compacted_def)
  then show "mem_inv t" "pid_seq t = pid_seq s" "mem_size t = mem_size s" "lock_set_size t = lock_set_size s"
    "mset (map a_ident (allocated_block_head t)) = mset (map a_ident (allocated_block_head s))"
    "case r of None \<Rightarrow> True | Some g \<Rightarrow> ok_spans (mem_size t) (g # spans t) \<and> need \<le> snd g"
    by blast+
qed

section \<open>Coalescing\<close>

text \<open>The addresses that a list of free blocks covers.\<close>

definition cover :: "free_block_type list \<Rightarrow> int set" where
  "cover fs = (\<Union>b \<in> set fs. {f_start b..<f_start b + f_size b})"

definition before :: "free_block_type \<Rightarrow> free_block_type \<Rightarrow> bool" where
  "before a b \<longleftrightarrow> f_start a + f_size a \<le> f_start b"

definition gap :: "free_block_type \<Rightarrow> free_block_type \<Rightarrow> bool" where
  "gap a b \<longleftrightarrow> f_start a + f_size a < f_start b"

lemma merge_run_ok:
  assumes "sorted_wrt before fs" and "\<forall>b \<in> set fs. 0 < f_size b"
  shows "sorted_wrt gap (merge_run fs) \<and> (\<forall>b \<in> set (merge_run fs). 0 < f_size b) \<and> cover (merge_run fs) = cover fs \<and>
    sum_list (map f_size (merge_run fs)) = sum_list (map f_size fs) \<and>
    (fs \<noteq> [] \<longrightarrow> (\<forall>b \<in> set (merge_run fs). f_start (hd fs) \<le> f_start b))"
  using assms
proof (induction fs rule: merge_run.induct)
  case (1 a b r)
  have pos: "0 < f_size a" "0 < f_size b" using "1.prems"(2) by auto
  have ab: "f_start a + f_size a \<le> f_start b" using "1.prems"(1) by (simp add: before_def)
  show ?case
  proof (cases "f_start a + f_size a = f_start b")
    case True
    let ?m = "a\<lparr>f_size := f_size a + f_size b\<rparr>"
    have m: "sorted_wrt before (?m # r)" "\<forall>x \<in> set (?m # r). 0 < f_size x"
      using "1.prems" True pos by (auto simp: before_def [of "?m"] before_def [of b])
    have "cover (?m # r) = cover (a # b # r)" using True pos by (auto simp: cover_def)
    with "1.IH"(1) [OF True m] True show ?thesis by simp
  next
    case False
    with ab have g: "f_start a + f_size a < f_start b" by simp
    have "sorted_wrt before (b # r)" "\<forall>x \<in> set (b # r). 0 < f_size x" using "1.prems" by auto
    note IH = "1.IH"(2) [OF False this]
    have "\<forall>x \<in> set (merge_run (b # r)). gap a x" using IH g by (force simp: gap_def)
    with IH False pos g show ?thesis by (auto simp: cover_def)
  qed
qed (auto simp: cover_def)

lemma gap_coalesced:
  assumes "sorted_wrt gap fs" and "\<forall>b \<in> set fs. 0 < f_size b"
  shows "coalesced fs"
  using assms
proof (induction fs)
  case Nil
  then show ?case by (simp add: coalesced_def)
next
  case (Cons x xs)
  then have "coalesced xs" "0 < f_size x" "\<forall>y \<in> set xs. gap x y \<and> 0 < f_size y" by auto
  then show ?case by (fastforce simp: coalesced_def gap_def)
qed

lemma apart_cover:
  assumes "0 < snd x" and "\<forall>b \<in> set fs. 0 < f_size b"
  shows "(\<forall>b \<in> set fs. apart (f_span b) x) \<longleftrightarrow> {fst x..<fst x + snd x} \<inter> cover fs = {}"
proof
  assume "\<forall>b \<in> set fs. apart (f_span b) x"
  then show "{fst x..<fst x + snd x} \<inter> cover fs = {}" by (fastforce simp: cover_def apart_def f_span_def)
next
  assume d: "{fst x..<fst x + snd x} \<inter> cover fs = {}"
  show "\<forall>b \<in> set fs. apart (f_span b) x"
  proof
    fix b
    assume b: "b \<in> set fs"
    then have dis: "{fst x..<fst x + snd x} \<inter> {f_start b..<f_start b + f_size b} = {}" using d unfolding cover_def by blast
    have "max (fst x) (f_start b) \<notin> {fst x..<fst x + snd x} \<or>
        max (fst x) (f_start b) \<notin> {f_start b..<f_start b + f_size b}" using dis by blast
    moreover have "0 < snd x" "0 < f_size b" using assms b by auto
    ultimately show "apart (f_span b) x" by (simp add: apart_def f_span_def max_def split: if_splits)
  qed
qed


lemma sorted_before:
  assumes "ok_spans m (map f_span fs)" and "sorted_wrt addr_le fs"
  shows "sorted_wrt before fs"
  using assms
proof (induction fs)
  case Nil
  then show ?case by simp
next
  case (Cons x xs)
  have "before x y" if "y \<in> set xs" for y
  proof -
    have "apart (f_span x) (f_span y)" "0 < f_size y" "0 < f_size x" "f_start x \<le> f_start y"
      using Cons.prems that by (auto simp: ok_spans_def f_span_def addr_le_def)
    then show ?thesis by (auto simp: apart_def f_span_def before_def)
  qed
  with Cons show ?case by (simp add: ok_spans_Cons)
qed

text \<open>Merging a free list that is disjoint from other spans keeps it so, and coalesces it.\<close>

lemma merge_ok:
  assumes ok: "ok_spans m (map f_span fs @ rest)" and s: "sorted_wrt addr_le fs"
  shows "ok_spans m (map f_span (merge_run fs) @ rest)" "coalesced (merge_run fs)"
    "cover (merge_run fs) = cover fs" "sum_list (map f_size (merge_run fs)) = sum_list (map f_size fs)"
proof -
  have okf: "ok_spans m (map f_span fs)" and okr: "ok_spans m rest"
    and ap: "\<forall>b \<in> set fs. \<forall>x \<in> set rest. apart (f_span b) x"
    using ok by (auto simp: ok_spans_def sorted_wrt_append)
  have pos: "\<forall>b \<in> set fs. 0 < f_size b" using okf by (auto simp: ok_spans_def f_span_def)
  note g = merge_run_ok [OF sorted_before [OF okf s] pos]
  then show co: "coalesced (merge_run fs)" and cov: "cover (merge_run fs) = cover fs"
    and "sum_list (map f_size (merge_run fs)) = sum_list (map f_size fs)"
    using gap_coalesced by blast+
  have gs: "sorted_wrt gap (merge_run fs)" "\<forall>b \<in> set (merge_run fs). 0 < f_size b" using g by blast+
  have "sorted_wrt (\<lambda>a b. apart (f_span a) (f_span b)) (merge_run fs)"
    by (rule sorted_wrt_mono_rel [OF _ gs(1)]) (simp add: gap_def apart_def f_span_def)
  then have srt: "sorted_wrt apart (map f_span (merge_run fs))" by (simp add: sorted_wrt_map)
  have "0 \<le> f_start b \<and> f_start b + f_size b \<le> m" if "b \<in> set fs" for b
    using okf that by (simp add: ok_spans_def f_span_def)
  then have sub: "cover fs \<subseteq> {0..<m}" unfolding cover_def by fastforce
  have bnd: "0 \<le> f_start b \<and> f_start b + f_size b \<le> m" if b: "b \<in> set (merge_run fs)" for b
  proof -
    have "{f_start b..<f_start b + f_size b} \<subseteq> cover (merge_run fs)" using b unfolding cover_def by blast
    with sub cov have "{f_start b..<f_start b + f_size b} \<subseteq> {0..<m}" by blast
    then show ?thesis using gs(2) b by auto
  qed
  have ar: "\<forall>b \<in> set (merge_run fs). apart (f_span b) x" if x: "x \<in> set rest" for x
  proof -
    have p: "0 < snd x" using okr x by (simp add: ok_spans_def)
    have "\<forall>b \<in> set fs. apart (f_span b) x" using ap x by blast
    then show ?thesis using apart_cover [OF p pos] apart_cover [OF p gs(2)] cov by simp
  qed
  have "\<forall>a \<in> set (map f_span (merge_run fs)). 0 \<le> fst a \<and> 0 < snd a \<and> fst a + snd a \<le> m"
    using bnd gs(2) by (simp add: f_span_def)
  moreover have "sorted_wrt apart (map f_span (merge_run fs) @ rest)"
    unfolding sorted_wrt_append
  proof (intro conjI ballI)
    show "sorted_wrt apart rest" using okr by (simp add: ok_spans_def)
  qed (use srt ar in auto)
  ultimately show "ok_spans m (map f_span (merge_run fs) @ rest)"
    using okr by (simp add: ok_spans_def ball_Un)
qed

section \<open>Release\<close>

text \<open>Freeing the span of a block that is no longer allocated puts it back into the free memory.\<close>

lemma free_mem_ok:
  assumes f: "free_mem ab s = (rc, t)" and alg: "1 \<le> ma_algorithm s" "ma_algorithm s \<le> 3"
    and ok: "ok_spans m (a_span ab # map f_span (free_block s) @ rest)"
  shows "heap s (heap_tick s) \<Longrightarrow> rc = 1 \<and> ok_spans m (map f_span (free_block t) @ rest) \<and> coalesced (free_block t) \<and>
      sorted_wrt (policy (ma_algorithm s)) (free_block t) \<and>
      cover (free_block t) = cover (free_block s) \<union> {a_start ab..<a_start ab + a_size ab} \<and>
      sum_free_memory t = sum_free_memory s + a_size ab"
    "\<not> heap s (heap_tick s) \<Longrightarrow> rc = - 1 \<and> free_block t = free_block s"
    "allocated_block_head t = allocated_block_head s" "mem_size t = mem_size s" "ma_algorithm t = ma_algorithm s"
    "pid_seq t = pid_seq s" "min_slice t = min_slice s" "auto_compact t = auto_compact s"
    "lock_set_size t = lock_set_size s" "heap t = heap s"
proof -
  let ?n = "\<lparr>f_size = a_size ab, f_start = a_start ab\<rparr>"
  let ?s1 = "s\<lparr>heap_tick := Suc (heap_tick s)\<rparr>"
  let ?fs = "ll_sort addr_lt addr_le (ll_sort addr_lt addr_le (free_block s @ [?n]))"
  have ms: "mset ?fs = mset (?n # free_block s)" by (simp add: by_addr.sort_mset)
  have ne: "ll_sort addr_lt addr_le (free_block s @ [?n]) \<noteq> []"
    using by_addr.sort_mset [of "free_block s @ [?n]"] by auto
  have fm: "free_mem ab s =
     (if \<not> heap s (heap_tick s) then (- 1, ?s1)
      else (1, rearrange (ma_algorithm s) (?s1\<lparr>free_block := merge_run ?fs\<rparr>)))"
    using ne by (simp add: free_mem_def malloc_ok_def insert_free_tail_def merge_free_adjacent_def sort_free_by_addr_def Let_def)
  show "\<not> heap s (heap_tick s) \<Longrightarrow> rc = - 1 \<and> free_block t = free_block s"
    "allocated_block_head t = allocated_block_head s" "mem_size t = mem_size s" "ma_algorithm t = ma_algorithm s"
    "pid_seq t = pid_seq s" "min_slice t = min_slice s" "auto_compact t = auto_compact s"
    "lock_set_size t = lock_set_size s" "heap t = heap s"
    using f unfolding fm by (auto split: if_splits)
  assume h: "heap s (heap_tick s)"
  let ?u = "?s1\<lparr>free_block := merge_run ?fs\<rparr>"
  have t: "rc = 1" "t = rearrange (ma_algorithm s) ?u" using f h unfolding fm by auto
  have span: "f_span ?n = a_span ab" by (simp add: f_span_def a_span_def)
  have "mset (map f_span ?fs @ rest) = mset (a_span ab # map f_span (free_block s) @ rest)"
    using ms span by (metis (no_types, lifting) Cons_eq_appendI list.simps(9) mset_append mset_map)
  with ok have "ok_spans m (map f_span ?fs @ rest)" using ok_spans_mset by blast
  note mg = merge_ok [OF this by_addr.sort_sorted]
  note r = rearrange_props [OF alg, of ?u]
  have "mset (map f_span (free_block t) @ rest) = mset (map f_span (merge_run ?fs) @ rest)"
    using r(1) t(2) by simp
  then have "ok_spans m (map f_span (free_block t) @ rest)" using mg(1) ok_spans_mset by blast
  moreover have "coalesced (free_block t)" using mg(2) r(2) t(2) by (simp add: coalesced_def)
  moreover have "sorted_wrt (policy (ma_algorithm s)) (free_block t)" using r(3) t(2) by simp
  moreover have "cover (free_block t) = cover ?fs" using mg(3) r(2) t(2) by (simp add: cover_def)
  moreover have "cover ?fs = cover (free_block s) \<union> {a_start ab..<a_start ab + a_size ab}"
    using mset_eq_setD [OF ms] by (auto simp: cover_def)
  moreover have "mset (free_block t) = mset (merge_run ?fs)" using r(1) t(2) by simp
  then have "sum_free_memory t = sum_list (map f_size (merge_run ?fs))"
    unfolding sum_free_memory_def by (rule sum_map_mset)
  moreover have "sum_list (map f_size ?fs) = sum_list (map f_size (?n # free_block s))"
    by (rule sum_map_mset [OF ms])
  ultimately show "rc = 1 \<and> ok_spans m (map f_span (free_block t) @ rest) \<and> coalesced (free_block t) \<and>
      sorted_wrt (policy (ma_algorithm s)) (free_block t) \<and>
      cover (free_block t) = cover (free_block s) \<union> {a_start ab..<a_start ab + a_size ab} \<and>
      sum_free_memory t = sum_free_memory s + a_size ab"
    using t(1) mg(4) by (simp add: sum_free_memory_def)
qed


section \<open>The invariant is kept\<close>

lemma find_Some_mem: "find_process pid s = Some k \<Longrightarrow> k < length (allocated_block_head s) \<and> a_pid (allocated_block_head s ! k) = pid"
  by (auto simp: find_process_def find_Some_iff)

lemma find_None_mem: "find_process pid s = None \<longleftrightarrow> (\<forall>a \<in> set (allocated_block_head s). a_pid a \<noteq> pid)"
  by (force simp: find_process_def find_None_iff in_set_conv_nth)

lemma dispose_mset:
  "k < length (allocated_block_head s) \<Longrightarrow>
   mset (allocated_block_head s) = add_mset (allocated_block_head s ! k) (mset (allocated_block_head (dispose k s)))"
  by (subst id_take_nth_drop [of k "allocated_block_head s"]) (simp_all add: dispose_def)

lemma dispose_frame [simp]:
  "free_block (dispose k s) = free_block s" "mem_size (dispose k s) = mem_size s" "ma_algorithm (dispose k s) = ma_algorithm s"
  "pid_seq (dispose k s) = pid_seq s" "min_slice (dispose k s) = min_slice s" "auto_compact (dispose k s) = auto_compact s"
  "heap (dispose k s) = heap s" "lock_set_size (dispose k s) = lock_set_size s"
  by (simp_all add: dispose_def)

text \<open>
  Killing a process releases exactly its span when \<open>malloc\<close> succeeds; when it fails the process
  is still disposed of and its memory is lost. An unknown pid changes nothing.
\<close>

lemma kill_process_ok:
  assumes inv: "mem_inv s"
  shows "mem_inv (kill_process input s)"
    and "\<lbrakk>input = Some (a_pid a); a \<in> set (allocated_block_head s); heap s (heap_tick s)\<rbrakk> \<Longrightarrow>
      mset (allocated_block_head s) = add_mset a (mset (allocated_block_head (kill_process input s))) \<and>
      cover (free_block (kill_process input s)) = cover (free_block s) \<union> {a_start a..<a_start a + a_size a} \<and>
      sum_free_memory (kill_process input s) = sum_free_memory s + a_size a"
proof -
  note i = mem_invD [OF inv]
  have main: "mem_inv (kill_process (Some pid) s) \<and> (heap s (heap_tick s) \<longrightarrow>
      mset (allocated_block_head s) =
        add_mset (allocated_block_head s ! k) (mset (allocated_block_head (kill_process (Some pid) s))) \<and>
      cover (free_block (kill_process (Some pid) s)) =
        cover (free_block s) \<union> {a_start (allocated_block_head s ! k)..<a_start (allocated_block_head s ! k) + a_size (allocated_block_head s ! k)} \<and>
      sum_free_memory (kill_process (Some pid) s) = sum_free_memory s + a_size (allocated_block_head s ! k))"
    if fnd: "find_process pid s = Some k" for pid k
  proof -
    let ?a = "allocated_block_head s ! k"
    obtain rc t where f: "free_mem ?a s = (rc, t)" by fastforce
    have k: "k < length (allocated_block_head s)" using find_Some_mem [OF fnd] by blast
    let ?as = "allocated_block_head (dispose k s)"
    let ?rest = "map a_span ?as"
    have ms: "mset (allocated_block_head s) = add_mset ?a (mset ?as)" by (rule dispose_mset [OF k])
    then have "mset (spans s) = mset (a_span ?a # map f_span (free_block s) @ ?rest)" by (simp add: spans_def)
    with i(2) have ok: "ok_spans (mem_size s) (a_span ?a # map f_span (free_block s) @ ?rest)" using ok_spans_mset by blast
    note fm = free_mem_ok [OF f i(5,6) ok]
    have st: "allocated_block_head (dispose k t) = ?as" using fm(3) by (simp add: dispose_def)
    have kp: "kill_process (Some pid) s = (dispose k t)\<lparr>lock_set_size := True\<rparr>"
      using fnd f by (simp add: kill_process_def)
    have "ok_spans (mem_size s) (map f_span (free_block t) @ ?rest) \<and> coalesced (free_block t) \<and>
        sorted_wrt (policy (ma_algorithm s)) (free_block t)"
      using fm(1,2) ok i(3,4) by (cases "heap s (heap_tick s)") (auto simp: ok_spans_Cons)
    moreover have "distinct (map a_pid ?as) \<and> (\<forall>a \<in> set ?as. a_pid a \<le> pid_seq s)"
    proof -
      have "mset (map a_pid (allocated_block_head s)) = mset (a_pid ?a # map a_pid ?as)" using ms by simp
      then have "distinct (a_pid ?a # map a_pid ?as)" using i(8) mset_eq_imp_distinct_iff by blast
      moreover have "set (allocated_block_head s) = insert ?a (set ?as)" using ms by (metis set_mset_add_mset_insert set_mset_mset)
      ultimately show ?thesis using i(9) by simp
    qed
    ultimately have "mem_inv (kill_process (Some pid) s)"
      using i st fm(4-10) unfolding kp by (simp add: mem_inv_def spans_def)
    then show ?thesis using fm(1) ms st by (simp add: kp sum_free_memory_def)
  qed
  show "mem_inv (kill_process input s)"
  proof (cases input)
    case None
    then show ?thesis using inv by (simp add: kill_process_def)
  next
    case (Some pid)
    then show ?thesis using inv main [of pid] by (cases "find_process pid s") (auto simp: kill_process_def)
  qed
  assume a: "input = Some (a_pid a)" "a \<in> set (allocated_block_head s)" "heap s (heap_tick s)"
  then have "find_process (a_pid a) s \<noteq> None" by (auto simp: find_None_mem)
  then obtain k where k: "find_process (a_pid a) s = Some k" by blast
  have "allocated_block_head s ! k = a"
  proof -
    have k': "k < length (allocated_block_head s)" "a_pid (allocated_block_head s ! k) = a_pid a"
      using find_Some_mem [OF k] by auto
    obtain j where j: "j < length (allocated_block_head s)" "allocated_block_head s ! j = a" using a(2) by (auto simp: in_set_conv_nth)
    then have "map a_pid (allocated_block_head s) ! k = map a_pid (allocated_block_head s) ! j" using k' by simp
    then have "k = j" using nth_eq_iff_index_eq [OF i(8), of k j] j(1) k'(1) by simp
    then show ?thesis using j(2) by simp
  qed
  with main [OF k] a show "mset (allocated_block_head s) = add_mset a (mset (allocated_block_head (kill_process input s))) \<and>
      cover (free_block (kill_process input s)) = cover (free_block s) \<union> {a_start a..<a_start a + a_size a} \<and>
      sum_free_memory (kill_process input s) = sum_free_memory s + a_size a" by simp
qed


text \<open>
  A new process gets the next pid, a name, and a span of at least the size asked for that no other
  process and no free block overlaps.
\<close>

lemma new_process_ok:
  assumes inv: "mem_inv s"
  obtains rc t where "new_process input s = Some (rc, t)" "mem_inv t" "mem_size t = mem_size s"
    "rc \<noteq> 1 \<Longrightarrow> rc = - 1 \<and> mset (map a_ident (allocated_block_head t)) = mset (map a_ident (allocated_block_head s))"
    "rc = 1 \<Longrightarrow> \<exists>n a. input = Some n \<and> 0 < n \<and> n \<le> a_size a \<and> a_pid a = pid_seq s + 1 \<and> pid_seq t = pid_seq s + 1 \<and>
        a_name a = process_name (a_pid a) \<and> a \<in> set (allocated_block_head t) \<and>
        mset (map a_ident (allocated_block_head t)) = add_mset (a_ident a) (mset (map a_ident (allocated_block_head s)))"
proof -
  note i = mem_invD [OF inv]
  let ?s1 = "s\<lparr>heap_tick := Suc (heap_tick s)\<rparr>"
  define s2 where "s2 = ?s1\<lparr>pid_seq := pid_seq ?s1 + 1\<rparr>"
  have inv2: "mem_inv s2" "mem_inv (s\<lparr>heap_tick := Suc (heap_tick s)\<rparr>)"
    using i by (auto simp: mem_inv_def spans_def s2_def dest: bspec)
  have s2: "allocated_block_head s2 = allocated_block_head s" "mem_size s2 = mem_size s" "pid_seq s2 = pid_seq s + 1"
    by (simp_all add: s2_def)
  have np: "new_process input s =
     (if \<not> heap s (heap_tick s) then Some (- 1, s\<lparr>heap_tick := Suc (heap_tick s)\<rparr>)
      else case input of
          None \<Rightarrow> Some (- 1, s2)
        | Some n \<Rightarrow>
            if n \<le> 0 then Some (- 1, s2)
            else do {
              (r, s3) \<leftarrow> allocate_mem n s2;
              case r of
                None \<Rightarrow> Some (- 1, s3)
              | Some (st, sz) \<Rightarrow>
                  Some (1, s3\<lparr>allocated_block_head :=
                      \<lparr>a_pid = pid_seq s2, a_size = sz, a_start = st, a_name = process_name (pid_seq s2)\<rparr> # allocated_block_head s3,
                    lock_set_size := True\<rparr>) })"
    unfolding new_process_def malloc_ok_def s2_def Let_def by simp
  consider "\<not> heap s (heap_tick s)" | "heap s (heap_tick s)" "input = None \<or> (\<exists>n. input = Some n \<and> n \<le> 0)"
    | n where "heap s (heap_tick s)" "input = Some n" "0 < n"
    by (cases input) force+
  then show thesis
  proof cases
    case 1
    then show thesis using inv2(2) by (intro that [of "- 1" "s\<lparr>heap_tick := Suc (heap_tick s)\<rparr>"]) (simp_all add: np)
  next
    case 2
    then show thesis using inv2(1) by (intro that [of "- 1" s2]) (auto simp: np s2)
  next
    case 3
    obtain r t where a: "allocate_mem n s2 = Some (r, t)" by (rule allocate_mem_ok [OF inv2(1) 3(3)]) blast
    note ai = allocate_mem_inv [OF inv2(1) 3(3) a, unfolded s2]
    show thesis
    proof (cases r)
      case None
      have run: "new_process input s = Some (- 1, t)" unfolding np using 3 a None by simp
      show thesis using ai by (intro that [OF run]) simp_all
    next
      case (Some g)
      obtain st sz where g: "g = (st, sz)" by (cases g)
      let ?a = "\<lparr>a_pid = pid_seq s + 1, a_size = sz, a_start = st, a_name = process_name (pid_seq s + 1)\<rparr>"
      let ?t = "t\<lparr>allocated_block_head := ?a # allocated_block_head t, lock_set_size := True\<rparr>"
      have run: "new_process input s = Some (1, ?t)" unfolding np using 3 a Some g by (simp add: s2(3))
      have ok: "ok_spans (mem_size t) ((st, sz) # spans t)" "n \<le> sz" using ai(6) Some g by auto
      have pids: "set (map a_pid (allocated_block_head t)) = set (map a_pid (allocated_block_head s))"
      proof -
        have e: "map a_pid as = map fst (map a_ident as)" for as by (simp add: a_ident_def comp_def)
        show ?thesis unfolding e using mset_eq_setD [OF ai(5)] by (metis list.set_map)
      qed
      have lt: "\<forall>x \<in> set (allocated_block_head t). a_pid x \<le> pid_seq s"
      proof
        fix x
        assume "x \<in> set (allocated_block_head t)"
        then have "a_pid x \<in> set (map a_pid (allocated_block_head s))" using pids by (metis image_eqI list.set_map)
        then show "a_pid x \<le> pid_seq s" using i(9) by auto
      qed
      have "mset (spans ?t) = mset ((st, sz) # spans t)" by (simp add: spans_def a_span_def [of ?a])
      then have "ok_spans (mem_size t) (spans ?t)" using ok(1) ok_spans_mset by blast
      then have "mem_inv ?t"
        using mem_invD [OF ai(1)] lt ai(2) by (auto simp: mem_inv_def)
      then show thesis
        using run ai(2,3,5) 3 ok(2)
        by (intro that [of 1 ?t]) (auto intro!: exI [of _ ?a] simp: a_ident_def [of ?a])
    qed
  qed
qed

lemma set_mem_size_ok:
  assumes inv: "mem_inv s"
  shows "mem_inv (snd (set_mem_size input s))"
    "fst (set_mem_size input s) = 1 \<longleftrightarrow> \<not> lock_set_size s \<and> (\<exists>n. input = Some n \<and> 0 < n)"
    "fst (set_mem_size input s) = 1 \<Longrightarrow> input = Some (mem_size (snd (set_mem_size input s)))"
proof -
  note i = mem_invD [OF inv]
  have single: "mem_inv (s\<lparr>mem_size := n, free_block := [\<lparr>f_size = n, f_start = 0\<rparr>]\<rparr>)"
    "mem_inv (s\<lparr>mem_size := n, heap_tick := k, free_block := [\<lparr>f_size = n, f_start = 0\<rparr>]\<rparr>)"
    "mem_inv (s\<lparr>mem_size := n, heap_tick := k, free_block := []\<rparr>)"
    if "0 < n" "\<not> lock_set_size s" for n k
    using that i by (auto simp: mem_inv_def spans_def ok_spans_def f_span_def coalesced_def)
  show "mem_inv (snd (set_mem_size input s))"
    using inv single by (auto simp: set_mem_size_def init_free_block_def malloc_ok_def Let_def split: option.splits)
  show "fst (set_mem_size input s) = 1 \<longleftrightarrow> \<not> lock_set_size s \<and> (\<exists>n. input = Some n \<and> 0 < n)"
    "fst (set_mem_size input s) = 1 \<Longrightarrow> input = Some (mem_size (snd (set_mem_size input s)))"
    by (auto simp: set_mem_size_def init_free_block_def malloc_ok_def Let_def split: option.splits prod.splits if_splits)
qed

lemma settings_inv:
  assumes inv: "mem_inv s"
  shows "mem_inv (set_algorithm input s)" "mem_inv (set_min_slice input s)" "mem_inv (toggle_auto_compact s)"
proof -
  note i = mem_invD [OF inv]
  have "mem_inv ((rearrange alg (s\<lparr>ma_algorithm := alg\<rparr>))\<lparr>lock_set_size := True\<rparr>)" if "1 \<le> alg" "alg \<le> 3" for alg
  proof -
    have "rearrange alg (s\<lparr>ma_algorithm := alg\<rparr>) = (rearrange alg s)\<lparr>ma_algorithm := alg\<rparr>"
      by (simp add: rearrange_def sort_free_by_addr_def sort_free_by_size_asc_def sort_free_by_size_desc_def)
    then show ?thesis using mem_inv_rearrange [OF inv that] by (simp add: mem_inv_def spans_def)
  qed
  then show "mem_inv (set_algorithm input s)" using inv by (auto simp: set_algorithm_def split: option.splits)
  show "mem_inv (set_min_slice input s)" "mem_inv (toggle_auto_compact s)"
    using i by (auto simp: set_min_slice_def toggle_auto_compact_def mem_inv_def spans_def split: option.splits)
qed

lemma boot_mem_inv: "mem_inv (boot_mem h)"
  by (auto simp: boot_mem_def init_free_block_def malloc_ok_def mem_inv_def spans_def ok_spans_def f_span_def coalesced_def Let_def)

lemma menu_inv: "mem_inv s \<Longrightarrow> \<exists>t. menu c i s = Some t \<and> mem_inv t"
  using set_mem_size_ok(1) [of s i] settings_inv [of s] kill_process_ok(1) [of s i]
  by (auto simp: menu_def intro: new_process_ok [of s i])

lemma do_exit_inv: "mem_inv s \<Longrightarrow> mem_inv (do_exit s)"
  by (simp add: mem_inv_def do_exit_def spans_def ok_spans_def coalesced_def)

lemma session_inv: "mem_inv s \<Longrightarrow> \<exists>t. session cs s = Some t \<and> mem_inv t"
proof (induction cs s rule: session.induct)
  case (2 c i cs s)
  then show ?case using menu_inv [of s c i] do_exit_inv [of s] by (auto simp del: One_nat_def)
qed simp


section \<open>Which block is taken\<close>

text \<open>
  The first block that is large enough in the policy's order: the lowest under first fit, a
  smallest fitting one under best fit, a largest block under worst fit.
\<close>

definition picks :: "int \<Rightarrow> int \<Rightarrow> free_block_type list \<Rightarrow> int \<Rightarrow> bool" where
  "picks alg need fs st \<longleftrightarrow>
     (\<exists>c \<in> set fs. need \<le> f_size c \<and> st = f_start c \<and>
        (\<forall>b \<in> set fs. need \<le> f_size b \<longrightarrow>
           (if alg = MA_FF then f_start c \<le> f_start b
            else if alg = MA_BF then f_size c \<le> f_size b
            else f_size b \<le> f_size c)))"

lemma carve_picks:
  assumes c: "carve need thr fs = Some (st, sz, r)" and s: "sorted_wrt (policy alg) fs" and alg: "1 \<le> alg" "alg \<le> 3"
  shows "picks alg need fs st"
proof -
  obtain pre c post where h: "fs = pre @ c # post" "\<forall>x \<in> set pre. f_size x < need" "need \<le> f_size c" "st = f_start c"
    using carve_Some [OF c] unfolding carved_def by blast
  have post: "\<forall>b \<in> set post. policy alg c b" using s h(1) by (simp add: sorted_wrt_append)
  have "if alg = MA_FF then f_start c \<le> f_start b else if alg = MA_BF then f_size c \<le> f_size b else f_size b \<le> f_size c"
    if "b \<in> set fs" "need \<le> f_size b" for b
  proof -
    have "b = c \<or> b \<in> set post" using that h(1,2) by force
    then consider "b = c" | "policy alg c b" using post by blast
    then show ?thesis using alg by cases (auto simp: policy_def addr_le_def asc_le_def desc_le_def)
  qed
  then show ?thesis using h by (auto simp: picks_def)
qed

text \<open>With compaction on and a heap that delivers, a request fails only when the memory is really full.\<close>

lemma allocate_mem_iff:
  assumes inv: "mem_inv s" and need: "0 < need" and h: "auto_compact s" "heap s (heap_tick s)"
  shows "\<exists>r t. allocate_mem need s = Some (r, t) \<and> (r \<noteq> None \<longleftrightarrow> need \<le> sum_free_memory s)"
proof -
  obtain r' t' where o: "allocate_mem need s = Some (r', t')"
    "fits need s \<Longrightarrow> \<exists>g. r' = Some g \<and> granted s need g t' \<and> allocated_block_head t' = allocated_block_head s"
    "\<not> fits need s \<Longrightarrow> auto_compact s \<and> sum_free_memory s \<ge> need \<Longrightarrow>
       (\<exists>g u. r' = Some g \<and> compacted s u \<and> granted u need g t' \<and> allocated_block_head t' = allocated_block_head u) \<or>
       r' = None \<and> compacted s t' \<and> free_block t' = [] \<and> \<not> heap s (heap_tick s)"
    "\<not> fits need s \<Longrightarrow> \<not> (auto_compact s \<and> sum_free_memory s \<ge> need) \<Longrightarrow> r' = None \<and> t' = s"
    by (rule allocate_mem_ok [OF inv need]) blast
  have "need \<le> sum_free_memory s" if f: "fits need s"
  proof -
    obtain b where b: "b \<in> set (free_block s)" "need \<le> f_size b" using f by (auto simp: fits_def)
    have "\<forall>x \<in> set (map f_size (free_block s)). 0 \<le> x"
      using ok_spans_free(2) [OF mem_invD(2) [OF inv]] by (auto simp: less_imp_le)
    then have "f_size b \<le> sum_free_memory s"
      unfolding sum_free_memory_def using b(1) by (metis image_eqI list.set_map member_le_sum_list)
    then show ?thesis using b(2) by simp
  qed
  then have "r' \<noteq> None \<longleftrightarrow> need \<le> sum_free_memory s"
    using o(2-4) h by (cases "fits need s"; cases "sum_free_memory s \<ge> need") auto
  with o(1) show ?thesis by blast
qed

end
