(* ===== verification/Memsim_Props.thy ===== *)
theory Memsim_Props
  imports Memsim
begin

text \<open>
  The properties of the memory simulator, with witnesses on the state it boots in and on the state
  after two processes were created and the first was killed.
\<close>

section \<open>A concrete run\<close>

definition all_ok :: "nat \<Rightarrow> bool" where
  "all_ok _ = True"

lemma demo_session:
  "session [(Some 3, Some 100), (Some 3, Some 200), (Some 4, Some 1)] (boot_mem all_ok) =
     Some \<lparr>free_block = [\<lparr>f_size = 100, f_start = 0\<rparr>, \<lparr>f_size = 724, f_start = 300\<rparr>],
       allocated_block_head = [\<lparr>a_pid = 2, a_size = 200, a_start = 100, a_name = process_name 2\<rparr>],
       mem_size = 1024, ma_algorithm = 1, pid_seq = 2, lock_set_size = True, min_slice = 10, auto_compact = True,
       heap = all_ok, heap_tick = 4\<rparr>"
  by (simp add: menu_def new_process_def boot_mem_def init_free_block_def malloc_ok_def all_ok_def allocate_mem.simps Let_def
      rearrange_def sort_free_by_addr_def ll_sort_def ll_insert_def addr_lt_def addr_le_def kill_process_def find_process_def
      free_mem_def insert_free_tail_def merge_free_adjacent_def dispose_def upt_rec numeral_eq_Suc)


definition demo_mem :: mem where
  "demo_mem = \<lparr>free_block = [\<lparr>f_size = 100, f_start = 0\<rparr>, \<lparr>f_size = 724, f_start = 300\<rparr>],
     allocated_block_head = [\<lparr>a_pid = 2, a_size = 200, a_start = 100, a_name = process_name 2\<rparr>],
     mem_size = 1024, ma_algorithm = 1, pid_seq = 2, lock_set_size = True, min_slice = 10, auto_compact = True,
     heap = all_ok, heap_tick = 4\<rparr>"

lemma demo_mem_inv: "mem_inv demo_mem"
  using session_inv [OF boot_mem_inv, of "[(Some 3, Some 100), (Some 3, Some 200), (Some 4, Some 1)]" all_ok]
  unfolding demo_session demo_mem_def [symmetric] by simp

section \<open>Properties\<close>

text \<open>C14: Whatever is typed at the menu and however \<open>malloc\<close> answers, the simulator answers every
  command and its state stays consistent: free and allocated blocks are disjoint, lie in the memory
  and together do not exceed it, the free list is coalesced and in the order of the algorithm, and
  pids are distinct.\<close>
theorem session_consistent:
  "\<exists>t. session cs (boot_mem h) = Some t \<and> mem_inv t \<and> sum_free_memory t + used_memory t \<le> mem_size t"
  using session_inv [OF boot_mem_inv, of cs h] memory_bound by blast

text \<open>C15: Every request of a positive size returns. It is granted a piece of at least its size that
  overlaps nothing else, at most \<open>MIN_SLICE\<close> - 1 more than asked, without touching the processes, when a
  single block is large enough. When none is but the total is and compaction is on, it is granted after
  one compaction; or \<open>malloc\<close> fails in the compaction, and the request is refused with the
  processes moved together and the free list lost. Otherwise it is refused and nothing changes.\<close>
theorem request_outcome:
  assumes "mem_inv s" and "0 < need"
  shows "\<exists>r t. allocate_mem need s = Some (r, t) \<and>
    (if fits need s then \<exists>g. r = Some g \<and> granted s need g t \<and> allocated_block_head t = allocated_block_head s
     else if auto_compact s \<and> sum_free_memory s \<ge> need
      then (\<exists>g u. r = Some g \<and> compacted s u \<and> granted u need g t \<and> allocated_block_head t = allocated_block_head u) \<or>
        r = None \<and> compacted s t \<and> free_block t = [] \<and> \<not> heap s (heap_tick s)
     else r = None \<and> t = s)"
proof -
  obtain r t where o: "allocate_mem need s = Some (r, t)"
    "fits need s \<Longrightarrow> \<exists>g. r = Some g \<and> granted s need g t \<and> allocated_block_head t = allocated_block_head s"
    "\<not> fits need s \<Longrightarrow> auto_compact s \<and> sum_free_memory s \<ge> need \<Longrightarrow>
       (\<exists>g u. r = Some g \<and> compacted s u \<and> granted u need g t \<and> allocated_block_head t = allocated_block_head u) \<or>
       r = None \<and> compacted s t \<and> free_block t = [] \<and> \<not> heap s (heap_tick s)"
    "\<not> fits need s \<Longrightarrow> \<not> (auto_compact s \<and> sum_free_memory s \<ge> need) \<Longrightarrow> r = None \<and> t = s"
    by (rule allocate_mem_ok [OF assms]) blast
  show ?thesis by (rule exI [of _ r], rule exI [of _ t]) (use o in \<open>simp only: if_split simp_thms\<close>, blast)
qed

lemma request_outcome_witness:
  "\<exists>g u t. allocate_mem 800 demo_mem = Some (Some g, t) \<and> compacted demo_mem u \<and> granted u 800 g t"
proof -
  have "\<not> fits 800 demo_mem" "auto_compact demo_mem" "sum_free_memory demo_mem \<ge> 800" "heap demo_mem (heap_tick demo_mem)"
    by (simp_all add: demo_mem_def fits_def sum_free_memory_def all_ok_def)
  with request_outcome [OF demo_mem_inv, of 800] show ?thesis by auto
qed

text \<open>C16: Placement. Among the blocks that are large enough, first fit takes the one with the lowest
  address, best fit one of the smallest, worst fit one of the largest.\<close>
theorem placement_policy:
  assumes "mem_inv s" and "0 < need" and "fits need s" and "allocate_mem need s = Some (Some (st, sz), t)"
  shows "picks (ma_algorithm s) need (free_block s) st"
proof -
  obtain st' sz' q where c: "carve need (min_slice s) (free_block s) = Some (st', sz', q)"
    using assms(3) carve_None [of need "min_slice s" "free_block s"]
    by (cases "carve need (min_slice s) (free_block s)") (force simp: fits_def)+
  then have "st' = st" using assms(4) by (simp add: allocate_mem.simps [of need s])
  then show ?thesis
    using carve_picks [OF c mem_invD(4-6) [OF assms(1)]] by simp
qed

lemma placement_policy_witness: "picks 1 50 (free_block demo_mem) 0"
proof -
  have "allocate_mem 50 demo_mem = Some (Some (0, 50), demo_mem\<lparr>free_block := [\<lparr>f_size = 50, f_start = 50\<rparr>, \<lparr>f_size = 724, f_start = 300\<rparr>]\<rparr>)"
    by (simp add: allocate_mem.simps demo_mem_def rearrange_def sort_free_by_addr_def ll_sort_def ll_insert_def addr_lt_def addr_le_def Let_def)
  moreover have "fits 50 demo_mem" "ma_algorithm demo_mem = 1" by (simp_all add: fits_def demo_mem_def)
  ultimately show ?thesis using placement_policy [OF demo_mem_inv, of 50] by force
qed

text \<open>C17: With automatic compaction and a heap that delivers, every request of a positive size returns, and
  it is granted exactly when it does not exceed the total free memory, however scattered that is:
  fragmentation never makes a request fail, nor compaction repeat without end.\<close>
theorem request_succeeds_iff:
  assumes "mem_inv s" and "0 < need" and "auto_compact s" and "heap s (heap_tick s)"
  shows "\<exists>r t. allocate_mem need s = Some (r, t) \<and> (r \<noteq> None \<longleftrightarrow> need \<le> sum_free_memory s)"
  by (rule allocate_mem_iff [OF assms])

lemma request_succeeds_iff_witness:
  "(\<exists>r t. allocate_mem 824 demo_mem = Some (r, t) \<and> r \<noteq> None) \<and> (\<exists>t. allocate_mem 825 demo_mem = Some (None, t))"
proof -
  have "auto_compact demo_mem" "heap demo_mem (heap_tick demo_mem)" "sum_free_memory demo_mem = 824"
    by (simp_all add: demo_mem_def sum_free_memory_def all_ok_def)
  with request_succeeds_iff [OF demo_mem_inv, of 824] request_succeeds_iff [OF demo_mem_inv, of 825] show ?thesis by (auto simp del: not_None_eq)
qed

text \<open>C18: Killing a process removes it and no other, and the addresses that are free afterwards are
  those that were free and those it occupied; an unknown pid or an unreadable input changes
  nothing. When \<open>malloc\<close> fails the process is gone and its memory is not free.\<close>
theorem kill_releases_memory:
  assumes "mem_inv s" and "a \<in> set (allocated_block_head s)"
  shows "mem_inv (kill_process (Some (a_pid a)) s) \<and>
    (heap s (heap_tick s) \<longrightarrow>
      mset (allocated_block_head s) = add_mset a (mset (allocated_block_head (kill_process (Some (a_pid a)) s))) \<and>
      cover (free_block (kill_process (Some (a_pid a)) s)) = cover (free_block s) \<union> {a_start a..<a_start a + a_size a} \<and>
      sum_free_memory (kill_process (Some (a_pid a)) s) = sum_free_memory s + a_size a) \<and>
    (\<forall>pid. (\<forall>b \<in> set (allocated_block_head s). a_pid b \<noteq> pid) \<longrightarrow> kill_process (Some pid) s = s) \<and>
    kill_process None s = s"
proof -
  have "kill_process (Some pid) s = s" if "\<forall>b \<in> set (allocated_block_head s). a_pid b \<noteq> pid" for pid
    using that find_None_mem [of pid s] by (simp add: kill_process_def)
  moreover have "kill_process None s = s" by (simp add: kill_process_def)
  ultimately show ?thesis
    using kill_process_ok(1) [OF assms(1), of "Some (a_pid a)"] kill_process_ok(2) [OF assms(1) refl assms(2)] by blast
qed

lemma kill_releases_memory_witness: "sum_free_memory (kill_process (Some 2) demo_mem) = 1024"
proof -
  have a: "\<lparr>a_pid = 2, a_size = 200, a_start = 100, a_name = process_name 2\<rparr> \<in> set (allocated_block_head demo_mem)"
    by (simp add: demo_mem_def)
  have "heap demo_mem (heap_tick demo_mem)" "sum_free_memory demo_mem = 824"
    by (simp_all add: demo_mem_def all_ok_def sum_free_memory_def)
  with kill_releases_memory [OF demo_mem_inv a] show ?thesis by simp
qed

text \<open>C19: Compaction moves the processes down to the start of the memory without changing pid, size
  or name of any, and leaves all the free memory in one block behind them; only when \<open>malloc\<close>
  fails is the free memory lost.\<close>
theorem compaction_packs:
  assumes "mem_inv s" and "compact_memory s = (rc, t)"
  shows "compacted s t \<and>
    (rc = 1 \<and> free_block t = (if mem_size s - used_memory s > 0
        then [\<lparr>f_size = mem_size s - used_memory s, f_start = used_memory s\<rparr>] else []) \<or>
     rc = - 1 \<and> free_block t = [] \<and> \<not> heap s (heap_tick s))"
  using compact_memory_ok [OF assms] by blast

lemma compaction_packs_witness:
  "\<exists>t. compact_memory demo_mem = (1, t) \<and> free_block t = [\<lparr>f_size = 824, f_start = 200\<rparr>]"
proof -
  obtain rc t where c: "compact_memory demo_mem = (rc, t)" by fastforce
  have "mem_size demo_mem = 1024" "used_memory demo_mem = 200" "heap demo_mem (heap_tick demo_mem)"
    by (simp_all add: demo_mem_def used_memory_def all_ok_def)
  with compaction_packs [OF demo_mem_inv c] c show ?thesis by auto
qed

text \<open>C20: The three hand-written list sorts of \<open>rearrange\<close> leave a sorted permutation of the free
  list: by address, by size then address, by falling size then address.\<close>
theorem rearrange_sorts:
  assumes "1 \<le> alg" and "alg \<le> 3"
  shows "mset (free_block (rearrange alg s)) = mset (free_block s) \<and>
    sorted_wrt (policy alg) (free_block (rearrange alg s))"
  using rearrange_props [OF assms] by blast

lemma rearrange_sorts_witness: "sorted_wrt (policy 3) (free_block (rearrange 3 demo_mem))"
  using rearrange_sorts [of 3 demo_mem] by simp

end
