(* ===== verification/Console.thy ===== *)
theory Console
  imports Memsim Cstdlib
begin

text \<open>
  The console of \<open>project2/part3/memsim.c\<close>: what is typed is a list of bytes, of which \<open>scanf\<close> and
  \<open>clear_input\<close> consume the front, and what is printed is a list of bytes. Every operation of \<open>Memsim\<close>
  appears here with its prompt, its way of reading its number and its messages; \<open>main\<close> is the loop over
  the menu. The end of the list is the end of the file.
\<close>

section \<open>Input\<close>

text \<open>
  \<open>scanf("%d", &v)\<close>: white space, a sign, digits; \<open>None\<close> when there is no digit, for which a sign is
  nevertheless consumed. The value is that of \<open>strtol\<close>, as in \<open>atoi\<close>.
\<close>

definition scan_int :: "bytes \<Rightarrow> int option \<times> bytes" where
  "scan_int x =
     (let t = dropWhile is_space x;
          u = (if t \<noteq> [] \<and> (hd t = 45 \<or> hd t = 43) then tl t else t) in
      if takeWhile is_digit u = [] then (None, u) else (Some (atoi t), dropWhile is_digit u))"

definition clear_input :: "bytes \<Rightarrow> bytes" where
  "clear_input x = tl (dropWhile (\<lambda>c. c \<noteq> 10) x)"

text \<open>A number and the rest of its line.\<close>

definition ask :: "bytes \<Rightarrow> int option \<times> bytes" where
  "ask x = (let (v, y) = scan_int x in (v, clear_input y))"

section \<open>Messages\<close>

text \<open>The texts of the source, most of them Chinese, in UTF-8; each is preceded by its meaning.\<close>

text \<open>set the memory size (default=\<close>

definition MENU_SIZE :: bytes where
  "MENU_SIZE =
    [0x31, 0x20, 0x2D, 0x20, 0xE8, 0xAE, 0xBE, 0xE7, 0xBD, 0xAE, 0xE5, 0x86, 0x85, 0xE5, 0xAD, 0x98, 0xE5, 0xA4,
     0xA7, 0xE5, 0xB0, 0x8F, 0x20, 0x28, 0xE9, 0xBB, 0x98, 0xE8, 0xAE, 0xA4, 0x3D]"

text \<open>choose the allocation algorithm\<close>

definition MENU_ALG :: bytes where
  "MENU_ALG =
    [0x32, 0x20, 0x2D, 0x20, 0xE9, 0x80, 0x89, 0xE6, 0x8B, 0xA9, 0xE5, 0x86, 0x85, 0xE5, 0xAD, 0x98, 0xE5, 0x88,
     0x86, 0xE9, 0x85, 0x8D, 0xE7, 0xAE, 0x97, 0xE6, 0xB3, 0x95, 0xEF, 0xBC, 0x88, 0x46, 0x46, 0x2F, 0x42, 0x46,
     0x2F, 0x57, 0x46, 0xEF, 0xBC, 0x89, 0x0A]"

text \<open>create a process\<close>

definition MENU_NEW :: bytes where
  "MENU_NEW =
    [0x33, 0x20, 0x2D, 0x20, 0xE5, 0x88, 0x9B, 0xE5, 0xBB, 0xBA, 0xE6, 0x96, 0xB0, 0xE8, 0xBF, 0x9B, 0xE7, 0xA8,
     0x8B, 0xEF, 0xBC, 0x88, 0xE7, 0x94, 0xB3, 0xE8, 0xAF, 0xB7, 0xE5, 0x86, 0x85, 0xE5, 0xAD, 0x98, 0xEF, 0xBC,
     0x89, 0x0A]"

text \<open>end a process\<close>

definition MENU_KILL :: bytes where
  "MENU_KILL =
    [0x34, 0x20, 0x2D, 0x20, 0xE7, 0xBB, 0x93, 0xE6, 0x9D, 0x9F, 0xE8, 0xBF, 0x9B, 0xE7, 0xA8, 0x8B, 0xEF, 0xBC,
     0x88, 0xE5, 0x9B, 0x9E, 0xE6, 0x94, 0xB6, 0xE5, 0x86, 0x85, 0xE5, 0xAD, 0x98, 0xEF, 0xBC, 0x89, 0x0A]"

text \<open>show the memory\<close>

definition MENU_SHOW :: bytes where
  "MENU_SHOW =
    [0x35, 0x20, 0x2D, 0x20, 0xE6, 0x98, 0xBE, 0xE7, 0xA4, 0xBA, 0xE5, 0x86, 0x85, 0xE5, 0xAD, 0x98, 0xE4, 0xBD,
     0xBF, 0xE7, 0x94, 0xA8, 0xE6, 0x83, 0x85, 0xE5, 0x86, 0xB5, 0x0A]"

text \<open>set MIN_SLICE (now=\<close>

definition MENU_SLICE :: bytes where
  "MENU_SLICE =
    [0x36, 0x20, 0x2D, 0x20, 0xE8, 0xAE, 0xBE, 0xE7, 0xBD, 0xAE, 0xE6, 0x9C, 0x80, 0xE5, 0xB0, 0x8F, 0xE7, 0xA2,
     0x8E, 0xE7, 0x89, 0x87, 0xE9, 0x98, 0x88, 0xE5, 0x80, 0xBC, 0x20, 0x4D, 0x49, 0x4E, 0x5F, 0x53, 0x4C, 0x49,
     0x43, 0x45, 0xEF, 0xBC, 0x88, 0xE5, 0xBD, 0x93, 0xE5, 0x89, 0x8D, 0x3D]"

text \<open>toggle compaction (now=\<close>

definition MENU_AUTO :: bytes where
  "MENU_AUTO =
    [0x37, 0x20, 0x2D, 0x20, 0xE5, 0x88, 0x87, 0xE6, 0x8D, 0xA2, 0xE8, 0x87, 0xAA, 0xE5, 0x8A, 0xA8, 0xE7, 0xB4,
     0xA7, 0xE7, 0xBC, 0xA9, 0xEF, 0xBC, 0x88, 0xE5, 0xBD, 0x93, 0xE5, 0x89, 0x8D, 0x3D]"

text \<open>a wide closing parenthesis\<close>

definition WIDE_CLOSE :: bytes where
  "WIDE_CLOSE =
    [0xEF, 0xBC, 0x89, 0x0A]"

text \<open>exit\<close>

definition MENU_EXIT :: bytes where
  "MENU_EXIT =
    [0x30, 0x20, 0x2D, 0x20, 0xE9, 0x80, 0x80, 0xE5, 0x87, 0xBA, 0x0A]"

text \<open>choose\<close>

definition CHOOSE :: bytes where
  "CHOOSE =
    [0xE9, 0x80, 0x89, 0xE6, 0x8B, 0xA9, 0x3E, 0x20]"

text \<open>on\<close>

definition T_ON :: bytes where
  "T_ON =
    [0xE5, 0xBC, 0x80, 0xE5, 0x90, 0xAF]"

text \<open>off\<close>

definition T_OFF :: bytes where
  "T_OFF =
    [0xE5, 0x85, 0xB3, 0xE9, 0x97, 0xAD]"

text \<open>too late to set the size\<close>

definition T_LOCKED :: bytes where
  "T_LOCKED =
    [0xE5, 0xB7, 0xB2, 0xE6, 0x9C, 0x89, 0xE6, 0x93, 0x8D, 0xE4, 0xBD, 0x9C, 0xE5, 0x8F, 0x91, 0xE7, 0x94, 0x9F,
     0xEF, 0xBC, 0x8C, 0xE4, 0xB8, 0x8D, 0xE8, 0x83, 0xBD, 0xE5, 0x86, 0x8D, 0xE6, 0xAC, 0xA1, 0xE8, 0xAE, 0xBE,
     0xE7, 0xBD, 0xAE, 0xE5, 0x86, 0x85, 0xE5, 0xAD, 0x98, 0xE5, 0xA4, 0xA7, 0xE5, 0xB0, 0x8F, 0xE3, 0x80, 0x82,
     0x0A]"

text \<open>total memory =\<close>

definition T_TOTAL :: bytes where
  "T_TOTAL =
    [0xE6, 0x80, 0xBB, 0xE5, 0x86, 0x85, 0xE5, 0xAD, 0x98, 0xE5, 0xA4, 0xA7, 0xE5, 0xB0, 0x8F, 0x20, 0x3D, 0x20]"

text \<open>invalid input\<close>

definition T_INVALID :: bytes where
  "T_INVALID =
    [0xE8, 0xBE, 0x93, 0xE5, 0x85, 0xA5, 0xE6, 0x97, 0xA0, 0xE6, 0x95, 0x88, 0xE3, 0x80, 0x82, 0x0A]"

text \<open>set MIN_SLICE =\<close>

definition T_SET_SLICE :: bytes where
  "T_SET_SLICE =
    [0xE8, 0xAE, 0xBE, 0xE7, 0xBD, 0xAE, 0x20, 0x4D, 0x49, 0x4E, 0x5F, 0x53, 0x4C, 0x49, 0x43, 0x45, 0x20, 0x3D,
     0x20]"

text \<open>MIN_SLICE has been set to\<close>

definition T_SLICE_SET :: bytes where
  "T_SLICE_SET =
    [0x4D, 0x49, 0x4E, 0x5F, 0x53, 0x4C, 0x49, 0x43, 0x45, 0x20, 0xE5, 0xB7, 0xB2, 0xE8, 0xAE, 0xBE, 0xE4, 0xB8,
     0xBA, 0x20]"

text \<open>compaction is now\<close>

definition T_AUTO_NOW :: bytes where
  "T_AUTO_NOW =
    [0xE8, 0x87, 0xAA, 0xE5, 0x8A, 0xA8, 0xE7, 0xB4, 0xA7, 0xE7, 0xBC, 0xA9, 0xE5, 0xB7, 0xB2]"

text \<open>a wide full stop\<close>

definition WIDE_STOP :: bytes where
  "WIDE_STOP =
    [0xE3, 0x80, 0x82, 0x0A]"

text \<open>no memory for a control block\<close>

definition T_NO_PCB :: bytes where
  "T_NO_PCB =
    [0xE6, 0x8E, 0xA7, 0xE5, 0x88, 0xB6, 0xE5, 0x9D, 0x97, 0xE5, 0x86, 0x85, 0xE5, 0xAD, 0x98, 0xE4, 0xB8, 0x8D,
     0xE8, 0xB6, 0xB3, 0xE3, 0x80, 0x82, 0x0A]"

text \<open>for\<close>

definition T_FOR :: bytes where
  "T_FOR =
    [0xE4, 0xB8, 0xBA, 0x20]"

text \<open>asks for memory of size\<close>

definition T_ASK_SIZE :: bytes where
  "T_ASK_SIZE =
    [0x20, 0xE7, 0x94, 0xB3, 0xE8, 0xAF, 0xB7, 0xE5, 0x86, 0x85, 0xE5, 0xAD, 0x98, 0xE5, 0xA4, 0xA7, 0xE5, 0xB0,
     0x8F, 0x3A, 0x20]"

text \<open>invalid input, cancelled\<close>

definition T_CANCEL :: bytes where
  "T_CANCEL =
    [0xE8, 0xBE, 0x93, 0xE5, 0x85, 0xA5, 0xE6, 0x97, 0xA0, 0xE6, 0x95, 0x88, 0xEF, 0xBC, 0x8C, 0xE5, 0x8F, 0x96,
     0xE6, 0xB6, 0x88, 0xE3, 0x80, 0x82, 0x0A]"

text \<open>allocation failed\<close>

definition T_ALLOC_FAIL :: bytes where
  "T_ALLOC_FAIL =
    [0xE5, 0x88, 0x86, 0xE9, 0x85, 0x8D, 0xE5, 0xA4, 0xB1, 0xE8, 0xB4, 0xA5, 0xE3, 0x80, 0x82, 0x0A]"

text \<open>end process, pid =\<close>

definition T_END_PID :: bytes where
  "T_END_PID =
    [0xE7, 0xBB, 0x93, 0xE6, 0x9D, 0x9F, 0xE8, 0xBF, 0x9B, 0xE7, 0xA8, 0x8B, 0xEF, 0xBC, 0x8C, 0x70, 0x69, 0x64,
     0x20, 0x3D, 0x20]"

text \<open>no such pid\<close>

definition T_NO_PID :: bytes where
  "T_NO_PID =
    [0xE6, 0x9C, 0xAA, 0xE6, 0x89, 0xBE, 0xE5, 0x88, 0xB0, 0xE8, 0xAF, 0xA5, 0x20, 0x70, 0x69, 0x64, 0xE3, 0x80,
     0x82, 0x0A]"

text \<open>invalid choice\<close>

definition T_BAD_CHOICE :: bytes where
  "T_BAD_CHOICE =
    [0xE6, 0x97, 0xA0, 0xE6, 0x95, 0x88, 0xE9, 0x80, 0x89, 0xE6, 0x8B, 0xA9, 0xE3, 0x80, 0x82, 0x0A]"

section \<open>Output\<close>

definition pad_left :: "nat \<Rightarrow> bytes \<Rightarrow> bytes" where
  "pad_left n x = replicate (n - length x) 32 @ x"

definition on_off :: "mem \<Rightarrow> bytes" where
  "on_off s = (if auto_compact s then T_ON else T_OFF)"

definition display_menu :: "mem \<Rightarrow> bytes" where
  "display_menu s =
     [10] @ MENU_SIZE @ fmt_d DEFAULT_MEM_SIZE @ [41, 10] @ MENU_ALG @ MENU_NEW @ MENU_KILL @ MENU_SHOW @
     MENU_SLICE @ fmt_d (min_slice s) @ WIDE_CLOSE @ MENU_AUTO @ on_off s @ WIDE_CLOSE @ MENU_EXIT @ CHOOSE"

definition rule_line :: bytes where
  "rule_line = replicate 58 45 @ [10]"

definition free_row :: "free_block_type \<Rightarrow> bytes" where
  "free_row f = pad_left 20 (fmt_d (f_start f)) @ [32] @ pad_left 20 (fmt_d (f_size f)) @ [10]"

definition used_row :: "allocated_block \<Rightarrow> bytes" where
  "used_row a = pad_left 10 (fmt_d (a_pid a)) @ [32] @ pad_left 20 (a_name a) @ [32] @
     pad_left 12 (fmt_d (a_start a)) @ [32] @ pad_left 10 (fmt_d (a_size a)) @ [10]"

definition display_mem_usage :: "mem \<Rightarrow> bytes" where
  "display_mem_usage s =
     rule_line @ bytes_of ''Free Memory:'' @ [10] @
     pad_left 20 (bytes_of ''start_addr'') @ [32] @ pad_left 20 (bytes_of ''size'') @ [10] @
     concat (map free_row (free_block s)) @
     [10] @ bytes_of ''Used Memory:'' @ [10] @
     pad_left 10 (bytes_of ''PID'') @ [32] @ pad_left 20 (bytes_of ''ProcessName'') @ [32] @
     pad_left 12 (bytes_of ''start_addr'') @ [32] @ pad_left 10 (bytes_of ''size'') @ [10] @
     concat (map used_row (allocated_block_head s)) @ rule_line"

section \<open>The operations at the console\<close>

text \<open>Each yields what it prints, the state after it and the input that is left.\<close>

type_synonym console = "bytes \<times> mem \<times> bytes"

definition at_set_mem_size :: "mem \<Rightarrow> bytes \<Rightarrow> console" where
  "at_set_mem_size s x =
     (if lock_set_size s then (T_LOCKED, s, x)
      else let (v, y) = ask x; (r, t) = set_mem_size v s in
        (T_TOTAL @ (if r = 0 then T_INVALID
           else if free_block s = [] \<and> \<not> heap s (heap_tick s) then bytes_of ''No mem'' @ [10] else []), t, y))"

definition at_set_algorithm :: "mem \<Rightarrow> bytes \<Rightarrow> console" where
  "at_set_algorithm s x =
     (let (v, y) = ask x in
      ([9] @ bytes_of ''1 - First Fit (FF)'' @ [10, 9] @ bytes_of ''2 - Best  Fit (BF)'' @ [10, 9] @
       bytes_of ''3 - Worst Fit (WF)'' @ [10] @ CHOOSE @
       (case v of None \<Rightarrow> T_INVALID | Some alg \<Rightarrow> if alg < 1 \<or> alg > 3 then T_INVALID else []), set_algorithm v s, y))"

definition at_new_process :: "mem \<Rightarrow> bytes \<Rightarrow> console option" where
  "at_new_process s x =
     (if \<not> heap s (heap_tick s) then do {
        (_, t) \<leftarrow> new_process None s;
        Some (T_NO_PCB, t, x) }
      else let (v, y) = ask x in do {
        (r, t) \<leftarrow> new_process v s;
        Some (T_FOR @ process_name (pid_seq s + 1) @ T_ASK_SIZE @
          (if v = None \<or> the v \<le> 0 then T_CANCEL else if r = 1 then [] else T_ALLOC_FAIL), t, y) })"

definition at_kill_process :: "mem \<Rightarrow> bytes \<Rightarrow> console" where
  "at_kill_process s x =
     (let (v, y) = ask x in
      (T_END_PID @ (case v of None \<Rightarrow> T_INVALID | Some pid \<Rightarrow> if find_process pid s = None then T_NO_PID else []),
       kill_process v s, y))"

definition at_set_min_slice :: "mem \<Rightarrow> bytes \<Rightarrow> console" where
  "at_set_min_slice s x =
     (let (v, y) = ask x in
      (T_SET_SLICE @
       (case v of None \<Rightarrow> T_INVALID | Some n \<Rightarrow> if n < 0 then T_INVALID else T_SLICE_SET @ fmt_d n @ [10]),
       set_min_slice v s, y))"

definition at_toggle :: "mem \<Rightarrow> bytes \<Rightarrow> console" where
  "at_toggle s x = (let t = toggle_auto_compact s in (T_AUTO_NOW @ on_off t @ WIDE_STOP, t, x))"

section \<open>The loop\<close>

definition command :: "int \<Rightarrow> mem \<Rightarrow> bytes \<Rightarrow> console option" where
  "command k s x =
     (if k = 1 then Some (at_set_mem_size s x)
      else if k = 2 then Some (at_set_algorithm s x)
      else if k = 3 then at_new_process s x
      else if k = 4 then Some (at_kill_process s x)
      else if k = 5 then Some (display_mem_usage s, s, x)
      else if k = 6 then Some (at_set_min_slice s x)
      else if k = 7 then Some (at_toggle s x)
      else Some (T_BAD_CHOICE, s, x))"

text \<open>One turn of the \<open>for(;;)\<close>; the flag says whether \<open>main\<close> goes on.\<close>

definition turn :: "mem \<Rightarrow> bytes \<Rightarrow> (bytes \<times> bool \<times> mem \<times> bytes) option" where
  "turn s x =
     (let (c, y) = ask x in
      case c of
        None \<Rightarrow> Some (display_menu s, True, s, y)
      | Some k \<Rightarrow>
          if k = 0 then Some (display_menu s, False, do_exit s, y)
          else do {
            (p, t, z) \<leftarrow> command k s y;
            Some (display_menu s @ p, True, t, z) })"

text \<open>At most \<open>n\<close> turns.\<close>

fun turns :: "nat \<Rightarrow> mem \<Rightarrow> bytes \<Rightarrow> (bytes \<times> bool \<times> mem \<times> bytes) option" where
  "turns 0 s x = Some ([], True, s, x)"
| "turns (Suc n) s x = do {
     (p, go, t, y) \<leftarrow> turn s x;
     if go then do {
       (q, go', u, z) \<leftarrow> turns n t y;
       Some (p @ q, go', u, z) }
     else Some (p, False, t, y) }"

lemma turns_step:
  "turn s x = Some (p, True, t, y) \<Longrightarrow> turns n t y = Some (q, go, u, z) \<Longrightarrow> turns (Suc n) s x = Some (p @ q, go, u, z)"
  by simp

section \<open>A turn is a turn of the session\<close>

lemma ask_shrinks: "ask x = (v, y) \<Longrightarrow> length y < length x \<or> x = [] \<and> y = [] \<and> v = None"
proof -
  assume a: "ask x = (v, y)"
  obtain w z where s: "scan_int x = (w, z)" by fastforce
  have le: "length (tl (dropWhile P z)) \<le> length z - 1" for P
    using length_dropWhile_le [of P z] by simp
  have y: "y = clear_input z" "v = w" using a s by (simp_all add: ask_def)
  have z: "length z \<le> length x"
    using s length_dropWhile_le [of is_space x] length_dropWhile_le [of is_digit "tl (dropWhile is_space x)"]
      length_dropWhile_le [of is_digit "dropWhile is_space x"]
    by (auto simp: scan_int_def Let_def split: if_splits)
  show ?thesis
  proof (cases "x = []")
    case True
    then show ?thesis using a by (simp add: ask_def scan_int_def clear_input_def)
  next
    case False
    then have "0 < length x" by simp
    then have "length (clear_input z) < length x" using z le [of "\<lambda>c. c \<noteq> 10"] unfolding clear_input_def by (cases "z = []") linarith+
    then show ?thesis unfolding y by simp
  qed
qed

lemma ask_line:
  assumes "- (2 ^ 31) \<le> i" and "i < 2 ^ 31"
  shows "ask (fmt_d i @ 10 # r) = (Some i, r)"
proof -
  have nd: "\<not> is_digit 10" by (simp add: is_digit_def word_le_nat_alt)
  have at: "atoi (fmt_d i @ 10 # r) = i" using atoi_stop [OF nd, of i r] atoi_fmt_d [OF assms] by simp
  have tw: "takeWhile is_digit (fmt_u k @ 10 # r) = fmt_u k" "dropWhile is_digit (fmt_u k @ 10 # r) = 10 # r" for k
    using fmt_u_digits [of k] nd by (simp_all add: takeWhile_append2 dropWhile_append2)
  have "scan_int (fmt_d i @ 10 # r) = (Some i, 10 # r)"
  proof (cases "i < 0")
    case True
    have "\<not> is_space 45" by (simp add: is_space_def word_le_nat_alt)
    then show ?thesis using True at tw [of "nat (- i)"] fmt_u_Cons [of "nat (- i)"] by (simp add: scan_int_def fmt_d_def Let_def)
  next
    case False
    obtain d ds where d: "fmt_u (nat i) = d # ds" using fmt_u_Cons [of "nat i"] by (cases "fmt_u (nat i)") auto
    then have "is_digit d" using fmt_u_digits [of "nat i"] by simp
    note p = digit_props [OF this]
    have "scan_int (d # ds @ 10 # r) = (Some (atoi (d # ds @ 10 # r)), 10 # r)"
      using p tw [of "nat i"] d by (simp add: scan_int_def Let_def split: if_splits)
    then show ?thesis using False at d by (simp add: fmt_d_def)
  qed
  then show ?thesis by (simp add: ask_def clear_input_def)
qed

lemma command_menu:
  assumes m: "mem_inv s" and k: "k \<noteq> 0"
  obtains i p t y where "command k s x = Some (p, t, y)" "menu (Some k) i s = Some t" "length y \<le> length x"
proof -
  obtain v y where a: "ask x = (v, y)" by fastforce
  have le: "length y \<le> length x" using ask_shrinks [OF a] by auto
  obtain r t where n: "new_process v s = Some (r, t)" using menu_inv [OF m, of "Some 3" v] by (auto simp: menu_def)
  have e: "new_process None s = new_process v s" if "\<not> heap s (heap_tick s)" using that by (simp add: new_process_def malloc_ok_def)
  have none: "set_mem_size v s = (0, s)" if "lock_set_size s" using that by (simp add: set_mem_size_def)
  have "\<exists>p t y. command k s x = Some (p, t, y) \<and> menu (Some k) v s = Some t \<and> length y \<le> length x"
    using k a le n e none
    by (simp add: command_def menu_def at_set_mem_size_def at_set_algorithm_def at_new_process_def at_kill_process_def
        at_set_min_slice_def at_toggle_def Let_def case_prod_unfold)
  with that show thesis by blast
qed

lemma turn_menu:
  assumes m: "mem_inv s"
  obtains c i p go t y where "turn s x = Some (p, go, t, y)" "menu c i s = Some t \<and> c \<noteq> Some 0 \<and> go \<or> t = do_exit s \<and> \<not> go"
    "length y < length x \<or> x = [] \<and> y = [] \<and> go \<and> t = s"
proof -
  obtain c y where a: "ask x = (c, y)" by fastforce
  note sh = ask_shrinks [OF a]
  consider "c = None" | "c = Some 0" | k where "c = Some k" "k \<noteq> 0" by (cases c) auto
  then show thesis
  proof cases
    case 1
    then show ?thesis using a sh by (intro that [of "display_menu s" True s y None None]) (auto simp: turn_def menu_def)
  next
    case 2
    then show ?thesis using a sh by (intro that [of "display_menu s" False "do_exit s" y]) (auto simp: turn_def)
  next
    case (3 k)
    obtain i p t z where c: "command k s y = Some (p, t, z)" "menu (Some k) i s = Some t" "length z \<le> length y"
      by (rule command_menu [OF m 3(2)])
    show ?thesis
      by (rule that [of "display_menu s @ p" True t z "Some k" i]) (use a sh 3 c in \<open>auto simp: turn_def\<close>)
  qed
qed

lemma menu_keeps: "mem_inv s \<Longrightarrow> menu c i s = Some t \<Longrightarrow> mem_inv t"
  using menu_inv [of s c i] by auto

lemma turns_session:
  assumes "mem_inv s"
  shows "\<exists>p go t y cs. turns n s x = Some (p, go, t, y) \<and> session cs s = Some t \<and> length cs \<le> n \<and> mem_inv t"
  using assms
proof (induction n arbitrary: s x)
  case 0
  then show ?case by (intro exI [of _ "[]"] exI) auto
next
  case (Suc n)
  obtain c i p go t y where u: "turn s x = Some (p, go, t, y)" "menu c i s = Some t \<and> c \<noteq> Some 0 \<and> go \<or> t = do_exit s \<and> \<not> go"
    by (rule turn_menu [OF Suc.prems])
  show ?case
  proof (cases go)
    case True
    then have m: "menu c i s = Some t" "c \<noteq> Some 0" using u(2) by auto
    obtain q go' v z cs where v: "turns n t y = Some (q, go', v, z)" "session cs t = Some v" "length cs \<le> n" "mem_inv v"
      using Suc.IH [OF menu_keeps [OF Suc.prems m(1)]] by blast
    have "turns (Suc n) s x = Some (p @ q, go', v, z)" "session ((c, i) # cs) s = Some v"
      using u(1) True m v by simp_all
    then show ?thesis using v by (metis length_Cons Suc_le_mono)
  next
    case False
    then have "turns (Suc n) s x = Some (p, False, do_exit s, y)" "session [(Some 0, i)] s = Some (do_exit s)" using u by simp_all
    then show ?thesis using do_exit_inv [OF Suc.prems] by (metis length_Cons list.size(3) Suc_le_mono zero_le)
  qed
qed

section \<open>When the loop ends\<close>

lemma turns_eof: "turns n s [] = Some (concat (replicate n (display_menu s)), True, s, [])"
  by (induction n) (simp_all add: turn_def ask_def scan_int_def clear_input_def)

lemma turns_more: "turns n s x = Some (p, False, t, y) \<Longrightarrow> n \<le> m \<Longrightarrow> turns m s x = Some (p, False, t, y)"
proof (induction n arbitrary: m s x p)
  case (Suc n)
  then obtain k where m: "m = Suc k" "n \<le> k" by (cases m) auto
  obtain q go u z where t: "turn s x = Some (q, go, u, z)"
    using Suc.prems(1) by (cases "turn s x") auto
  show ?case
  proof (cases go)
    case True
    then obtain r where "turns n u z = Some (r, False, t, y)" "p = q @ r" using Suc.prems(1) t by (auto simp: Option.bind_eq_Some_conv)
    then show ?thesis using Suc.IH [OF _ m(2)] t True by (simp add: m(1))
  next
    case False
    then show ?thesis using Suc.prems(1) t by (simp add: m(1))
  qed
qed simp

section \<open>What an input says\<close>

text \<open>
  The console read line by line: every line with something on it is one answer, the number it starts with
  or none, and what follows the number on the line is ignored. A last line need not end in a newline.
\<close>

fun lines_of :: "bytes \<Rightarrow> bytes list" where
  "lines_of [] = []"
| "lines_of (c # x) = (if c = 10 then [] # lines_of x else case lines_of x of [] \<Rightarrow> [[c]] | l # ls \<Rightarrow> (c # l) # ls)"

definition number_of :: "bytes \<Rightarrow> int option" where
  "number_of l =
     (let t = dropWhile is_space l; d = (if t \<noteq> [] \<and> (hd t = 45 \<or> hd t = 43) then tl t else t) in
      if d \<noteq> [] \<and> is_digit (hd d) then Some (atoi t) else None)"

definition blank :: "bytes \<Rightarrow> bool" where
  "blank l \<longleftrightarrow> (\<forall>c \<in> set l. is_space c)"

definition answers :: "bytes \<Rightarrow> int option list" where
  "answers x = map number_of (filter (\<lambda>l. \<not> blank l) (lines_of x))"

definition next_answer :: "int option list \<Rightarrow> int option" where
  "next_answer as = (case as of [] \<Rightarrow> None | a # _ \<Rightarrow> a)"

text \<open>The number typed after a choice is only read when the operation asks for it.\<close>

definition asks :: "int \<Rightarrow> mem \<Rightarrow> bool" where
  "asks k s \<longleftrightarrow> k = 1 \<and> \<not> lock_set_size s \<or> k = 2 \<or> k = 3 \<and> heap s (heap_tick s) \<or> k = 4 \<or> k = 6"

text \<open>
  The session the answers stand for: a choice that is not a number is passed over, 0 ends it, any other
  choice runs its menu operation on the next answer if it asks for one. The flag is that of \<open>turn\<close>.
\<close>

fun follow :: "mem \<Rightarrow> int option list \<Rightarrow> (bool \<times> mem) option" where
  "follow s [] = Some (True, s)"
| "follow s (None # as) = follow s as"
| "follow s (Some k # as) =
     (if k = 0 then Some (False, do_exit s)
      else if asks k s then do { t \<leftarrow> menu (Some k) (next_answer as) s; follow t (tl as) }
      else do { t \<leftarrow> menu (Some k) None s; follow t as })"

lemma lines_of_line: "10 \<notin> set l \<Longrightarrow> lines_of (l @ 10 # r) = l # lines_of r"
  by (induction l) auto

lemma lines_of_last: "10 \<notin> set l \<Longrightarrow> l \<noteq> [] \<Longrightarrow> lines_of l = [l]"
proof (induction l)
  case (Cons c l)
  then show ?case by (cases "l = []") auto
qed simp

lemma answers_space: "is_space c \<Longrightarrow> answers (c # x) = answers x"
  by (cases "lines_of x") (auto simp: answers_def blank_def number_of_def)

lemma answers_dropWhile: "answers (dropWhile is_space x) = answers x"
  by (induction x) (simp_all add: answers_space)

lemma answers_line:
  assumes "x \<noteq> []" and "\<not> is_space (hd x)"
  shows "answers x = number_of (takeWhile (\<lambda>c. c \<noteq> 10) x) # answers (clear_input x)"
proof -
  let ?l = "takeWhile (\<lambda>c. c \<noteq> 10) x" and ?d = "dropWhile (\<lambda>c. c \<noteq> 10) x"
  have h: "hd x \<noteq> 10" using assms(2) by (auto simp: is_space_def)
  then have l: "?l \<noteq> []" "hd ?l = hd x" "10 \<notin> set ?l" using assms(1) by (cases x; auto dest: set_takeWhileD)+
  then have b: "\<not> blank ?l" using assms(2) hd_in_set [OF l(1)] unfolding blank_def by metis
  have "lines_of x = ?l # lines_of (tl ?d)"
  proof (cases "?d = []")
    case True
    then have "x = ?l" by (metis append_Nil2 takeWhile_dropWhile_id)
    then show ?thesis using lines_of_last [OF l(3,1)] True by (metis lines_of.simps(1) list.sel(2))
  next
    case False
    then have "?d = 10 # tl ?d" using hd_dropWhile [OF False] by (cases ?d) auto
    then have "x = ?l @ 10 # tl ?d" using takeWhile_dropWhile_id [of "\<lambda>c. c \<noteq> 10" x] by simp
    then show ?thesis using lines_of_line [OF l(3), of "tl ?d"] by simp
  qed
  then show ?thesis using b by (simp add: answers_def clear_input_def)
qed

lemma digits_val_line: "digits_val a (takeWhile (\<lambda>c. c \<noteq> 10) x) = digits_val a x"
proof (induction x arbitrary: a)
  case (Cons c x)
  have "\<not> is_digit 10" by (simp add: is_digit_def word_le_nat_alt)
  then show ?case using Cons.IH by auto
qed simp

lemma atoi_line:
  assumes "x \<noteq> []" and "\<not> is_space (hd x)"
  shows "atoi (takeWhile (\<lambda>c. c \<noteq> 10) x) = atoi x"
proof -
  obtain c r where x: "x = c # r" "\<not> is_space c" using assms by (cases x) auto
  then have "c \<noteq> 10" by (auto simp: is_space_def)
  then show ?thesis using x digits_val_line [of 0 r] digits_val_line [of 0 x] by (simp add: atoi_def Let_def)
qed

lemma starts_digit: "takeWhile is_digit u \<noteq> [] \<longleftrightarrow> u \<noteq> [] \<and> is_digit (hd u)"
  by (cases u) simp_all

lemma clear_digits: "clear_input (dropWhile is_digit u) = clear_input u"
proof (induction u)
  case (Cons c u)
  then show ?case using digit_props [of c] by (auto simp: clear_input_def)
qed simp

lemma ask_answers:
  assumes "ask x = (v, y)"
  shows "answers x = [] \<and> v = None \<and> y = [] \<or> answers x = v # answers y"
proof -
  define t where "t = dropWhile is_space x"
  define u where "u = (if t \<noteq> [] \<and> (hd t = 45 \<or> hd t = 43) then tl t else t)"
  have ans: "answers x = answers t" by (simp add: t_def answers_dropWhile)
  have v: "v = (if takeWhile is_digit u = [] then None else Some (atoi t))"
    "y = (if takeWhile is_digit u = [] then clear_input u else clear_input (dropWhile is_digit u))"
    using assms by (auto simp: ask_def scan_int_def u_def t_def Let_def split: if_splits)
  show ?thesis
  proof (cases t)
    case Nil
    then have "u = []" by (simp add: u_def)
    then show ?thesis using v ans Nil by (simp add: clear_input_def answers_def)
  next
    case (Cons c r)
    have c: "\<not> is_space c" using Cons hd_dropWhile [of is_space x] by (simp add: t_def)
    then have n: "c \<noteq> 10" by (auto simp: is_space_def)
    let ?l = "takeWhile (\<lambda>c. c \<noteq> 10) t" and ?d = "takeWhile (\<lambda>c. c \<noteq> 10) u"
    have d: "?d \<noteq> [] \<and> is_digit (hd ?d) \<longleftrightarrow> takeWhile is_digit u \<noteq> []"
      using digit_props [of "hd u"] unfolding starts_digit by (cases u) auto
    have "number_of ?l = (if ?d \<noteq> [] \<and> is_digit (hd ?d) then Some (atoi ?l) else None)"
      using c n by (simp add: number_of_def Let_def Cons u_def)
    then have "number_of ?l = v"
      using atoi_line [of t] c v(1) unfolding d by (simp add: Cons)
    moreover have "y = clear_input t"
      using n v(2) unfolding clear_digits by (simp add: u_def Cons clear_input_def)
    ultimately show ?thesis using answers_line [of t] c ans by (simp add: Cons)
  qed
qed

section \<open>The console follows its input\<close>

lemma command_follow:
  assumes m: "mem_inv s" and k: "k \<noteq> 0"
  obtains p t where "if asks k s then command k s x = Some (p, t, snd (ask x)) \<and> menu (Some k) (fst (ask x)) s = Some t
    else command k s x = Some (p, t, x) \<and> menu (Some k) None s = Some t"
proof -
  obtain v y where a: "ask x = (v, y)" by fastforce
  obtain r t where n: "new_process v s = Some (r, t)" using menu_inv [OF m, of "Some 3" v] by (auto simp: menu_def)
  obtain r' t' where n': "new_process None s = Some (r', t')" using menu_inv [OF m, of "Some 3" None] by (auto simp: menu_def)
  have e: "new_process v s = new_process None s" if "\<not> heap s (heap_tick s)" using that by (simp add: new_process_def malloc_ok_def)
  have none: "set_mem_size w s = (0, s)" if "lock_set_size s" for w using that by (simp add: set_mem_size_def)
  note defs = asks_def command_def menu_def at_set_mem_size_def at_set_algorithm_def at_new_process_def at_kill_process_def
        at_set_min_slice_def at_toggle_def Let_def case_prod_unfold
  have "\<exists>p t. if asks k s then command k s x = Some (p, t, snd (ask x)) \<and> menu (Some k) (fst (ask x)) s = Some t
    else command k s x = Some (p, t, x) \<and> menu (Some k) None s = Some t"
  proof (cases "asks k s")
    case True
    then consider "k = 1" "\<not> lock_set_size s" | "k = 2" | "k = 3" "heap s (heap_tick s)" | "k = 4" | "k = 6" by (auto simp: asks_def)
    then show ?thesis by cases (use True a n in \<open>simp_all add: defs\<close>)
  next
    case False
    then show ?thesis by (cases "k = 1"; cases "k = 3") (use k n' none in \<open>simp_all add: defs\<close>)
  qed
  with that show thesis by blast
qed

text \<open>One turn takes the next answers off the input and does what \<open>follow\<close> does with them.\<close>

lemma turn_follow:
  assumes m: "mem_inv s" and x: "answers x \<noteq> []"
  obtains p go t y where "turn s x = Some (p, go, t, y)" "mem_inv t" "length y < length x"
    "follow s (answers x) = (if go then follow t (answers y) else Some (False, t))"
proof -
  obtain v y where a: "ask x = (v, y)" by fastforce
  have ans: "answers x = v # answers y" using ask_answers [OF a] x by simp
  have len: "length y < length x" using ask_shrinks [OF a] x by (auto simp: answers_def)
  consider "v = None" | "v = Some 0" | k where "v = Some k" "k \<noteq> 0" by (cases v) auto
  then show thesis
  proof cases
    case 1
    show ?thesis by (rule that [of "display_menu s" True s y]) (use 1 a m len ans in \<open>simp_all add: turn_def\<close>)
  next
    case 2
    show ?thesis by (rule that [of "display_menu s" False "do_exit s" y])
      (use 2 a do_exit_inv [OF m] len ans in \<open>simp_all add: turn_def\<close>)
  next
    case (3 k)
    obtain p t where c: "if asks k s then command k s y = Some (p, t, snd (ask y)) \<and> menu (Some k) (fst (ask y)) s = Some t
      else command k s y = Some (p, t, y) \<and> menu (Some k) None s = Some t" by (rule command_follow [OF m 3(2)])
    have it: "mem_inv t" using c menu_keeps [OF m] by (auto split: if_splits)
    have next_a: "next_answer (answers y) = fst (ask y) \<and> tl (answers y) = answers (snd (ask y)) \<and> length (snd (ask y)) \<le> length y"
      using ask_answers [of y "fst (ask y)" "snd (ask y)"] ask_shrinks [of y "fst (ask y)" "snd (ask y)"]
      by (auto simp: next_answer_def answers_def)
    show ?thesis
    proof (cases "asks k s")
      case True
      with c have "turn s x = Some (display_menu s @ p, True, t, snd (ask y))" using a 3 by (simp add: turn_def)
      then show ?thesis by (rule that) (use it len next_a 3 ans c True in simp_all)
    next
      case False
      with c have "turn s x = Some (display_menu s @ p, True, t, y)" using a 3 by (simp add: turn_def)
      then show ?thesis by (rule that) (use it len 3 ans c False in simp_all)
    qed
  qed
qed

lemma turns_follow:
  assumes "mem_inv s" and "length x \<le> n"
  shows "\<exists>p go t y. turns n s x = Some (p, go, t, y) \<and> follow s (answers x) = Some (go, t) \<and> mem_inv t \<and> (go \<longrightarrow> y = [])"
  using assms
proof (induction n arbitrary: s x)
  case 0
  then have "turns 0 s x = Some ([], True, s, []) \<and> follow s (answers x) = Some (True, s)" by (simp add: answers_def)
  then show ?case using 0 by blast
next
  case (Suc n)
  show ?case
  proof (cases "answers x = []")
    case True
    then have "ask x = (None, [])" using ask_answers [of x "fst (ask x)" "snd (ask x)"] by (cases "ask x") auto
    then have "turns (Suc n) s x = Some (display_menu s @ concat (replicate n (display_menu s)), True, s, [])"
      using turns_eof [of n s] by (simp add: turn_def)
    moreover have "follow s (answers x) = Some (True, s)" by (simp add: True)
    ultimately show ?thesis using Suc.prems(1) by blast
  next
    case False
    obtain p go t y where u: "turn s x = Some (p, go, t, y)" "mem_inv t" "length y < length x"
      "follow s (answers x) = (if go then follow t (answers y) else Some (False, t))"
      by (rule turn_follow [OF Suc.prems(1) False])
    show ?thesis
    proof (cases go)
      case True
      obtain q go' v z where "turns n t y = Some (q, go', v, z)" "follow t (answers y) = Some (go', v)" "mem_inv v" "go' \<longrightarrow> z = []"
        using Suc.IH [OF u(2), of y] u(3) Suc.prems(2) by auto
      then show ?thesis using u True by simp
    next
      case False
      then show ?thesis using u by auto
    qed
  qed
qed

lemma turns_append:
  assumes "turns n s x = Some (p, True, t, y)" and "turns m t y = Some (q, go, u, z)"
  shows "turns (n + m) s x = Some (p @ q, go, u, z)"
  using assms(1)
proof (induction n arbitrary: s x p)
  case 0
  then show ?case using assms(2) by simp
next
  case (Suc n)
  then obtain p1 s1 x1 p2 where "turn s x = Some (p1, True, s1, x1)" "turns n s1 x1 = Some (p2, True, t, y)" "p = p1 @ p2"
    by (auto simp: Option.bind_eq_Some_conv split: if_splits)
  then show ?case using Suc.IH by simp
qed

section \<open>Typing a session\<close>

definition num_line :: "int \<Rightarrow> bytes" where
  "num_line i = fmt_d i @ [10]"

fun typed :: "mem \<Rightarrow> (int \<times> int) list \<Rightarrow> bytes" where
  "typed s [] = num_line 0"
| "typed s ((k, i) # cs) = num_line k @ (if asks k s then num_line i else []) @ typed (the (menu (Some k) (Some i) s)) cs"

definition int32 :: "int \<Rightarrow> bool" where
  "int32 i \<longleftrightarrow> - (2 ^ 31) \<le> i \<and> i < 2 ^ 31"

lemma ask_num: "int32 i \<Longrightarrow> ask (num_line i @ r) = (Some i, r)"
  using ask_line [of i r] by (simp add: int32_def num_line_def)

lemma command_typed:
  assumes m: "mem_inv s" and k: "k \<noteq> 0" "int32 i"
  shows "\<exists>p. command k s ((if asks k s then num_line i else []) @ r) = Some (p, the (menu (Some k) (Some i) s), r)"
proof -
  have a: "ask (num_line i @ r) = (Some i, r)" by (rule ask_num [OF k(2)])
  obtain c t where n: "new_process (Some i) s = Some (c, t)" using menu_inv [OF m, of "Some 3" "Some i"] by (auto simp: menu_def)
  have e: "new_process None s = new_process (Some i) s" if "\<not> heap s (heap_tick s)"
    using that by (simp add: new_process_def malloc_ok_def)
  have none: "set_mem_size (Some i) s = (0, s)" if "lock_set_size s" using that by (simp add: set_mem_size_def)
  show ?thesis
    using k a n e none
    by (simp add: asks_def command_def menu_def at_set_mem_size_def at_set_algorithm_def at_new_process_def at_kill_process_def
        at_set_min_slice_def at_toggle_def Let_def case_prod_unfold)
qed

lemma typed_session:
  assumes "mem_inv s" and "\<forall>(k, i) \<in> set cs. k \<noteq> 0 \<and> int32 k \<and> int32 i"
  shows "\<exists>p t. turns (Suc (length cs)) s (typed s cs) = Some (p, False, do_exit t, []) \<and>
    session (map (\<lambda>(k, i). (Some k, Some i)) cs) s = Some t"
  using assms
proof (induction cs arbitrary: s)
  case Nil
  have "int32 0" by (simp add: int32_def)
  from ask_num [OF this, of "[]"] show ?case by (simp add: turn_def)
next
  case (Cons c cs)
  obtain k i where c: "c = (k, i)" by (cases c)
  have k: "k \<noteq> 0" "int32 k" "int32 i" using Cons.prems(2) by (simp_all add: c)
  obtain t where t: "menu (Some k) (Some i) s = Some t" using menu_inv [OF Cons.prems(1)] by blast
  obtain p where p: "command k s ((if asks k s then num_line i else []) @ typed t cs) = Some (p, t, typed t cs)"
    using command_typed [OF Cons.prems(1) k(1,3)] t by (metis option.sel)
  have "turn s (typed s (c # cs)) = Some (display_menu s @ p, True, t, typed t cs)"
    using ask_num [OF k(2)] k(1) p t by (simp add: turn_def c)
  moreover obtain q u where u: "turns (Suc (length cs)) t (typed t cs) = Some (q, False, do_exit u, [])"
    "session (map (\<lambda>(k, i). (Some k, Some i)) cs) t = Some u"
    using Cons.IH [OF menu_keeps [OF Cons.prems(1) t]] Cons.prems(2) by auto
  ultimately have "turns (Suc (length (c # cs))) s (typed s (c # cs)) = Some ((display_menu s @ p) @ q, False, do_exit u, [])"
    using turns_step by (metis length_Cons)
  then show ?case using t k(1) u(2) by (simp add: c del: turns.simps typed.simps)
qed

end
