(* ===== verification/Console_Props.thy ===== *)
theory Console_Props
  imports Console
begin

text \<open>The properties of the simulator's console, from the state the program boots in.\<close>

text \<open>C21: Whatever is typed, the console does exactly what its input says: within as many turns as bytes
  were typed it has read the input line by line, run the menu operation of every numeric choice on the
  number on the next line when the operation asks for one, passed over every line that is no number,
  and stopped at the choice 0. A session without that choice has then read all its input, and
  never ends: each further turn prints the menu again and changes nothing. Any number of turns is
  answered, and the state they reach is consistent.\<close>
theorem console_session:
  "(\<exists>p go t y. turns (length x) (boot_mem h) x = Some (p, go, t, y) \<and> follow (boot_mem h) (answers x) = Some (go, t) \<and> mem_inv t \<and>
      (if go then y = [] \<and> (\<forall>m. turns (length x + m) (boot_mem h) x = Some (p @ concat (replicate m (display_menu t)), True, t, []))
       else (\<forall>m. turns (length x + m) (boot_mem h) x = Some (p, False, t, y)))) \<and>
   (\<exists>p go t y cs. turns n (boot_mem h) x = Some (p, go, t, y) \<and> session cs (boot_mem h) = Some t \<and> mem_inv t)"
proof -
  obtain p go t y where t: "turns (length x) (boot_mem h) x = Some (p, go, t, y)" "follow (boot_mem h) (answers x) = Some (go, t)"
    "mem_inv t" "go \<longrightarrow> y = []"
    using turns_follow [OF boot_mem_inv order_refl] by blast
  have "if go then y = [] \<and> (\<forall>m. turns (length x + m) (boot_mem h) x = Some (p @ concat (replicate m (display_menu t)), True, t, []))
    else (\<forall>m. turns (length x + m) (boot_mem h) x = Some (p, False, t, y))"
  proof (cases go)
    case True
    have y: "y = []" using t(4) True by blast
    have e: "turns (length x) (boot_mem h) x = Some (p, True, t, [])" using t(1) y True by simp
    have "turns (length x + m) (boot_mem h) x = Some (p @ concat (replicate m (display_menu t)), True, t, [])" for m
      by (rule turns_append [OF e turns_eof])
    with y show ?thesis unfolding if_P [OF True] by blast
  next
    case False
    have e: "turns (length x) (boot_mem h) x = Some (p, False, t, y)" using t(1) False by simp
    show ?thesis unfolding if_not_P [OF False] by (rule allI, rule turns_more [OF e le_add1])
  qed
  with t(1-3) have "\<exists>p go t y. turns (length x) (boot_mem h) x = Some (p, go, t, y) \<and> follow (boot_mem h) (answers x) = Some (go, t) \<and> mem_inv t \<and>
      (if go then y = [] \<and> (\<forall>m. turns (length x + m) (boot_mem h) x = Some (p @ concat (replicate m (display_menu t)), True, t, []))
       else (\<forall>m. turns (length x + m) (boot_mem h) x = Some (p, False, t, y)))"
    by (intro exI conjI)
  then show ?thesis using turns_session [OF boot_mem_inv, of n h x] by (intro conjI) (assumption, elim exE conjE, intro exI conjI)
qed

text \<open>C22: Typing is faithful: if a session is typed as the program asks for it, one number to a line, the program
  ends having read exactly what was typed, with the blocks of that session released.\<close>
theorem typed_session_runs:
  assumes "\<forall>(k, i) \<in> set cs. k \<noteq> 0 \<and> int32 k \<and> int32 i"
  shows "\<exists>p t. turns (Suc (length cs)) (boot_mem h) (typed (boot_mem h) cs) = Some (p, False, do_exit t, []) \<and>
    session (map (\<lambda>(k, i). (Some k, Some i)) cs) (boot_mem h) = Some t"
  by (rule typed_session [OF boot_mem_inv assms])

lemma typed_session_runs_witness:
  "\<exists>p t. turns 4 (boot_mem (\<lambda>_. True)) (typed (boot_mem (\<lambda>_. True)) [(3, 100), (3, 200), (4, 1)]) = Some (p, False, do_exit t, []) \<and>
    session [(Some 3, Some 100), (Some 3, Some 200), (Some 4, Some 1)] (boot_mem (\<lambda>_. True)) = Some t"
proof -
  let ?cs = "[(3, 100), (3, 200), (4, 1)] :: (int \<times> int) list"
  have c: "\<forall>(k, i) \<in> set ?cs. k \<noteq> 0 \<and> int32 k \<and> int32 i" by (simp add: int32_def)
  have e: "Suc (length ?cs) = 4" "map (\<lambda>(k, i). (Some k, Some i)) ?cs = [(Some 3, Some 100), (Some 3, Some 200), (Some 4, Some 1)]"
    by simp_all
  from typed_session_runs [OF c] show ?thesis unfolding e .
qed

end
