(* ===== verification/Threads.thy ===== *)
theory Threads
  imports Prelude
begin

text \<open>
  What the two-thread programs of \<open>project1\<close> share: a \<open>main\<close> that creates two threads with
  \<open>pthread_create\<close> and joins them, threads that run a counted loop over one shared counter, and
  the interleaving of the three. A thread's step is an argument, so that each program supplies
  its own worker. Loop counters are \<open>nat\<close> and the counter is \<open>int\<close>: the bounds proved for the
  programs keep it within C's \<open>int\<close> and \<open>long long\<close>.
\<close>

section \<open>State\<close>

text \<open>
  The program counter of a worker: not created yet, at the loop test, before the lock, before
  each access to the counter, before the unlock, returned.
\<close>

datatype pc = Unborn | Test | Acquire | Load | Yield | Add | Store | Release | Finished

datatype main_pc = Create1 | Create2 | Join1 | Join2 | Returned | Exited

record thread =
  pc :: pc
  loop_i :: nat
  tmp :: int

record 'l conf =
  lck :: 'l
  shared :: int
  th1 :: thread
  th2 :: thread
  main_at :: main_pc

text \<open>Who moves next; for \<open>main\<close> also whether \<open>pthread_create\<close> succeeds.\<close>

datatype act = Thr1 | Thr2 | Main_thread bool

type_synonym 'l worker = "thread \<Rightarrow> 'l \<Rightarrow> int \<Rightarrow> (thread \<times> 'l \<times> int) option"

definition new_thread :: thread where
  "new_thread = \<lparr>pc = Unborn, loop_i = 0, tmp = 0\<rparr>"

definition boot_conf :: "'l \<Rightarrow> 'l conf" where
  "boot_conf l = \<lparr>lck = l, shared = 0, th1 = new_thread, th2 = new_thread, main_at = Create1\<rparr>"

section \<open>Steps\<close>

text \<open>
  \<open>main\<close>: a failing \<open>pthread_create\<close> exits the process; a join waits for the thread to return.
\<close>

definition main_step :: "bool \<Rightarrow> 'l conf \<Rightarrow> 'l conf option" where
  "main_step created s =
     (case main_at s of
        Create1 \<Rightarrow> Some (if created then s\<lparr>th1 := (th1 s)\<lparr>pc := Test\<rparr>, main_at := Create2\<rparr> else s\<lparr>main_at := Exited\<rparr>)
      | Create2 \<Rightarrow> Some (if created then s\<lparr>th2 := (th2 s)\<lparr>pc := Test\<rparr>, main_at := Join1\<rparr> else s\<lparr>main_at := Exited\<rparr>)
      | Join1 \<Rightarrow> if pc (th1 s) = Finished then Some (s\<lparr>main_at := Join2\<rparr>) else None
      | Join2 \<Rightarrow> if pc (th2 s) = Finished then Some (s\<lparr>main_at := Returned\<rparr>) else None
      | Returned \<Rightarrow> None
      | Exited \<Rightarrow> None)"

definition ended :: "'l conf \<Rightarrow> bool" where
  "ended s \<longleftrightarrow> main_at s = Returned \<or> main_at s = Exited"

definition next_conf :: "'l worker \<Rightarrow> 'l worker \<Rightarrow> act \<Rightarrow> 'l conf \<Rightarrow> 'l conf option" where
  "next_conf w1 w2 a s =
     (if ended s then None
      else case a of
        Thr1 \<Rightarrow> (case w1 (th1 s) (lck s) (shared s) of
                   None \<Rightarrow> None
                 | Some (t, l, g) \<Rightarrow> Some (s\<lparr>th1 := t, lck := l, shared := g\<rparr>))
      | Thr2 \<Rightarrow> (case w2 (th2 s) (lck s) (shared s) of
                   None \<Rightarrow> None
                 | Some (t, l, g) \<Rightarrow> Some (s\<lparr>th2 := t, lck := l, shared := g\<rparr>))
      | Main_thread created \<Rightarrow> main_step created s)"

inductive step :: "'l worker \<Rightarrow> 'l worker \<Rightarrow> 'l conf \<Rightarrow> 'l conf \<Rightarrow> bool" for w1 w2 where
  thr1: "\<not> ended s \<Longrightarrow> w1 (th1 s) (lck s) (shared s) = Some (t, l, g) \<Longrightarrow>
         step w1 w2 s (s\<lparr>th1 := t, lck := l, shared := g\<rparr>)"
| thr2: "\<not> ended s \<Longrightarrow> w2 (th2 s) (lck s) (shared s) = Some (t, l, g) \<Longrightarrow>
         step w1 w2 s (s\<lparr>th2 := t, lck := l, shared := g\<rparr>)"
| main: "\<not> ended s \<Longrightarrow> main_step created s = Some s' \<Longrightarrow> step w1 w2 s s'"

inductive_cases stepE [elim]: "step w1 w2 s t"

inductive reachable :: "'l worker \<Rightarrow> 'l worker \<Rightarrow> 'l \<Rightarrow> 'l conf \<Rightarrow> bool" for w1 w2 l where
  boot: "reachable w1 w2 l (boot_conf l)"
| move: "reachable w1 w2 l s \<Longrightarrow> step w1 w2 s t \<Longrightarrow> reachable w1 w2 l t"

text \<open>A schedule runs whoever it names; a thread that cannot move is passed over.\<close>

fun run :: "'l worker \<Rightarrow> 'l worker \<Rightarrow> act list \<Rightarrow> 'l conf \<Rightarrow> 'l conf" where
  "run w1 w2 [] s = s"
| "run w1 w2 (a # as) s = run w1 w2 as (case next_conf w1 w2 a s of None \<Rightarrow> s | Some t \<Rightarrow> t)"

lemma step_next: "step w1 w2 s t \<longleftrightarrow> (\<exists>a. next_conf w1 w2 a s = Some t)"
proof
  assume "step w1 w2 s t"
  then show "\<exists>a. next_conf w1 w2 a s = Some t"
  proof cases
    case (thr1 x l g)
    then show ?thesis by (intro exI [of _ Thr1]) (simp add: next_conf_def)
  next
    case (thr2 x l g)
    then show ?thesis by (intro exI [of _ Thr2]) (simp add: next_conf_def)
  next
    case (main created)
    then show ?thesis by (intro exI [of _ "Main_thread created"]) (simp add: next_conf_def)
  qed
next
  assume "\<exists>a. next_conf w1 w2 a s = Some t"
  then obtain a where "next_conf w1 w2 a s = Some t" by blast
  then show "step w1 w2 s t"
    by (cases a) (auto simp: next_conf_def intro: step.intros split: if_splits option.splits prod.splits)
qed

lemma run_append [simp]: "run w1 w2 (as @ bs) s = run w1 w2 bs (run w1 w2 as s)"
  by (induction as arbitrary: s) auto

lemma reachable_run: "reachable w1 w2 l s \<Longrightarrow> reachable w1 w2 l (run w1 w2 as s)"
proof (induction as arbitrary: s)
  case (Cons a as)
  have "reachable w1 w2 l t" if "next_conf w1 w2 a s = Some t" for t
    using Cons.prems that by (meson reachable.move step_next)
  then show ?case using Cons by (auto split: option.split)
qed simp

lemma reachable_boot_run: "reachable w1 w2 l (run w1 w2 as (boot_conf l))"
  by (rule reachable_run) (rule reachable.boot)

text \<open>\<open>main\<close> only leaves through \<open>exit(1)\<close> when a \<open>pthread_create\<close> fails.\<close>

lemma run_not_exited:
  "main_at s \<noteq> Exited \<Longrightarrow> Main_thread False \<notin> set as \<Longrightarrow> main_at (run w1 w2 as s) \<noteq> Exited"
proof (induction as arbitrary: s)
  case (Cons a as)
  have "main_at t \<noteq> Exited" if "next_conf w1 w2 a s = Some t" for t
    using that Cons.prems
    by (cases a; cases "main_at s") (auto simp: next_conf_def main_step_def split: if_splits option.splits)
  then show ?case using Cons by (auto split: option.split)
qed simp

section \<open>What \<open>main\<close> guarantees\<close>

text \<open>\<open>main\<close> only touches threads that have not started, and returns when both have finished.\<close>

definition main_ok :: "'l conf \<Rightarrow> bool" where
  "main_ok s \<longleftrightarrow>
     (case main_at s of
        Create1 \<Rightarrow> th1 s = new_thread \<and> th2 s = new_thread
      | Create2 \<Rightarrow> pc (th1 s) \<noteq> Unborn \<and> th2 s = new_thread
      | Join1 \<Rightarrow> pc (th1 s) \<noteq> Unborn \<and> pc (th2 s) \<noteq> Unborn
      | Join2 \<Rightarrow> pc (th1 s) = Finished \<and> pc (th2 s) \<noteq> Unborn
      | Returned \<Rightarrow> pc (th1 s) = Finished \<and> pc (th2 s) = Finished
      | Exited \<Rightarrow> True)"

text \<open>A worker does nothing before it is created or after it has returned, and is never unborn again.\<close>

definition worker_ok :: "'l worker \<Rightarrow> bool" where
  "worker_ok w \<longleftrightarrow> (\<forall>t l g. (pc t = Unborn \<or> pc t = Finished \<longrightarrow> w t l g = None) \<and>
     (\<forall>t' l' g'. w t l g = Some (t', l', g') \<longrightarrow> pc t' \<noteq> Unborn))"

lemma main_step_threads:
  assumes "main_step created s = Some t" and "main_ok s"
  shows "lck t = lck s" "shared t = shared s" "th1 t = th1 s \<or> th1 s = new_thread \<and> th1 t = new_thread\<lparr>pc := Test\<rparr>"
    "th2 t = th2 s \<or> th2 s = new_thread \<and> th2 t = new_thread\<lparr>pc := Test\<rparr>"
  using assms by (cases "main_at s"; auto simp: main_step_def main_ok_def split: if_splits)+

lemma main_ok_boot: "main_ok (boot_conf l)"
  by (simp add: main_ok_def boot_conf_def)

lemma main_ok_step:
  assumes "worker_ok w1" "worker_ok w2" and "step w1 w2 s t" and "main_ok s"
  shows "main_ok t"
  using assms(3)
proof cases
  case (thr1 x l g)
  then have "pc x \<noteq> Unborn" "pc (th1 s) \<noteq> Unborn" "pc (th1 s) \<noteq> Finished"
    using assms(1) unfolding worker_ok_def by (metis option.distinct(1))+
  then show ?thesis using thr1 assms(4) by (auto simp: main_ok_def new_thread_def split: main_pc.splits)
next
  case (thr2 x l g)
  then have "pc x \<noteq> Unborn" "pc (th2 s) \<noteq> Unborn" "pc (th2 s) \<noteq> Finished"
    using assms(2) unfolding worker_ok_def by (metis option.distinct(1))+
  then show ?thesis using thr2 assms(4) by (auto simp: main_ok_def new_thread_def split: main_pc.splits)
next
  case (main created)
  then show ?thesis using assms(4) by (auto simp: main_ok_def main_step_def split: main_pc.splits if_splits)
qed

end
