(* ===== verification/Locks.thy ===== *)
theory Locks
  imports Threads
begin

text \<open>
  \<open>project1/part3/spinlock.c\<close> and \<open>project1/part2/step2_semaphore.c\<close>: two threads add to a shared
  counter inside a critical section. The locks provide the locale \<open>mutex\<close>; mutual exclusion, the
  final value and progress are proved once from it.
\<close>

section \<open>The two locks\<close>

text \<open>
  An attempt to enter says whether it succeeded. The spin lock's is one turn of its \<open>while\<close>: the
  atomic test-and-set leaves 1 in the flag and succeeds when it was 0. A semaphore at 0 blocks.
\<close>

type_synonym spinlock_t = int

definition spinlock_init :: "spinlock_t" where
  "spinlock_init = 0"

definition test_and_set :: "int \<Rightarrow> spinlock_t \<Rightarrow> int \<times> spinlock_t" where
  "test_and_set v flag = (flag, v)"

definition spinlock_lock :: "spinlock_t \<Rightarrow> bool \<times> spinlock_t" where
  "spinlock_lock flag = (let (old, flag') = test_and_set 1 flag in (old = 0, flag'))"

definition spinlock_unlock :: "spinlock_t \<Rightarrow> spinlock_t" where
  "spinlock_unlock flag = 0"

definition P :: "nat \<Rightarrow> bool \<times> nat" where
  "P x = (if x > 0 then (True, x - 1) else (False, x))"

definition V :: "nat \<Rightarrow> nat" where
  "V x = x + 1"

section \<open>The workers\<close>

text \<open>
  One step of \<open>for (i = 0; i < n; i++) { lock; tmp = g; tmp += d; g = tmp; unlock; }\<close>; \<open>shared_value++\<close>
  is a load, an addition and a store too.
\<close>

definition locked_worker :: "('l \<Rightarrow> bool \<times> 'l) \<Rightarrow> ('l \<Rightarrow> 'l) \<Rightarrow> nat \<Rightarrow> int \<Rightarrow> 'l worker" where
  "locked_worker lock unlock n d t l g =
     (case pc t of
        Test \<Rightarrow> Some (t\<lparr>pc := if loop_i t < n then Acquire else Finished\<rparr>, l, g)
      | Acquire \<Rightarrow> (let (ok, l') = lock l in Some (if ok then t\<lparr>pc := Load\<rparr> else t, l', g))
      | Load \<Rightarrow> Some (t\<lparr>pc := Add, tmp := g\<rparr>, l, g)
      | Add \<Rightarrow> Some (t\<lparr>pc := Store, tmp := tmp t + d\<rparr>, l, g)
      | Store \<Rightarrow> Some (t\<lparr>pc := Release\<rparr>, l, tmp t)
      | Release \<Rightarrow> Some (t\<lparr>pc := Test, loop_i := loop_i t + 1\<rparr>, unlock l, g)
      | Unborn \<Rightarrow> None
      | Yield \<Rightarrow> None
      | Finished \<Rightarrow> None)"

definition spin_N :: nat where "spin_N = 5000"

definition thread_function :: "nat \<Rightarrow> spinlock_t worker" where
  "thread_function n = locked_worker spinlock_lock spinlock_unlock n 1"

definition sem_N :: nat where "sem_N = 100000"

definition add_worker :: "nat \<Rightarrow> nat worker" where
  "add_worker n = locked_worker P V n 100"

definition sub_worker :: "nat \<Rightarrow> nat worker" where
  "sub_worker n = locked_worker P V n (- 100)"

section \<open>Mutual exclusion from the contract of a lock\<close>

definition in_cs :: "thread \<Rightarrow> bool" where
  "in_cs t \<longleftrightarrow> pc t = Load \<or> pc t = Add \<or> pc t = Store \<or> pc t = Release"

text \<open>Iterations whose store has happened.\<close>

definition worked :: "thread \<Rightarrow> nat" where
  "worked t = (if pc t = Release then Suc (loop_i t) else loop_i t)"

definition thread_ok :: "nat \<Rightarrow> int \<Rightarrow> int \<Rightarrow> thread \<Rightarrow> bool" where
  "thread_ok n d g t \<longleftrightarrow> loop_i t \<le> n \<and> (in_cs t \<or> pc t = Acquire \<longrightarrow> loop_i t < n) \<and>
     (pc t = Finished \<longrightarrow> loop_i t = n) \<and> (pc t = Add \<longrightarrow> tmp t = g) \<and> (pc t = Store \<longrightarrow> tmp t = g + d) \<and> pc t \<noteq> Yield"

definition lock_inv :: "('l \<Rightarrow> bool) \<Rightarrow> ('l \<Rightarrow> bool) \<Rightarrow> nat \<Rightarrow> int \<Rightarrow> int \<Rightarrow> 'l conf \<Rightarrow> bool" where
  "lock_inv free held n d1 d2 s \<longleftrightarrow>
     (free (lck s) \<and> \<not> in_cs (th1 s) \<and> \<not> in_cs (th2 s) \<or> held (lck s) \<and> in_cs (th1 s) \<noteq> in_cs (th2 s)) \<and>
     thread_ok n d1 (shared s) (th1 s) \<and> thread_ok n d2 (shared s) (th2 s) \<and>
     shared s = int (worked (th1 s)) * d1 + int (worked (th2 s)) * d2 \<and> main_ok s"

text \<open>How many steps are left at most; only an attempt at a held lock does not come nearer to the end.\<close>

fun pc_rank :: "pc \<Rightarrow> nat" where
  "pc_rank Unborn = 8" | "pc_rank Test = 7" | "pc_rank Acquire = 6" | "pc_rank Load = 5" | "pc_rank Yield = 4"
| "pc_rank Add = 3" | "pc_rank Store = 2" | "pc_rank Release = 1" | "pc_rank Finished = 0"

fun main_rank :: "main_pc \<Rightarrow> nat" where
  "main_rank Create1 = 4" | "main_rank Create2 = 3" | "main_rank Join1 = 2" | "main_rank Join2 = 1"
| "main_rank Returned = 0" | "main_rank Exited = 0"

definition thread_rank :: "nat \<Rightarrow> thread \<Rightarrow> nat" where
  "thread_rank n t = 8 * (n - loop_i t) + pc_rank (pc t)"

definition conf_rank :: "nat \<Rightarrow> 'l conf \<Rightarrow> nat" where
  "conf_rank n s = thread_rank n (th1 s) + thread_rank n (th2 s) + main_rank (main_at s)"

lemma locked_worker_ok: "worker_ok (locked_worker lock unlock n d)"
  by (auto simp: worker_ok_def locked_worker_def split: pc.splits prod.splits if_splits)

lemma thread_ok_created:
  "thread_ok n d g u \<Longrightarrow> v = u \<or> u = new_thread \<and> v = new_thread\<lparr>pc := Test\<rparr> \<Longrightarrow> thread_ok n d g v"
  by (elim disjE conjE) (simp_all add: thread_ok_def new_thread_def in_cs_def)

locale mutex =
  fixes lock :: "'l \<Rightarrow> bool \<times> 'l" and unlock :: "'l \<Rightarrow> 'l" and free held :: "'l \<Rightarrow> bool"
  assumes lock_free: "free l \<Longrightarrow> fst (lock l) \<and> held (snd (lock l))"
    and lock_held: "held l \<Longrightarrow> \<not> fst (lock l) \<and> held (snd (lock l))"
    and unlock_held: "held l \<Longrightarrow> free (unlock l)"
begin

text \<open>One step of a worker against the other thread, which is symmetric.\<close>

lemma worker_step:
  assumes w: "locked_worker lock unlock n d t l g = Some (t', l', g')"
    and l: "free l \<and> \<not> in_cs t \<and> \<not> in_cs u \<or> held l \<and> in_cs t \<noteq> in_cs u"
    and t: "thread_ok n d g t" and u: "thread_ok n e g u"
    and g: "g = int (worked t) * d + int (worked u) * e"
  shows "(free l' \<and> \<not> in_cs t' \<and> \<not> in_cs u \<or> held l' \<and> in_cs t' \<noteq> in_cs u) \<and> thread_ok n d g' t' \<and> thread_ok n e g' u \<and>
    g' = int (worked t') * d + int (worked u) * e"
proof -
  obtain ok lk where lk: "lock l = (ok, lk)" by fastforce
  have "free l \<Longrightarrow> ok \<and> held lk" "held l \<Longrightarrow> \<not> ok \<and> held lk" "held l \<Longrightarrow> free (unlock l)"
    using lock_free [of l] lock_held [of l] unlock_held [of l] lk by simp_all
  then have x: "free l' \<and> \<not> in_cs t' \<and> \<not> in_cs u \<or> held l' \<and> in_cs t' \<noteq> in_cs u"
    using w l by (cases "pc t"; cases "in_cs u"; cases ok) (simp_all add: locked_worker_def in_cs_def lk split: if_splits, auto)
  have y: "thread_ok n d g' t'"
    using w t by (cases "pc t") (auto simp: locked_worker_def in_cs_def thread_ok_def split: prod.splits if_splits)
  have "g' = g \<and> worked t' = worked t \<or> g' = g + d \<and> worked t' = Suc (worked t)"
    using w t by (cases "pc t") (auto simp: locked_worker_def thread_ok_def worked_def split: prod.splits if_splits)
  then have z: "g' = int (worked t') * d + int (worked u) * e"
    using g by (elim disjE conjE) (simp_all add: algebra_simps)
  have "g' = g \<or> pc t = Store" using w by (auto simp: locked_worker_def split: pc.splits prod.splits)
  then have "thread_ok n e g' u"
    using u l by (auto simp: in_cs_def thread_ok_def)
  with x y z show ?thesis by blast
qed

lemma inv_boot: "free l \<Longrightarrow> lock_inv free held n d1 d2 (boot_conf l)"
  by (simp add: lock_inv_def boot_conf_def new_thread_def in_cs_def thread_ok_def worked_def main_ok_def)

lemma inv_step:
  assumes i: "lock_inv free held n d1 d2 s"
    and s: "step (locked_worker lock unlock n d1) (locked_worker lock unlock n d2) s t"
  shows "lock_inv free held n d1 d2 t"
proof -
  note I = i [unfolded lock_inv_def]
  have m: "main_ok t" using main_ok_step [OF locked_worker_ok locked_worker_ok s] I by blast
  from s show ?thesis
  proof cases
    case (thr1 x l g)
    have "(free l \<and> \<not> in_cs x \<and> \<not> in_cs (th2 s) \<or> held l \<and> in_cs x \<noteq> in_cs (th2 s)) \<and> thread_ok n d1 g x \<and>
      thread_ok n d2 g (th2 s) \<and> g = int (worked x) * d1 + int (worked (th2 s)) * d2"
      using worker_step [OF thr1(3), of "th2 s" d2] I by blast
    moreover have "lck t = l" "shared t = g" "th1 t = x" "th2 t = th2 s" using thr1(1) by simp_all
    ultimately show ?thesis using m unfolding lock_inv_def by metis
  next
    case (thr2 x l g)
    have "(free l \<and> \<not> in_cs x \<and> \<not> in_cs (th1 s) \<or> held l \<and> in_cs x \<noteq> in_cs (th1 s)) \<and> thread_ok n d2 g x \<and>
      thread_ok n d1 g (th1 s) \<and> g = int (worked x) * d2 + int (worked (th1 s)) * d1"
      using worker_step [OF thr2(3), of "th1 s" d1] I by (metis add.commute)
    moreover have "lck t = l" "shared t = g" "th2 t = x" "th1 t = th1 s" using thr2(1) by simp_all
    ultimately show ?thesis using m unfolding lock_inv_def by (metis add.commute)
  next
    case (main created)
    have "main_ok s" using I by blast
    note f = main_step_threads [OF main(2) this]
    have e: "in_cs (th1 t) = in_cs (th1 s)" "in_cs (th2 t) = in_cs (th2 s)" "worked (th1 t) = worked (th1 s)"
      "worked (th2 t) = worked (th2 s)"
      using f(3,4) by (auto simp: new_thread_def in_cs_def worked_def)
    have "thread_ok n d1 (shared s) (th1 t)" "thread_ok n d2 (shared s) (th2 t)"
      using I thread_ok_created f(3,4) by blast+
    then show ?thesis using I m unfolding lock_inv_def f(1,2) e by blast
  qed
qed

lemma inv_reachable:
  assumes "free l" and "reachable (locked_worker lock unlock n d1) (locked_worker lock unlock n d2) l s"
  shows "lock_inv free held n d1 d2 s"
  using assms(2) by induction (use inv_boot [OF assms(1)] inv_step in blast)+

lemma never_both: "lock_inv free held n d1 d2 s \<Longrightarrow> \<not> (in_cs (th1 s) \<and> in_cs (th2 s))"
  by (auto simp: lock_inv_def)

lemma final_value: "lock_inv free held n d1 d2 s \<Longrightarrow> main_at s = Returned \<Longrightarrow> shared s = int n * (d1 + d2)"
  by (simp add: lock_inv_def main_ok_def thread_ok_def worked_def algebra_simps)


text \<open>A thread that has started and not returned can move on, unless it waits for a held lock.\<close>

lemma worker_moves:
  assumes t: "thread_ok n d g t" "pc t \<noteq> Unborn" "pc t \<noteq> Finished" and l: "pc t = Acquire \<Longrightarrow> free l"
  shows "\<exists>t' l' g'. locked_worker lock unlock n d t l g = Some (t', l', g') \<and> thread_rank n t' < thread_rank n t"
proof (cases "pc t = Acquire")
  case True
  then have "fst (lock l)" using l lock_free by blast
  then show ?thesis using True by (auto simp: locked_worker_def thread_rank_def split: prod.split)
next
  case False
  then show ?thesis using t by (cases "pc t") (auto simp: locked_worker_def thread_rank_def thread_ok_def in_cs_def)
qed

lemma progress:
  assumes i: "lock_inv free held n d1 d2 s" and e: "\<not> ended s"
  shows "\<exists>a t. next_conf (locked_worker lock unlock n d1) (locked_worker lock unlock n d2) a s = Some t \<and>
    conf_rank n t < conf_rank n s \<and> main_at t \<noteq> Exited"
proof -
  let ?w1 = "locked_worker lock unlock n d1" and ?w2 = "locked_worker lock unlock n d2"
  note I = i [unfolded lock_inv_def]
  have move1: ?thesis if "pc (th1 s) \<noteq> Unborn" "pc (th1 s) \<noteq> Finished" "pc (th1 s) = Acquire \<Longrightarrow> free (lck s)"
  proof -
    have "thread_ok n d1 (shared s) (th1 s)" using I by blast
    from worker_moves [OF this that] obtain t l g where
      w: "?w1 (th1 s) (lck s) (shared s) = Some (t, l, g)" "thread_rank n t < thread_rank n (th1 s)"
      by blast
    then show ?thesis using e by (intro exI [of _ Thr1]) (auto simp: next_conf_def conf_rank_def ended_def)
  qed
  have move2: ?thesis if "pc (th2 s) \<noteq> Unborn" "pc (th2 s) \<noteq> Finished" "pc (th2 s) = Acquire \<Longrightarrow> free (lck s)"
  proof -
    have "thread_ok n d2 (shared s) (th2 s)" using I by blast
    from worker_moves [OF this that] obtain t l g where
      w: "?w2 (th2 s) (lck s) (shared s) = Some (t, l, g)" "thread_rank n t < thread_rank n (th2 s)"
      by blast
    then show ?thesis using e by (intro exI [of _ Thr2]) (auto simp: next_conf_def conf_rank_def ended_def)
  qed
  have cs: "in_cs u \<Longrightarrow> pc u \<noteq> Unborn \<and> pc u \<noteq> Finished \<and> pc u \<noteq> Acquire" for u by (auto simp: in_cs_def)
  have both: ?thesis if "pc (th1 s) \<noteq> Unborn" "pc (th2 s) \<noteq> Unborn" "pc (th1 s) \<noteq> Finished \<or> pc (th2 s) \<noteq> Finished"
  proof -
    have "free (lck s) \<or> in_cs (th1 s) \<or> in_cs (th2 s)" using I by blast
    then show ?thesis using move1 move2 cs that by blast
  qed
  have go: ?thesis if "main_step True s = Some t" "conf_rank n t < conf_rank n s" "main_at t \<noteq> Exited" for t
    using that e by (intro exI [of _ "Main_thread True"]) (auto simp: next_conf_def)
  show ?thesis
  proof (cases "main_at s")
    case Create1
    then show ?thesis using I by (intro go) (auto simp: main_step_def conf_rank_def thread_rank_def main_ok_def new_thread_def)
  next
    case Create2
    then show ?thesis using I by (intro go) (auto simp: main_step_def conf_rank_def thread_rank_def main_ok_def new_thread_def)
  next
    case Join1
    show ?thesis
    proof (cases "pc (th1 s) = Finished")
      case True
      then show ?thesis using Join1 by (intro go) (auto simp: main_step_def conf_rank_def)
    next
      case False
      then show ?thesis using both Join1 I by (simp add: main_ok_def)
    qed
  next
    case Join2
    show ?thesis
    proof (cases "pc (th2 s) = Finished")
      case True
      then show ?thesis using Join2 by (intro go) (auto simp: main_step_def conf_rank_def)
    next
      case False
      then show ?thesis using both Join2 I by (simp add: main_ok_def)
    qed
  qed (use e in \<open>simp_all add: ended_def\<close>)
qed

text \<open>From every state of the invariant the program can still run to its end: there is no deadlock.\<close>

lemma completes:
  assumes "lock_inv free held n d1 d2 s" and "main_at s \<noteq> Exited"
  shows "\<exists>as. main_at (run (locked_worker lock unlock n d1) (locked_worker lock unlock n d2) as s) = Returned"
  using assms
proof (induction "conf_rank n s" arbitrary: s rule: less_induct)
  case less
  show ?case
  proof (cases "ended s")
    case True
    then show ?thesis using less.prems by (intro exI [of _ "[]"]) (simp add: ended_def)
  next
    case False
    then obtain a t where a: "next_conf (locked_worker lock unlock n d1) (locked_worker lock unlock n d2) a s = Some t"
      "conf_rank n t < conf_rank n s" "main_at t \<noteq> Exited" using progress less.prems(1) by blast
    then have "lock_inv free held n d1 d2 t" using inv_step [OF less.prems(1)] step_next by blast
    from less.hyps [OF a(2) this a(3)] obtain as where
      "main_at (run (locked_worker lock unlock n d1) (locked_worker lock unlock n d2) as t) = Returned" by blast
    then show ?thesis using a(1) by (intro exI [of _ "a # as"]) simp
  qed
qed

end

section \<open>Both locks keep the contract\<close>

interpretation spin: mutex spinlock_lock spinlock_unlock "\<lambda>f. f = 0" "\<lambda>f. f = 1"
  by unfold_locales (auto simp: spinlock_lock_def spinlock_unlock_def test_and_set_def)

interpretation sem: mutex P V "\<lambda>v. v = 1" "\<lambda>v. v = 0"
  by unfold_locales (auto simp: P_def V_def)

text \<open>
  The two programs. The semaphore starts at 1, the flag at 0; in both at most one thread is
  between lock and unlock, and nothing is lost. A failing \<open>sem_init\<close> ends \<open>step2_semaphore.c\<close>
  before it creates a thread, the static semaphore still 0.
\<close>

definition spin_program :: "nat \<Rightarrow> spinlock_t conf \<Rightarrow> bool" where
  "spin_program n = reachable (thread_function n) (thread_function n) spinlock_init"

definition sem_failed :: "nat conf" where
  "sem_failed = (boot_conf 0)\<lparr>main_at := Exited\<rparr>"

definition sem_program :: "nat \<Rightarrow> nat conf \<Rightarrow> bool" where
  "sem_program n s \<longleftrightarrow> (\<exists>init_ok. if init_ok then reachable (add_worker n) (sub_worker n) 1 s else s = sem_failed)"

lemma spin_inv: "spin_program n s \<Longrightarrow> lock_inv (\<lambda>f. f = 0) (\<lambda>f. f = 1) n 1 1 s"
  using spin.inv_reachable [of spinlock_init n 1 1 s] by (simp add: spin_program_def thread_function_def spinlock_init_def)

lemma sem_program_cases:
  assumes "sem_program n s"
  obtains "reachable (add_worker n) (sub_worker n) 1 s" | "s = sem_failed"
  using assms by (auto simp: sem_program_def split: if_splits)

lemma sem_programI: "reachable (add_worker n) (sub_worker n) 1 s \<Longrightarrow> sem_program n s"
  unfolding sem_program_def by (rule exI [of _ True]) simp

lemma sem_inv:
  "reachable (add_worker n) (sub_worker n) 1 s \<Longrightarrow> lock_inv (\<lambda>v. v = 1) (\<lambda>v. v = 0) n 100 (- 100) s"
  using sem.inv_reachable [of 1 n 100 "- 100" s] by (simp add: add_worker_def sub_worker_def)

end
