(* ===== verification/Race.thy ===== *)
theory Race
  imports Threads
begin

text \<open>
  \<open>project1/part2/step1_race.c\<close>: the same two workers without a lock. The bounds that still hold,
  and the schedule that loses every addition of the first thread.
\<close>

text \<open>One step of the loop; every 1024th turn yields the processor between the load and the store.\<close>

definition race_worker :: "nat \<Rightarrow> int \<Rightarrow> unit worker" where
  "race_worker n d t l g =
     (case pc t of
        Test \<Rightarrow> Some (t\<lparr>pc := if loop_i t < n then Load else Finished\<rparr>, l, g)
      | Load \<Rightarrow> Some (t\<lparr>pc := if loop_i t mod 1024 = 0 then Yield else Add, tmp := g\<rparr>, l, g)
      | Yield \<Rightarrow> Some (t\<lparr>pc := Add\<rparr>, l, g)
      | Add \<Rightarrow> Some (t\<lparr>pc := Store, tmp := tmp t + d\<rparr>, l, g)
      | Store \<Rightarrow> Some (t\<lparr>pc := Test, loop_i := loop_i t + 1\<rparr>, l, tmp t)
      | Unborn \<Rightarrow> None
      | Acquire \<Rightarrow> None
      | Release \<Rightarrow> None
      | Finished \<Rightarrow> None)"

definition race_N :: nat where "race_N = 100000"

definition race_add :: "nat \<Rightarrow> unit worker" where
  "race_add n = race_worker n 100"

definition race_sub :: "nat \<Rightarrow> unit worker" where
  "race_sub n = race_worker n (- 100)"

definition race_program :: "nat \<Rightarrow> unit conf \<Rightarrow> bool" where
  "race_program n = reachable (race_add n) (race_sub n) ()"

lemma race_worker_ok: "worker_ok (race_worker n d)"
  by (auto simp: worker_ok_def race_worker_def split: pc.splits)

section \<open>Bounds\<close>

text \<open>
  Whatever is in the counter or in a thread's copy lies between what the subtractions alone and
  what the additions alone would give, and is a multiple of 100.
\<close>

definition within :: "nat \<Rightarrow> nat \<Rightarrow> int \<Rightarrow> bool" where
  "within a b v \<longleftrightarrow> - 100 * int b \<le> v \<and> v \<le> 100 * int a \<and> 100 dvd v"

definition copies :: "thread \<Rightarrow> bool" where
  "copies t \<longleftrightarrow> pc t = Yield \<or> pc t = Add \<or> pc t = Store"

text \<open>Between the addition and the store the next turn's contribution is already in the copy.\<close>

definition ahead :: "thread \<Rightarrow> nat" where
  "ahead t = (if pc t = Store then Suc (loop_i t) else loop_i t)"

definition race_inv :: "nat \<Rightarrow> unit conf \<Rightarrow> bool" where
  "race_inv n s \<longleftrightarrow>
     within (loop_i (th1 s)) (loop_i (th2 s)) (shared s) \<and>
     (copies (th1 s) \<longrightarrow> within (ahead (th1 s)) (loop_i (th2 s)) (tmp (th1 s))) \<and>
     (copies (th2 s) \<longrightarrow> within (loop_i (th1 s)) (ahead (th2 s)) (tmp (th2 s))) \<and>
     loop_i (th1 s) \<le> n \<and> loop_i (th2 s) \<le> n \<and>
     (copies (th1 s) \<or> pc (th1 s) = Load \<longrightarrow> loop_i (th1 s) < n) \<and>
     (copies (th2 s) \<or> pc (th2 s) = Load \<longrightarrow> loop_i (th2 s) < n)"

lemma within_mono: "within a b v \<Longrightarrow> a \<le> a' \<Longrightarrow> b \<le> b' \<Longrightarrow> within a' b' v"
  by (auto simp: within_def)

lemma within_add: "within a b v \<Longrightarrow> within (Suc a) b (v + 100)"
  by (auto simp: within_def)

lemma within_sub: "within a b v \<Longrightarrow> within a (Suc b) (v - 100)"
  by (auto simp: within_def)

text \<open>What a step of a worker with increment \<open>d\<close> does to its own copy and to the counter.\<close>

lemma race_worker_cases:
  assumes "race_worker n d t l g = Some (t', l', g')"
  shows "g' = g \<and> pc t = Test \<and> loop_i t' = loop_i t \<and> \<not> copies t' \<and> (pc t' = Load \<longrightarrow> loop_i t < n) \<or>
    g' = g \<and> pc t = Load \<and> loop_i t' = loop_i t \<and> copies t' \<and> ahead t' = loop_i t' \<and> tmp t' = g \<or>
    g' = g \<and> copies t \<and> loop_i t' = loop_i t \<and> copies t' \<and> ahead t = loop_i t \<and> ahead t' = loop_i t \<and> tmp t' = tmp t \<or>
    g' = g \<and> copies t \<and> loop_i t' = loop_i t \<and> copies t' \<and> ahead t = loop_i t \<and> ahead t' = Suc (loop_i t) \<and> tmp t' = tmp t + d \<or>
    g' = tmp t \<and> copies t \<and> ahead t = Suc (loop_i t) \<and> loop_i t' = Suc (loop_i t) \<and> \<not> copies t' \<and> pc t' = Test"
  using assms by (cases "pc t") (auto simp: race_worker_def copies_def ahead_def split: if_splits)

lemma race_inv_thr1:
  assumes i: "race_inv n s" and w: "race_add n (th1 s) l (shared s) = Some (t, l', g)"
  shows "race_inv n (s\<lparr>th1 := t, lck := l', shared := g\<rparr>)"
  using race_worker_cases [OF w [unfolded race_add_def]] i
  by (elim disjE conjE) (auto simp: race_inv_def intro: within_add within_mono)

lemma race_inv_thr2:
  assumes i: "race_inv n s" and w: "race_sub n (th2 s) l (shared s) = Some (t, l', g)"
  shows "race_inv n (s\<lparr>th2 := t, lck := l', shared := g\<rparr>)"
  using race_worker_cases [OF w [unfolded race_sub_def]] i
  by (elim disjE conjE) (auto simp: race_inv_def intro: within_sub within_mono)

lemma race_inv_created:
  assumes "race_inv n s" and "lck t = lck s" "shared t = shared s"
    and "th1 t = th1 s \<or> th1 s = new_thread \<and> th1 t = new_thread\<lparr>pc := Test\<rparr>"
    and "th2 t = th2 s \<or> th2 s = new_thread \<and> th2 t = new_thread\<lparr>pc := Test\<rparr>"
  shows "race_inv n t"
  using assms by (elim disjE conjE) (simp_all add: race_inv_def copies_def new_thread_def)

lemma race_inv:
  assumes "race_program n s"
  shows "race_inv n s \<and> main_ok s"
  using assms unfolding race_program_def
proof induction
  case boot
  show ?case by (simp add: main_ok_boot) (simp add: race_inv_def boot_conf_def new_thread_def copies_def within_def)
next
  case (move s t)
  have m: "main_ok t"
    using main_ok_step [OF race_worker_ok race_worker_ok, of n 100 n "- 100" s t] move by (simp add: race_add_def race_sub_def)
  from move(2) have "race_inv n t"
  proof cases
    case (thr1 x l g)
    then show ?thesis using race_inv_thr1 move(3) by simp
  next
    case (thr2 x l g)
    then show ?thesis using race_inv_thr2 move(3) by simp
  next
    case (main created)
    have "main_ok s" using move(3) by blast
    from race_inv_created [OF _ main_step_threads [OF main(2) this]] show ?thesis using move(3) by blast
  qed
  with m show ?case by blast
qed

section \<open>Lost updates\<close>

text \<open>A thread that runs alone: its own state, the lock and the counter after \<open>k\<close> of its steps.\<close>

fun alone :: "'l worker \<Rightarrow> nat \<Rightarrow> thread \<times> 'l \<times> int \<Rightarrow> thread \<times> 'l \<times> int" where
  "alone w 0 x = x"
| "alone w (Suc k) (t, l, g) = (case w t l g of None \<Rightarrow> (t, l, g) | Some y \<Rightarrow> alone w k y)"

lemma alone_numeral:
  "alone w (numeral k) (t, l, g) = (case w t l g of None \<Rightarrow> (t, l, g) | Some y \<Rightarrow> alone w (pred_numeral k) y)"
  by (simp add: numeral_eq_Suc)

lemma alone_None: "w t l g = None \<Longrightarrow> alone w k (t, l, g) = (t, l, g)"
  by (cases k) auto

lemma alone_add: "alone w (j + k) x = alone w k (alone w j x)"
proof (induction j arbitrary: x)
  case (Suc j)
  obtain t l g where x: "x = (t, l, g)" by (cases x)
  show ?case by (cases "w t l g") (simp_all add: x Suc.IH alone_None)
qed simp

lemma run_alone1:
  assumes "\<not> ended s"
  shows "run w1 w2 (replicate k Thr1) s =
    (case alone w1 k (th1 s, lck s, shared s) of (t, l, g) \<Rightarrow> s\<lparr>th1 := t, lck := l, shared := g\<rparr>)"
  using assms
proof (induction k arbitrary: s)
  case (Suc k)
  show ?case
  proof (cases "w1 (th1 s) (lck s) (shared s)")
    case None
    then show ?thesis using Suc.IH [OF Suc.prems] by (simp add: next_conf_def alone_None)
  next
    case (Some y)
    obtain t l g where y: "y = (t, l, g)" by (cases y)
    have "\<not> ended (s\<lparr>th1 := t, lck := l, shared := g\<rparr>)" using Suc.prems by (simp add: ended_def)
    from Suc.IH [OF this] show ?thesis using Some y Suc.prems by (simp add: next_conf_def split: prod.split)
  qed
qed simp

lemma run_alone2:
  assumes "\<not> ended s"
  shows "run w1 w2 (replicate k Thr2) s =
    (case alone w2 k (th2 s, lck s, shared s) of (t, l, g) \<Rightarrow> s\<lparr>th2 := t, lck := l, shared := g\<rparr>)"
  using assms
proof (induction k arbitrary: s)
  case (Suc k)
  show ?case
  proof (cases "w2 (th2 s) (lck s) (shared s)")
    case None
    then show ?thesis using Suc.IH [OF Suc.prems] by (simp add: next_conf_def alone_None)
  next
    case (Some y)
    obtain t l g where y: "y = (t, l, g)" by (cases y)
    have "\<not> ended (s\<lparr>th2 := t, lck := l, shared := g\<rparr>)" using Suc.prems by (simp add: ended_def)
    from Suc.IH [OF this] show ?thesis using Some y Suc.prems by (simp add: next_conf_def split: prod.split)
  qed
qed simp

lemma one_turn:
  assumes "pc t = Test" and "loop_i t < n"
  shows "\<exists>k. alone (race_worker n d) k (t, l, g) = (t\<lparr>loop_i := Suc (loop_i t), tmp := g + d\<rparr>, l, g + d)"
proof (cases "loop_i t mod 1024 = 0")
  case True
  then show ?thesis using assms by (intro exI [of _ 5]) (simp add: alone_numeral race_worker_def)
next
  case False
  then show ?thesis using assms by (intro exI [of _ 4]) (simp add: alone_numeral race_worker_def)
qed

lemma solo:
  assumes "pc t = Test" and "loop_i t \<le> n"
  shows "\<exists>k t'. alone (race_worker n d) k (t, l, g) = (t', l, g + int (n - loop_i t) * d) \<and> pc t' = Finished"
  using assms
proof (induction "n - loop_i t" arbitrary: t g)
  case 0
  then show ?case by (intro exI [of _ 1]) (simp add: race_worker_def)
next
  case (Suc m)
  then have lt: "loop_i t < n" by simp
  obtain k where k: "alone (race_worker n d) k (t, l, g) = (t\<lparr>loop_i := Suc (loop_i t), tmp := g + d\<rparr>, l, g + d)"
    using one_turn [OF Suc.prems(1) lt] by blast
  let ?u = "t\<lparr>loop_i := Suc (loop_i t), tmp := g + d\<rparr>"
  have "m = n - loop_i ?u" "pc ?u = Test" "loop_i ?u \<le> n" using Suc.hyps(2) Suc.prems lt by simp_all
  from Suc.hyps(1) [OF this] obtain j t' where
    j: "alone (race_worker n d) j (?u, l, g + d) = (t', l, g + d + int (n - loop_i ?u) * d)" "pc t' = Finished" by blast
  have "int (n - loop_i t) = int (n - loop_i ?u) + 1" using lt by simp
  then have "g + d + int (n - loop_i ?u) * d = g + int (n - loop_i t) * d" by (simp add: algebra_simps)
  with j k show ?case by (intro exI [of _ "k + j"] exI [of _ t']) (simp add: alone_add)
qed

text \<open>
  The second thread reads 0, the first then runs to its end, and the second's store takes all its
  additions away.
\<close>

lemma lost_updates:
  assumes "0 < n"
  shows "\<exists>as. main_at (run (race_add n) (race_sub n) as (boot_conf ())) = Returned \<and>
    shared (run (race_add n) (race_sub n) as (boot_conf ())) = - 100 * int n"
proof -
  let ?r = "run (race_add n) (race_sub n)"
  let ?t = "\<lparr>pc = Test, loop_i = 0, tmp = 0\<rparr>"
  define s1 where "s1 = \<lparr>lck = (), shared = 0, th1 = ?t, th2 = ?t\<lparr>pc := Yield\<rparr>, main_at = Join1\<rparr>"
  have s1: "?r [Main_thread True, Main_thread True, Thr2, Thr2] (boot_conf ()) = s1"
    using assms by (simp add: s1_def boot_conf_def new_thread_def next_conf_def main_step_def ended_def race_sub_def race_worker_def)
  have e1: "\<not> ended s1" by (simp add: s1_def ended_def)
  obtain k t' where k: "alone (race_add n) k (th1 s1, lck s1, shared s1) = (t', (), 100 * int n)" "pc t' = Finished"
    using solo [of ?t n 100 "()" 0] by (auto simp: s1_def race_add_def mult.commute)
  define s2 where "s2 = s1\<lparr>th1 := t', shared := 100 * int n\<rparr>"
  have s2: "?r (replicate k Thr1) s1 = s2" using run_alone1 [OF e1] k(1) by (simp add: s2_def s1_def)
  let ?u = "\<lparr>pc = Test, loop_i = 1, tmp = - 100\<rparr>"
  define s3 where "s3 = s2\<lparr>th2 := ?u, shared := - 100\<rparr>"
  have e2: "\<not> ended s2" and e3: "\<not> ended s3" by (simp_all add: s3_def s2_def s1_def ended_def)
  have "alone (race_sub n) 3 (th2 s2, lck s2, shared s2) = (?u, (), - 100)"
    by (simp add: s2_def s1_def race_sub_def race_worker_def alone_numeral)
  then have s3: "?r (replicate 3 Thr2) s2 = s3" using run_alone2 [OF e2, of "race_add n" "race_sub n" 3] by (simp add: s3_def)
  obtain j u' where j: "alone (race_sub n) j (?u, (), - 100) = (u', (), - 100 + int (n - 1) * - 100)" "pc u' = Finished"
    using solo [of ?u n "- 100" "()" "- 100"] assms by (auto simp: race_sub_def)
  have v: "- 100 + int (n - 1) * - 100 = - 100 * int n" using assms by (simp add: of_nat_diff)
  define s4 where "s4 = s3\<lparr>th2 := u', shared := - 100 * int n\<rparr>"
  have s4: "?r (replicate j Thr2) s3 = s4"
    using run_alone2 [OF e3, of "race_add n" "race_sub n" j] j(1) unfolding v by (simp add: s4_def s3_def s2_def s1_def)
  have "?r [Main_thread True, Main_thread True] s4 = s4\<lparr>main_at := Returned\<rparr>"
    using k(2) j(2) by (simp add: s4_def s3_def s2_def s1_def next_conf_def main_step_def ended_def)
  then show ?thesis
    using s1 s2 s3 s4
    by (intro exI [of _ "[Main_thread True, Main_thread True, Thr2, Thr2] @ replicate k Thr1 @ replicate 3 Thr2 @ replicate j Thr2 @
          [Main_thread True, Main_thread True]"]) (simp only: run_append, simp add: s4_def)
qed

end
