(* ===== verification/Thread_Props.thy ===== *)
theory Thread_Props
  imports Locks Race
begin

text \<open>
  The properties of the two-thread programs of \<open>project1\<close>, for every number \<open>n\<close> of iterations; the
  programs run them with \<open>spin_N\<close>, \<open>sem_N\<close> and \<open>race_N\<close>. The witnesses run complete schedules for
  \<open>n = 1\<close>.
\<close>

section \<open>Complete schedules\<close>

abbreviation created_both :: "act list" where
  "created_both \<equiv> [Main_thread True, Main_thread True]"

text \<open>Thread 1 enters, thread 2 tries in vain, thread 1 leaves, thread 2 goes through.\<close>

definition full_schedule :: "act list" where
  "full_schedule = created_both @ [Thr1, Thr1, Thr2, Thr2, Thr1, Thr2, Thr1, Thr1, Thr1, Thr1] @
     [Thr2, Thr2, Thr2, Thr2, Thr2, Thr2] @ created_both"

definition spin_end :: "spinlock_t conf" where
  "spin_end = run (thread_function 1) (thread_function 1) full_schedule (boot_conf spinlock_init)"

definition sem_end :: "nat conf" where
  "sem_end = run (add_worker 1) (sub_worker 1) full_schedule (boot_conf 1)"

lemma spin_end_ok: "spin_program 1 spin_end"
  unfolding spin_program_def spin_end_def by (rule reachable_boot_run)

lemma sem_end_ok: "sem_program 1 sem_end"
  unfolding sem_end_def by (rule sem_programI) (rule reachable_boot_run)

lemma spin_returned: "main_at spin_end = Returned"
  by (simp add: spin_end_def full_schedule_def boot_conf_def new_thread_def next_conf_def ended_def main_step_def
      thread_function_def locked_worker_def spinlock_lock_def spinlock_unlock_def spinlock_init_def test_and_set_def)

lemma sem_returned: "main_at sem_end = Returned"
  by (simp add: sem_end_def full_schedule_def boot_conf_def new_thread_def next_conf_def ended_def main_step_def
      add_worker_def sub_worker_def locked_worker_def P_def V_def)


section \<open>Properties\<close>

text \<open>C23: The spin lock: whatever the interleaving, the two threads are never both between lock and
  unlock, and when \<open>main\<close> returns no increment is lost: the shared value is \<open>2n\<close>.\<close>
theorem spin_lock_protects:
  assumes "spin_program n s"
  shows "\<not> (in_cs (th1 s) \<and> in_cs (th2 s)) \<and> (main_at s = Returned \<longrightarrow> shared s = 2 * int n) \<and>
    0 \<le> shared s \<and> shared s \<le> 2 * int n"
proof -
  note i = spin_inv [OF assms]
  have "worked t \<le> n" if "thread_ok n d g t" for t d g
    using that by (auto simp: thread_ok_def worked_def in_cs_def)
  then have "worked (th1 s) \<le> n" "worked (th2 s) \<le> n" "shared s = int (worked (th1 s)) + int (worked (th2 s))"
    using i unfolding lock_inv_def by auto
  moreover have "main_at s = Returned \<longrightarrow> shared s = 2 * int n" using spin.final_value [OF i] by simp
  ultimately show ?thesis using spin.never_both [OF i] by linarith
qed

lemma spin_lock_protects_witness: "shared spin_end = 2"
  using spin_lock_protects [OF spin_end_ok] spin_returned by simp

text \<open>C24: The semaphore: the adding and the subtracting thread exclude each other, and when \<open>main\<close>
  returns the counter is back at 0; its value never leaves the range of \<open>long long\<close> by far.\<close>
theorem semaphore_protects:
  assumes "sem_program n s"
  shows "\<not> (in_cs (th1 s) \<and> in_cs (th2 s)) \<and> (main_at s = Returned \<longrightarrow> shared s = 0) \<and> \<bar>shared s\<bar> \<le> 100 * int n"
  using assms
proof (cases rule: sem_program_cases)
  case 2
  then show ?thesis by (simp add: sem_failed_def boot_conf_def new_thread_def in_cs_def)
next
  case 1
  note i = sem_inv [OF 1]
  have "worked t \<le> n" if "thread_ok n d g t" for t d g
    using that by (auto simp: thread_ok_def worked_def in_cs_def)
  then have "worked (th1 s) \<le> n" "worked (th2 s) \<le> n"
    "shared s = int (worked (th1 s)) * 100 + int (worked (th2 s)) * (- 100)"
    using i unfolding lock_inv_def by auto
  moreover have "main_at s = Returned \<longrightarrow> shared s = 0" using sem.final_value [OF i] by simp
  ultimately show ?thesis using sem.never_both [OF i] by (simp add: abs_le_iff)
qed

lemma semaphore_protects_witness: "shared sem_end = 0"
  using semaphore_protects [OF sem_end_ok] sem_returned by simp

text \<open>C25: Neither program can get stuck. In every state either can reach, \<open>main\<close> has left through
  \<open>exit(1)\<close>, which only a failing \<open>pthread_create\<close> (or \<open>sem_init\<close>) brings about, or some schedule lets
  it join both threads and return. In a run without such a failure it is always the latter: from the
  start every schedule in which no creation fails can be continued to the return of \<open>main\<close>.\<close>
theorem locked_programs_complete:
  assumes "spin_program n s" and "sem_program m u" and "Main_thread False \<notin> set bs"
  shows "(main_at s = Exited \<or> (\<exists>as. main_at (run (thread_function n) (thread_function n) as s) = Returned)) \<and>
    (main_at u = Exited \<or> (\<exists>as. main_at (run (add_worker m) (sub_worker m) as u) = Returned)) \<and>
    (\<exists>as. main_at (run (thread_function n) (thread_function n) (bs @ as) (boot_conf spinlock_init)) = Returned) \<and>
    (\<exists>as. main_at (run (add_worker m) (sub_worker m) (bs @ as) (boot_conf 1)) = Returned)"
proof (intro conjI)
  note spin = spin.completes [OF spin_inv, folded thread_function_def] and sem = sem.completes [OF sem_inv, folded add_worker_def sub_worker_def]
  show "main_at s = Exited \<or> (\<exists>as. main_at (run (thread_function n) (thread_function n) as s) = Returned)"
    using spin [OF assms(1)] by blast
  show "main_at u = Exited \<or> (\<exists>as. main_at (run (add_worker m) (sub_worker m) as u) = Returned)"
    using assms(2) by (cases rule: sem_program_cases) (use sem in \<open>auto simp: sem_failed_def\<close>)
  have "spin_program n (run (thread_function n) (thread_function n) bs (boot_conf spinlock_init))"
    unfolding spin_program_def by (rule reachable_boot_run)
  from spin [OF this run_not_exited [OF _ assms(3)]]
  show "\<exists>as. main_at (run (thread_function n) (thread_function n) (bs @ as) (boot_conf spinlock_init)) = Returned"
    by (simp add: boot_conf_def)
  from sem [OF reachable_boot_run run_not_exited [OF _ assms(3)]]
  show "\<exists>as. main_at (run (add_worker m) (sub_worker m) (bs @ as) (boot_conf 1)) = Returned"
    by (simp add: boot_conf_def)
qed

lemma locked_programs_complete_witness:
  "(\<exists>as. main_at (run (thread_function spin_N) (thread_function spin_N) ([Main_thread True] @ as) (boot_conf spinlock_init)) = Returned) \<and>
   (\<exists>as. main_at (run (add_worker sem_N) (sub_worker sem_N) ([Main_thread True] @ as) (boot_conf 1)) = Returned)"
proof -
  have s: "spin_program spin_N (boot_conf spinlock_init)" unfolding spin_program_def by (rule reachable.boot)
  have u: "sem_program sem_N (boot_conf 1)" by (rule sem_programI) (rule reachable.boot)
  have b: "Main_thread False \<notin> set [Main_thread True]" by simp
  from locked_programs_complete [OF s u b] show ?thesis by (elim conjE) (rule conjI)
qed

lemma race_bounds:
  assumes "race_program n s"
  shows "- 100 * int n \<le> shared s \<and> shared s \<le> 100 * int n \<and> 100 dvd shared s"
proof -
  have "race_inv n s" using race_inv [OF assms] by blast
  then have "within (loop_i (th1 s)) (loop_i (th2 s)) (shared s)" "loop_i (th1 s) \<le> n" "loop_i (th2 s) \<le> n"
    by (simp_all add: race_inv_def)
  then show ?thesis by (simp add: within_def)
qed

text \<open>C26: In every interleaving the unprotected counter is a multiple of 100 between what the subtractions alone
  and what the additions alone would make of it, and the race is real: for every positive number of
  iterations there is a complete schedule after which all additions are lost, and \<open>main\<close> prints
  \<open>-100n\<close> where it expects 0.\<close>
theorem race_outcomes:
  assumes "0 < n"
  shows "(\<forall>s. race_program n s \<longrightarrow> - 100 * int n \<le> shared s \<and> shared s \<le> 100 * int n \<and> 100 dvd shared s) \<and>
    (\<exists>s. race_program n s \<and> main_at s = Returned \<and> shared s = - 100 * int n)"
proof -
  obtain as where a: "main_at (run (race_add n) (race_sub n) as (boot_conf ())) = Returned"
    "shared (run (race_add n) (race_sub n) as (boot_conf ())) = - 100 * int n"
    using lost_updates [OF assms] by blast
  have "race_program n (run (race_add n) (race_sub n) as (boot_conf ()))"
    unfolding race_program_def by (rule reachable_boot_run)
  with a race_bounds show ?thesis by blast
qed

lemma race_outcomes_witness: "\<exists>s. race_program race_N s \<and> main_at s = Returned \<and> shared s = - 10000000"
  using race_outcomes [of race_N] by (simp add: race_N_def)

end
