(* ===== verification/Forks.thy ===== *)
theory Forks
  imports Cstdlib
begin

text \<open>
  The process demos of \<open>project1\<close>: the \<open>fork\<close> programs of \<open>part1\<close> and the two programs of \<open>part2\<close>
  that call \<open>execv\<close> and \<open>system\<close> in a thread. A program is a list of statements over the memory of
  the process that runs it; a world has up to two tasks, which are two processes after \<open>fork\<close> and
  two threads of one process after \<open>pthread_create\<close>. Which task runs next is free: a run is a
  list of slots. What the kernel decides (whether a call succeeds, the number of a new process, the
  text of an error) and what a shell command does are fields of the environment, and so is whether
  standard output is a terminal: only then does \<open>printf\<close> of a line reach it at once, otherwise
  the line waits in the memory of the process until it exits.
\<close>

section \<open>Processes\<close>

text \<open>
  The variables of the programs, the number of the process and of its parent, and the output that
  \<open>printf\<close> has buffered.
\<close>

record mem =
  self :: int
  parent :: int
  pid :: int
  pid1 :: int
  g :: int
  rc :: int
  pending :: "bytes list"

datatype stmt =
    Set "mem \<Rightarrow> mem"
  | Printf "int \<Rightarrow> mem \<Rightarrow> bytes"
  | Gripe bytes
  | Perror bytes
  | If "mem \<Rightarrow> bool" "stmt list" "stmt list"
  | Fork
  | Wait
  | Create "stmt list" "stmt list"
  | Join
  | Sleep nat
  | System bytes
  | Exec bytes "stmt list"
  | Ret int
  | Exit int
  | Exit_now int

text \<open>What an observer sees: lines on the two outputs and processes that end with a code.\<close>

datatype event = Out bytes | Err bytes | Gone int int

record env =
  tty :: bool
  child :: "int option"
  thread :: "int option"
  runs :: "bytes \<Rightarrow> bool"
  shell :: "bytes \<Rightarrow> bytes list \<times> int"
  why :: "bytes"

text \<open>
  \<open>Create p err\<close> starts a thread with \<open>p\<close>, or goes on with \<open>err\<close> when the call fails;
  \<open>Exec f p\<close> replaces the process by the program \<open>p\<close> of the file \<open>f\<close>.

  A task runs in a memory; the lead task of a process is the one that runs \<open>main\<close>. The list is
  what it has left to do.
\<close>

datatype slot = S0 | S1

instantiation slot :: enum
begin

definition enum_slot :: "slot list" where
  "enum_slot = [S0, S1]"

definition enum_all_slot :: "(slot \<Rightarrow> bool) \<Rightarrow> bool" where
  "enum_all_slot P \<longleftrightarrow> P S0 \<and> P S1"

definition enum_ex_slot :: "(slot \<Rightarrow> bool) \<Rightarrow> bool" where
  "enum_ex_slot P \<longleftrightarrow> P S0 \<or> P S1"

instance
proof
  show "UNIV = set (enum_class.enum :: slot list)" by (auto simp: enum_slot_def intro: slot.exhaust)
  show "distinct (enum_class.enum :: slot list)" by (simp add: enum_slot_def)
  show "enum_class.enum_all P \<longleftrightarrow> Ball UNIV P" for P :: "slot \<Rightarrow> bool" by (auto simp: enum_all_slot_def intro: slot.induct)
  show "enum_class.enum_ex P \<longleftrightarrow> Bex UNIV P" for P :: "slot \<Rightarrow> bool"
    unfolding enum_ex_slot_def by (metis slot.exhaust UNIV_I)
qed

end

lemma slot_all: "(\<forall>i. P i) \<longleftrightarrow> P S0 \<and> P S1"
  by (metis slot.exhaust)

lemma slot_UNIV: "(UNIV :: slot set) = {S0, S1}"
  using slot.exhaust by auto

record task =
  space :: slot
  lead :: bool
  tid :: int
  todo :: "stmt list"

record world =
  mems :: "slot \<Rightarrow> mem"
  tasks :: "slot \<Rightarrow> task option"
  log :: "event list"

text \<open>
  A process ends: its threads are gone, and unless it calls \<open>_exit\<close> the buffered lines come out first.
\<close>

definition drop_space :: "slot \<Rightarrow> (slot \<Rightarrow> task option) \<Rightarrow> slot \<Rightarrow> task option" where
  "drop_space k f j = (case f j of Some t \<Rightarrow> if space t = k then None else Some t | None \<Rightarrow> None)"

definition leave :: "slot \<Rightarrow> bool \<Rightarrow> int \<Rightarrow> world \<Rightarrow> world" where
  "leave k flush code w =
     w\<lparr>tasks := drop_space k (tasks w),
       log := log w @ (if flush then map Out (pending (mems w k)) else []) @ [Gone (self (mems w k)) code]\<rparr>"

text \<open>After \<open>exec\<close> nothing of the memory is left but the number of the process and of its parent.\<close>

definition exec_mem :: "mem \<Rightarrow> mem" where
  "exec_mem m = \<lparr>self = self m, parent = parent m, pid = 0, pid1 = 0, g = 0, rc = 0, pending = []\<rparr>"

definition printed :: "env \<Rightarrow> bytes \<Rightarrow> mem \<Rightarrow> event list \<times> mem" where
  "printed e x m = (if tty e then ([Out x], m) else ([], m\<lparr>pending := pending m @ [x]\<rparr>))"

text \<open>The step that leaves the task in its memory with the rest of its statements.\<close>

definition go :: "slot \<Rightarrow> task \<Rightarrow> stmt list \<Rightarrow> mem \<Rightarrow> event list \<Rightarrow> world \<Rightarrow> world" where
  "go i t r m evs w = w\<lparr>mems := (mems w)(space t := m), tasks := (tasks w)(i \<mapsto> t\<lparr>todo := r\<rparr>), log := log w @ evs\<rparr>"

text \<open>
  One step of a task; \<open>None\<close> is a task that is gone or blocked. Only the first process has a child,
  so that \<open>wait\<close> blocks it while that runs and returns at once elsewhere.
\<close>

fun exec_stmt :: "env \<Rightarrow> slot \<Rightarrow> task \<Rightarrow> stmt \<Rightarrow> stmt list \<Rightarrow> mem \<Rightarrow> world \<Rightarrow> world option" where
  "exec_stmt e i t (Set f) r m w = Some (go i t r (f m) [] w)"
| "exec_stmt e i t (Printf f) r m w = (case printed e (f (tid t) m) m of (evs, m') \<Rightarrow> Some (go i t r m' evs w))"
| "exec_stmt e i t (Gripe x) r m w = Some (go i t r m [Err x] w)"
| "exec_stmt e i t (Perror x) r m w = Some (go i t r m [Err (x @ bytes_of '': '' @ why e @ [10])] w)"
| "exec_stmt e i t (If c a b) r m w = Some (go i t ((if c m then a else b) @ r) m [] w)"
| "exec_stmt e i t Fork r m w =
     (case child e of
        None \<Rightarrow> Some (go i t r (m\<lparr>pid := - 1\<rparr>) [] w)
      | Some c \<Rightarrow>
          let w' = go i t r (m\<lparr>pid := c\<rparr>) [] w in
          Some (w'\<lparr>mems := (mems w')(S1 := m\<lparr>self := c, parent := self m, pid := 0\<rparr>),
                   tasks := (tasks w')(S1 \<mapsto> \<lparr>space = S1, lead = True, tid = c, todo = r\<rparr>)\<rparr>))"
| "exec_stmt e i t Wait r m w = (if i = S0 \<and> tasks w S1 \<noteq> None then None else Some (go i t r m [] w))"
| "exec_stmt e i t (Create p err) r m w =
     (case thread e of
        None \<Rightarrow> Some (go i t (err @ r) m [] w)
      | Some k \<Rightarrow>
          let w' = go i t r m [] w in
          Some (w'\<lparr>tasks := (tasks w')(S1 \<mapsto> \<lparr>space = space t, lead = False, tid = k, todo = p\<rparr>)\<rparr>))"
| "exec_stmt e i t Join r m w = (if i = S0 \<and> tasks w S1 \<noteq> None then None else Some (go i t r m [] w))"
| "exec_stmt e i t (Sleep n) r m w = Some (go i t r m [] w)"
| "exec_stmt e i t (System c) r m w =
     (case shell e c of (xs, k) \<Rightarrow> Some (go i t r (m\<lparr>rc := k\<rparr>) (map Out xs) w))"
| "exec_stmt e i t (Exec f p) r m w =
     (if runs e f
      then Some (w\<lparr>mems := (mems w)(space t := exec_mem m),
                   tasks := (drop_space (space t) (tasks w))(i \<mapsto> \<lparr>space = space t, lead = True, tid = self m, todo = p\<rparr>)\<rparr>)
      else Some (go i t r m [] w))"
| "exec_stmt e i t (Ret k) r m w = Some (if lead t then leave (space t) True k w else w\<lparr>tasks := (tasks w)(i := None)\<rparr>)"
| "exec_stmt e i t (Exit k) r m w = Some (leave (space t) True k w)"
| "exec_stmt e i t (Exit_now k) r m w = Some (leave (space t) False k w)"

text \<open>A task without statements has reached the end of its function, which returns.\<close>

definition act :: "env \<Rightarrow> slot \<Rightarrow> world \<Rightarrow> world option" where
  "act e i w = (case tasks w i of
     None \<Rightarrow> None
   | Some t \<Rightarrow> (case todo t of
       [] \<Rightarrow> exec_stmt e i t (Ret 0) [] (mems w (space t)) w
     | s # r \<Rightarrow> exec_stmt e i t s r (mems w (space t)) w))"

fun run :: "env \<Rightarrow> slot list \<Rightarrow> world \<Rightarrow> world option" where
  "run e [] w = Some w"
| "run e (i # is) w = do { w' \<leftarrow> act e i w; run e is w' }"

definition stuck :: "env \<Rightarrow> world \<Rightarrow> bool" where
  "stuck e w \<longleftrightarrow> (\<forall>i. act e i w = None)"

definition start_mem :: "int \<Rightarrow> int \<Rightarrow> mem" where
  "start_mem p q = \<lparr>self = p, parent = q, pid = 0, pid1 = 0, g = 100, rc = 0, pending = []\<rparr>"

definition start :: "int \<Rightarrow> int \<Rightarrow> stmt list \<Rightarrow> world" where
  "start p q prog =
     \<lparr>mems = (\<lambda>_. start_mem p q), tasks = (\<lambda>_. None)(S0 \<mapsto> \<lparr>space = S0, lead = True, tid = p, todo = prog\<rparr>), log = []\<rparr>"

section \<open>The programs\<close>

definition pid_line :: "string \<Rightarrow> int \<Rightarrow> bytes" where
  "pid_line x n = bytes_of x @ fmt_d n @ [10]"

definition line_d :: "string \<Rightarrow> (mem \<Rightarrow> int) \<Rightarrow> stmt" where
  "line_d x v = Printf (\<lambda>_ m. pid_line x (v m))"

text \<open>\<open>1-1.c\<close> and, without the \<open>wait\<close>, \<open>1-2.c\<close>.\<close>

definition main_1_1 :: "stmt list" where
  "main_1_1 =
    [Fork,
     If (\<lambda>m. pid m < 0) [Gripe (bytes_of ''Fork Failed''), Ret 1]
       [If (\<lambda>m. pid m = 0)
          [Set (\<lambda>m. m\<lparr>pid1 := self m\<rparr>), line_d ''child: pid = '' pid, line_d ''child: pid1 = '' pid1]
          [Set (\<lambda>m. m\<lparr>pid1 := self m\<rparr>), line_d ''parent: pid = '' pid, line_d ''parent: pid1 = '' pid1, Wait]],
     Ret 0]"

definition main_1_2 :: "stmt list" where
  "main_1_2 =
    [Fork,
     If (\<lambda>m. pid m < 0) [Gripe (bytes_of ''Fork Failed''), Ret 1]
       [If (\<lambda>m. pid m = 0)
          [Set (\<lambda>m. m\<lparr>pid1 := self m\<rparr>), line_d ''child: pid = '' pid, line_d ''child: pid1 = '' pid1]
          [Set (\<lambda>m. m\<lparr>pid1 := self m\<rparr>), line_d ''parent: pid = '' pid, line_d ''parent: pid1 = '' pid1]],
     Ret 0]"

text \<open>\<open>1-3.c\<close> and \<open>1-4.c\<close>: both processes change the global variable.\<close>

definition g_line :: "string \<Rightarrow> int \<Rightarrow> int \<Rightarrow> bytes" where
  "g_line x p v = bytes_of x @ bytes_of ''(pid='' @ fmt_d p @ bytes_of ''): g='' @ fmt_d v @ [10]"

definition print_g :: "string \<Rightarrow> stmt" where
  "print_g x = Printf (\<lambda>_ m. g_line x (self m) (g m))"

definition main_1_3 :: "stmt list" where
  "main_1_3 =
    [Fork,
     If (\<lambda>m. pid m = 0)
       [Set (\<lambda>m. m\<lparr>g := g m + 50\<rparr>), print_g ''child'']
       [Set (\<lambda>m. m\<lparr>g := g m - 30\<rparr>), print_g ''parent'', Wait],
     Ret 0]"

definition main_1_4 :: "stmt list" where
  "main_1_4 =
    [Fork,
     If (\<lambda>m. pid m = 0)
       [Set (\<lambda>m. m\<lparr>g := g m + 50\<rparr>), print_g ''child-before-return'',
        Set (\<lambda>m. m\<lparr>g := g m * 2\<rparr>), print_g ''child-before-exit'']
       [Set (\<lambda>m. m\<lparr>g := g m - 30\<rparr>), print_g ''parent-after-fork'', Wait,
        Set (\<lambda>m. m\<lparr>g := g m + 1\<rparr>), print_g ''parent-before-exit''],
     Ret 0]"

text \<open>\<open>system_call.c\<close>, and the two programs that run it.\<close>

definition main_system_call :: "stmt list" where
  "main_system_call = [line_d ''system_call running in pid='' self, Ret 0]"

definition main_1_5_1 :: "stmt list" where
  "main_1_5_1 =
    [Fork,
     If (\<lambda>m. pid m < 0) [Perror (bytes_of ''fork''), Ret 1] [],
     If (\<lambda>m. pid m = 0)
       [line_d ''child process1 PID: '' self, System (bytes_of ''./system_call''),
        line_d ''child process PID: '' self, Ret 0]
       [line_d ''parent process PID: '' self, Wait, Ret 0]]"

definition main_1_5_2 :: "stmt list" where
  "main_1_5_2 =
    [Fork,
     If (\<lambda>m. pid m < 0) [Perror (bytes_of ''fork''), Ret 1] [],
     If (\<lambda>m. pid m = 0)
       [line_d ''child process1 PID: '' self, Exec (bytes_of ''./system_call'') main_system_call,
        Perror (bytes_of ''execl failed''), Exit_now 127]
       [line_d ''parent process PID: '' self, Wait, Ret 0]]"

text \<open>\<open>exec_helper.c\<close>: its arguments, one to a line.\<close>

definition main_exec_helper :: "bytes list \<Rightarrow> stmt list" where
  "main_exec_helper args =
     Printf (\<lambda>_ m. bytes_of ''[exec_helper] hello. my PID='' @ fmt_d (self m) @ bytes_of '', PPID='' @ fmt_d (parent m) @
       bytes_of ''. argc='' @ fmt_d (int (length args)) @ [10]) #
     map (\<lambda>i. Printf (\<lambda>_ _. bytes_of ''[exec_helper] argv['' @ fmt_d (int i) @ bytes_of '']='' @ args ! i @ [10])) [0..<length args] @
     [Ret 0]"

text \<open>\<open>step3_exec_in_thread.c\<close> and \<open>step3_system_in_thread.c\<close>.\<close>

definition ids_line :: "string \<Rightarrow> int \<Rightarrow> int \<Rightarrow> string \<Rightarrow> bytes" where
  "ids_line x p k y = bytes_of x @ bytes_of ''PID='' @ fmt_d p @ bytes_of '' TID='' @ fmt_d k @ bytes_of y @ [10]"

definition print_ids :: "string \<Rightarrow> string \<Rightarrow> stmt" where
  "print_ids x y = Printf (\<lambda>k m. ids_line x (self m) k y)"

definition worker_exec :: "stmt list" where
  "worker_exec =
    [print_ids ''[exec-thread] before exec: '' [],
     Exec (bytes_of ''./exec_helper'') (main_exec_helper [bytes_of ''./exec_helper'', bytes_of ''argA'', bytes_of ''argB'']),
     Perror (bytes_of ''execv failed''), Ret 0]"

definition main_exec_thread :: "stmt list" where
  "main_exec_thread =
    [print_ids ''[main] '' [],
     Create worker_exec [Perror (bytes_of ''pthread_create''), Exit 1],
     Sleep 2, Join,
     Printf (\<lambda>_ _. bytes_of ''[main] after join (this usually indicates execv failed)'' @ [10]), Ret 0]"

definition SHELL_CMD :: bytes where
  "SHELL_CMD = bytes_of ''echo [from system child]; sleep 1; echo [system child done]''"

definition SYSTEM_TEXT :: string where
  "SYSTEM_TEXT = '' : calling system('' @ [CHR 0x22] @ ''echo hi; sleep 1; echo done'' @ [CHR 0x22] @ '')''"

definition worker_system :: "stmt list" where
  "worker_system =
    [print_ids ''[system-thread] '' SYSTEM_TEXT,
     System SHELL_CMD,
     Printf (\<lambda>k m. bytes_of ''[system-thread] PID='' @ fmt_d (self m) @ bytes_of '' TID='' @ fmt_d k @
       bytes_of '' : system() returned rc='' @ fmt_d (rc m) @ [10]),
     Ret 0]"

definition main_system_thread :: "stmt list" where
  "main_system_thread =
    [print_ids ''[main] '' [],
     Create worker_system [Perror (bytes_of ''pthread_create''), Exit 1],
     Join, print_ids ''[main] '' '' : done'', Ret 0]"

section \<open>Forked processes\<close>

text \<open>
  After \<open>fork\<close> the two processes share nothing but the outputs. \<open>talk\<close> is what a process shows when
  it runs by itself, in two parts: up to its \<open>wait\<close> and after it. A run of the two interleaves
  those, with the second part of the parent after everything of the child.
\<close>

function talk :: "env \<Rightarrow> int \<Rightarrow> stmt list \<Rightarrow> mem \<Rightarrow> event list \<times> event list" where
  "talk e k [] m = (map Out (pending m) @ [Gone (self m) 0], [])"
| "talk e k (s # r) m =
     (case s of
        Set f \<Rightarrow> talk e k r (f m)
      | Printf f \<Rightarrow> (case printed e (f k m) m of (evs, m') \<Rightarrow> apfst (append evs) (talk e k r m'))
      | Gripe x \<Rightarrow> apfst (Cons (Err x)) (talk e k r m)
      | Perror x \<Rightarrow> apfst (Cons (Err (x @ bytes_of '': '' @ why e @ [10]))) (talk e k r m)
      | If c a b \<Rightarrow> talk e k ((if c m then a else b) @ r) m
      | Wait \<Rightarrow> ([], fst (talk e k r m) @ snd (talk e k r m))
      | System c \<Rightarrow> apfst (append (map Out (fst (shell e c)))) (talk e k r (m\<lparr>rc := snd (shell e c)\<rparr>))
      | Exec f p \<Rightarrow> if runs e f then talk e (self m) p (exec_mem m) else talk e k r m
      | Sleep n \<Rightarrow> talk e k r m
      | Ret n \<Rightarrow> (map Out (pending m) @ [Gone (self m) n], [])
      | Exit n \<Rightarrow> (map Out (pending m) @ [Gone (self m) n], [])
      | Exit_now n \<Rightarrow> ([Gone (self m) n], [])
      | _ \<Rightarrow> ([], []))"
  by pat_completeness auto
termination by (relation "measure (\<lambda>(e, k, r, m). size_list size r)") auto

fun plain :: "stmt \<Rightarrow> bool" where
  "plain (If c a b) \<longleftrightarrow> list_all plain a \<and> list_all plain b"
| "plain (Exec f p) \<longleftrightarrow> list_all plain p"
| "plain Fork \<longleftrightarrow> False"
| "plain (Create p err) \<longleftrightarrow> False"
| "plain Join \<longleftrightarrow> False"
| "plain _ \<longleftrightarrow> True"

definition rest :: "env \<Rightarrow> world \<Rightarrow> slot \<Rightarrow> event list \<times> event list" where
  "rest e w i = (case tasks w i of None \<Rightarrow> ([], []) | Some t \<Rightarrow> talk e (tid t) (todo t) (mems w i))"

abbreviation full :: "event list \<times> event list \<Rightarrow> event list" where
  "full x \<equiv> fst x @ snd x"

definition forked :: "world \<Rightarrow> bool" where
  "forked w \<longleftrightarrow> (\<forall>i t. tasks w i = Some t \<longrightarrow> space t = i \<and> lead t \<and> list_all plain (todo t))"

definition rank :: "world \<Rightarrow> nat" where
  "rank w = (\<Sum>i \<in> UNIV. case tasks w i of None \<Rightarrow> 0 | Some t \<Rightarrow> Suc (size_list size (todo t)))"

lemma forkedD: "forked w \<Longrightarrow> tasks w i = Some t \<Longrightarrow> space t = i \<and> lead t \<and> list_all plain (todo t)"
  by (simp add: forked_def)

lemma forkedI: "(\<And>i t. tasks w i = Some t \<Longrightarrow> space t = i \<and> lead t \<and> list_all plain (todo t)) \<Longrightarrow> forked w"
  by (simp add: forked_def)

lemma drop_space_self: "f j = Some t \<Longrightarrow> space t = j \<Longrightarrow> drop_space j f j = None"
  by (simp add: drop_space_def)

text \<open>A step of one process: the other one keeps its statements and its memory.\<close>

definition own_step :: "env \<Rightarrow> slot \<Rightarrow> world \<Rightarrow> world \<Rightarrow> bool" where
  "own_step e i w w' \<longleftrightarrow> forked w' \<and> (\<forall>j. j \<noteq> i \<longrightarrow> tasks w' j = tasks w j \<and> mems w' j = mems w j) \<and> rank w' < rank w \<and>
     (\<exists>evs. log w' = log w @ evs \<and>
       (rest e w i = (evs @ fst (rest e w' i), snd (rest e w' i)) \<or>
        evs = [] \<and> rest e w i = ([], full (rest e w' i)) \<and> (i = S0 \<longrightarrow> tasks w S1 = None)))"

lemma go_step:
  assumes "forked w" and "tasks w i = Some t" and "list_all plain r"
    and "size_list size r < size_list size (todo t)"
    and "talk e (tid t) (todo t) (mems w i) = (evs @ fst (talk e (tid t) r m), snd (talk e (tid t) r m)) \<or>
      evs = [] \<and> talk e (tid t) (todo t) (mems w i) = ([], full (talk e (tid t) r m)) \<and> (i = S0 \<longrightarrow> tasks w S1 = None)"
  shows "own_step e i w (go i t r m evs w)"
proof -
  have t: "space t = i" "lead t" using assms(1,2) by (auto dest: forkedD)
  have "forked (go i t r m evs w)"
    using assms(1,3) t by (auto simp: forked_def go_def)
  moreover have "rank (go i t r m evs w) < rank w"
    using assms(2,4) by (cases i) (auto simp: rank_def slot_UNIV go_def split: option.splits)
  ultimately show ?thesis using assms(2,5) t by (simp add: own_step_def go_def rest_def)
qed

lemma leave_step:
  assumes "forked w" and "tasks w i = Some t"
    and "talk e (tid t) (todo t) (mems w i) = ((if b then map Out (pending (mems w i)) else []) @ [Gone (self (mems w i)) k], [])"
  shows "own_step e i w (leave i b k w)"
proof -
  have sp: "space t' = j" if "tasks w j = Some t'" for j t' using forkedD [OF assms(1) that] by simp
  have d: "drop_space i (tasks w) = (tasks w)(i := None)"
    by (auto simp: fun_eq_iff drop_space_def dest: sp split: option.splits)
  have "forked (leave i b k w)" using assms(1) by (auto simp: forked_def leave_def d)
  moreover have "rank (leave i b k w) < rank w"
    using assms(2) d by (cases i) (auto simp: rank_def slot_UNIV leave_def)
  ultimately show ?thesis using assms(2,3) by (simp add: own_step_def leave_def d rest_def)
qed

lemma act_own_step:
  assumes f: "forked w" and a: "act e i w = Some w'"
  shows "own_step e i w w'"
proof -
  obtain t where t: "tasks w i = Some t" using a by (auto simp: act_def split: option.splits)
  have tp: "space t = i" "lead t" "list_all plain (todo t)" using forkedD [OF f t] by simp_all
  show ?thesis
  proof (cases "todo t")
    case Nil
    then have "w' = leave i True 0 w" using a t tp by (simp add: act_def)
    then show ?thesis using Nil by (simp add: leave_step [OF f t])
  next
    case (Cons s r)
    then have ex: "exec_stmt e i t s r (mems w i) w = Some w'" and pl: "plain s" "list_all plain r"
      using a t tp by (simp_all add: act_def)
    show ?thesis
    proof (cases s)
      case (Printf f)
      obtain evs m' where p: "printed e (f (tid t) (mems w i)) (mems w i) = (evs, m')" by fastforce
      then have "w' = go i t r m' evs w" using ex Printf by simp
      then show ?thesis using Cons Printf p pl(2) by (auto intro!: go_step [OF f t] simp: apfst_def map_prod_def split: prod.splits)
    next
      case (Exec g p)
      show ?thesis
      proof (cases "runs e g")
        case True
        have w': "w' = w\<lparr>mems := (mems w)(i := exec_mem (mems w i)),
            tasks := (drop_space i (tasks w))(i \<mapsto> \<lparr>space = i, lead = True, tid = self (mems w i), todo = p\<rparr>)\<rparr>"
          using ex Exec True tp(1) by simp
        have d: "drop_space i (tasks w) j = tasks w j" if "j \<noteq> i" for j
          using that forkedD [OF f] by (auto simp: drop_space_def split: option.splits)
        have "forked w'" using f pl(1) Exec d by (auto simp: w' forked_def)
        moreover have "rank w' < rank w"
          using t Cons Exec d by (cases i) (auto simp: w' rank_def slot_UNIV)
        ultimately show ?thesis using t Cons Exec True d by (simp add: own_step_def w' rest_def)
      next
        case False
        then have "w' = go i t r (mems w i) [] w" using ex Exec by simp
        then show ?thesis using Cons Exec False pl(2) by (auto intro!: go_step [OF f t])
      qed
    next
      case (System c)
      then have "w' = go i t r ((mems w i)\<lparr>rc := snd (shell e c)\<rparr>) (map Out (fst (shell e c))) w"
        using ex by (simp split: prod.splits)
      then show ?thesis using Cons System pl(2) by (auto intro!: go_step [OF f t] simp: apfst_def map_prod_def split: prod.splits)
    next
      case (If c x y)
      then show ?thesis using ex Cons pl by (auto intro!: go_step [OF f t])
    next
      case Wait
      then show ?thesis using ex Cons pl by (auto intro!: go_step [OF f t] split: if_splits)
    qed (use ex Cons pl in \<open>auto intro!: go_step [OF f t] leave_step [OF f t] simp: tp(1,2) apfst_def map_prod_def split: prod.splits\<close>)
  qed
qed

text \<open>The log as an interleaving of what the two processes have shown so far.\<close>

lemma shuffles_append: "xs \<in> shuffles a b \<Longrightarrow> xs @ c \<in> shuffles (a @ c) b"
proof (induction a b arbitrary: xs rule: shuffles.induct)
  case (1 ys)
  then have "xs @ c \<in> shuffles c (ys @ [])" if "ys = []" using that by simp
  show ?case
  proof -
    have "ys @ c \<in> shuffles c ys" by (induction ys) (auto intro: Cons_in_shuffles_rightI)
    then show ?thesis using 1 by simp
  qed
next
  case (2 xs')
  then show ?case by simp
next
  case (3 x xs' y ys)
  then show ?case by (auto intro: Cons_in_shuffles_leftI Cons_in_shuffles_rightI)
qed

lemma shuffles_append2: "xs \<in> shuffles a b \<Longrightarrow> xs @ c \<in> shuffles a (b @ c)"
  using shuffles_append [of xs b a c] by (simp add: shuffles_commutes)

definition merged :: "env \<Rightarrow> event list \<Rightarrow> event list \<Rightarrow> event list \<Rightarrow> world \<Rightarrow> bool" where
  "merged e x y z w \<longleftrightarrow> forked w \<and>
     ((\<exists>a b. log w \<in> shuffles a b \<and> (x, y) = (a @ fst (rest e w S0), snd (rest e w S0)) \<and> z = b @ full (rest e w S1)) \<or>
      tasks w S1 = None \<and> (\<exists>s c. log w = s @ c \<and> s \<in> shuffles x z \<and> y = c @ full (rest e w S0)))"

lemma merged_step:
  assumes m: "merged e x y z w" and a: "act e i w = Some w'"
  shows "merged e x y z w'"
proof -
  have f: "forked w" using m by (simp add: merged_def)
  note o = act_own_step [OF f a, unfolded own_step_def]
  obtain evs where l: "log w' = log w @ evs" and
    r: "rest e w i = (evs @ fst (rest e w' i), snd (rest e w' i)) \<or>
        evs = [] \<and> rest e w i = ([], full (rest e w' i)) \<and> (i = S0 \<longrightarrow> tasks w S1 = None)" using o by blast
  have fl: "full (rest e w i) = evs @ full (rest e w' i)" using r by auto
  have tm: "tasks w' j = tasks w j" "mems w' j = mems w j" if "j \<noteq> i" for j using o that by blast+
  have other: "rest e w' j = rest e w j" "tasks w' j = tasks w j" if "j \<noteq> i" for j
    unfolding rest_def tm [OF that] by (rule refl)+
  show ?thesis
  proof (cases "\<exists>a b. log w \<in> shuffles a b \<and> (x, y) = (a @ fst (rest e w S0), snd (rest e w S0)) \<and> z = b @ full (rest e w S1)")
    case True
    then obtain a b where ab: "log w \<in> shuffles a b" "x = a @ fst (rest e w S0)" "y = snd (rest e w S0)" "z = b @ full (rest e w S1)"
      by blast
    show ?thesis
    proof (cases i)
      case S0
      show ?thesis
      proof (cases "rest e w i = (evs @ fst (rest e w' i), snd (rest e w' i))")
        case True
        then have "x = (a @ evs) @ fst (rest e w' S0)" "y = snd (rest e w' S0)" "z = b @ full (rest e w' S1)"
          using ab S0 other(1) [of S1] by simp_all
        moreover have "log w' \<in> shuffles (a @ evs) b" using ab(1) l by (simp add: shuffles_append)
        ultimately show ?thesis using o unfolding merged_def by blast
      next
        case False
        then have w: "evs = []" "rest e w S0 = ([], full (rest e w' S0))" "tasks w S1 = None" using r S0 by auto
        then have "x = a" "y = full (rest e w' S0)" "z = b" using ab by (simp_all add: rest_def)
        then have "log w' = log w @ [] \<and> log w \<in> shuffles x z \<and> y = [] @ full (rest e w' S0)" using ab(1) l w(1) by simp
        moreover have "tasks w' S1 = None" using w(3) other(2) [of S1] S0 by simp
        ultimately show ?thesis using o unfolding merged_def by blast
      qed
    next
      case S1
      then have "z = (b @ evs) @ full (rest e w' S1)" "x = a @ fst (rest e w' S0)" "y = snd (rest e w' S0)"
        using ab fl other(1) [of S0] by simp_all
      moreover have "log w' \<in> shuffles a (b @ evs)" using ab(1) l by (simp add: shuffles_append2)
      ultimately show ?thesis using o unfolding merged_def by blast
    qed
  next
    case False
    then obtain s c where sc: "tasks w S1 = None" "log w = s @ c" "s \<in> shuffles x z" "y = c @ full (rest e w S0)"
      using m unfolding merged_def by blast
    have "i = S0" using sc(1) a by (cases i) (auto simp: act_def)
    then have "log w' = s @ (c @ evs)" "y = (c @ evs) @ full (rest e w' S0)" "tasks w' S1 = None"
      using sc l fl other(2) [of S1] by simp_all
    then show ?thesis using o sc(3) unfolding merged_def by blast
  qed
qed

lemma merged_run:
  assumes "merged e x y z w" and "run e is w = Some v"
  shows "merged e x y z v \<and> length is + rank v \<le> rank w"
  using assms
proof (induction "is" arbitrary: w)
  case (Cons i "is")
  then obtain w' where w': "act e i w = Some w'" "run e is w' = Some v" by (auto simp: Option.bind_eq_Some_conv)
  have "forked w" using Cons.prems(1) by (simp add: merged_def)
  then have "rank w' < rank w" using act_own_step [OF _ w'(1)] by (simp add: own_step_def)
  with Cons.IH [OF merged_step [OF Cons.prems(1) w'(1)] w'(2)] show ?case by simp
qed simp

text \<open>No deadlock: two processes that cannot go on have both ended.\<close>

lemma exec_some:
  assumes "plain s" and "i = S0 \<Longrightarrow> tasks w S1 = None"
  shows "exec_stmt e i t s r m w \<noteq> None"
  using assms by (cases s) (auto split: prod.splits)

lemma act_some:
  assumes "forked w" and "tasks w i = Some t" and "i = S0 \<Longrightarrow> tasks w S1 = None"
  shows "act e i w \<noteq> None"
proof (cases "todo t")
  case Nil
  then show ?thesis using assms(2) by (simp add: act_def)
next
  case (Cons s r)
  have "list_all plain (todo t)" using forkedD [OF assms(1,2)] by simp
  then have "plain s" using Cons by simp
  from exec_some [OF this assms(3)] show ?thesis using Cons assms(2) by (simp add: act_def)
qed

lemma stuck_ended:
  assumes "forked w" and "stuck e w"
  shows "tasks w i = None"
proof -
  have no: "act e j w = None" for j using assms(2) by (simp add: stuck_def)
  have s1: "tasks w S1 = None"
  proof (rule ccontr)
    assume "tasks w S1 \<noteq> None"
    then obtain t where "tasks w S1 = Some t" by blast
    from act_some [OF assms(1) this, of e] no show False by simp
  qed
  moreover have "tasks w S0 = None"
  proof (rule ccontr)
    assume "tasks w S0 \<noteq> None"
    then obtain t where "tasks w S0 = Some t" by blast
    from act_some [OF assms(1) this, of e] no s1 show False by simp
  qed
  ultimately show ?thesis by (cases i) simp_all
qed

lemma merged_end:
  assumes "merged e x y z w" and "stuck e w"
  shows "\<exists>s. log w = s @ y \<and> s \<in> shuffles x z"
proof -
  have "tasks w i = None" for i using stuck_ended assms by (simp add: merged_def)
  then show ?thesis using assms(1) by (auto simp: merged_def rest_def)
qed

text \<open>
  A program that begins with \<open>fork\<close>: what its parts can show, by the environment. When \<open>fork\<close> fails
  the program goes on alone with \<open>-1\<close>.
\<close>

definition fork_logs :: "env \<Rightarrow> int \<Rightarrow> int \<Rightarrow> stmt list \<Rightarrow> event list set" where
  "fork_logs e p q r =
     (case child e of
        None \<Rightarrow> {full (talk e p r ((start_mem p q)\<lparr>pid := - 1\<rparr>))}
      | Some c \<Rightarrow>
          let (x, y) = talk e p r ((start_mem p q)\<lparr>pid := c\<rparr>) in
          (\<lambda>s. s @ y) ` shuffles x (full (talk e c r ((start_mem p q)\<lparr>self := c, parent := p, pid := 0\<rparr>))))"

lemma fork_runs:
  assumes pl: "list_all plain r" and run: "run e is (start p q (Fork # r)) = Some w"
  shows "length is \<le> 3 + 2 * size_list size r \<and> (stuck e w \<longrightarrow> (\<forall>i. tasks w i = None) \<and> log w \<in> fork_logs e p q r)"
proof (cases "is")
  case Nil
  then have "\<not> stuck e w" using run by (auto simp: stuck_def slot_all act_def start_def Let_def split: option.splits)
  then show ?thesis using Nil by simp
next
  case (Cons i js)
  let ?m = "start_mem p q"
  let ?w0 = "start p q (Fork # r)"
  obtain w1 where w1: "act e i ?w0 = Some w1" "run e js w1 = Some w"
    using run Cons by (auto simp: Option.bind_eq_Some_conv)
  have i: "i = S0" using w1(1) by (cases i) (auto simp: act_def start_def)
  obtain x y z where m: "merged e x y z w1" "rank w1 \<le> 2 + 2 * size_list size r" "\<And>s. s \<in> shuffles x z \<Longrightarrow> s @ y \<in> fork_logs e p q r"
  proof (cases "child e")
    case None
    let ?t = "talk e p r (?m\<lparr>pid := - 1\<rparr>)"
    have "tasks w1 S1 = None" "tasks w1 S0 = Some \<lparr>space = S0, lead = True, tid = p, todo = r\<rparr>" "log w1 = []"
      "mems w1 S0 = ?m\<lparr>pid := - 1\<rparr>"
      using w1(1) None i by (auto simp: act_def start_def go_def)
    moreover from this have "forked w1" using pl by (intro forkedI, case_tac i) auto
    ultimately have "merged e (fst ?t) (snd ?t) [] w1" "rank w1 \<le> 2 + 2 * size_list size r"
      by (auto simp: merged_def rest_def rank_def slot_UNIV)
    with that [of "fst ?t" "snd ?t" "[]"] None show ?thesis by (simp add: fork_logs_def)
  next
    case (Some c)
    let ?t = "talk e p r (?m\<lparr>pid := c\<rparr>)" and ?u = "talk e c r (?m\<lparr>self := c, parent := p, pid := 0\<rparr>)"
    have "tasks w1 S1 = Some \<lparr>space = S1, lead = True, tid = c, todo = r\<rparr>"
      "tasks w1 S0 = Some \<lparr>space = S0, lead = True, tid = p, todo = r\<rparr>" "log w1 = []"
      "mems w1 S0 = ?m\<lparr>pid := c\<rparr>" "mems w1 S1 = ?m\<lparr>self := c, parent := p, pid := 0\<rparr>"
      using w1(1) Some i by (auto simp: act_def start_def go_def Let_def start_mem_def)
    moreover from this have "forked w1" using pl by (intro forkedI, case_tac i) auto
    ultimately have "merged e (fst ?t) (snd ?t) (full ?u) w1" "rank w1 \<le> 2 + 2 * size_list size r"
      by (auto simp: merged_def rest_def rank_def slot_UNIV)
    with that [of "fst ?t" "snd ?t" "full ?u"] Some show ?thesis by (simp add: fork_logs_def split_beta)
  qed
  note mr = merged_run [OF m(1) w1(2)]
  show ?thesis
  proof (intro conjI impI)
    show "length is \<le> 3 + 2 * size_list size r" using mr m(2) Cons by simp
    assume s: "stuck e w"
    show "\<forall>i. tasks w i = None" using stuck_ended [OF _ s] mr by (simp add: merged_def)
    show "log w \<in> fork_logs e p q r" using merged_end [OF conjunct1 [OF mr] s] m(3) by auto
  qed
qed

section \<open>Exploring all runs\<close>

text \<open>
  The worlds in which the runs from a world end, by trying both tasks at each step. With enough
  fuel every one of them is stuck, and then no run is longer than the fuel.
\<close>

fun explore :: "env \<Rightarrow> nat \<Rightarrow> world \<Rightarrow> world list" where
  "explore e 0 w = [w]"
| "explore e (Suc n) w =
     (case act e S0 w of
        None \<Rightarrow> (case act e S1 w of None \<Rightarrow> [w] | Some b \<Rightarrow> explore e n b)
      | Some a \<Rightarrow> explore e n a @ (case act e S1 w of None \<Rightarrow> [] | Some b \<Rightarrow> explore e n b))"

lemma explore_step: "act e i w = Some a \<Longrightarrow> set (explore e n a) \<subseteq> set (explore e (Suc n) w)"
  by (cases i) (auto split: option.splits)

lemma explore_bound:
  "\<forall>v \<in> set (explore e n w). stuck e v \<Longrightarrow> run e is w = Some u \<Longrightarrow> length is \<le> n"
proof (induction n arbitrary: "is" w)
  case 0
  then have "act e i w = None" for i by (simp add: stuck_def)
  with 0(2) show ?case by (cases "is") simp_all
next
  case (Suc n)
  show ?case
  proof (cases "is")
    case (Cons i js)
    then obtain a where a: "act e i w = Some a" "run e js a = Some u" using Suc.prems(2) by (auto simp: Option.bind_eq_Some_conv)
    have "\<forall>v \<in> set (explore e n a). stuck e v" using explore_step [OF a(1), of n] Suc.prems(1) by blast
    from Suc.IH [OF this a(2)] show ?thesis using Cons by simp
  qed simp
qed

lemma explore_sound: "run e is w = Some v \<Longrightarrow> stuck e v \<Longrightarrow> length is \<le> n \<Longrightarrow> v \<in> set (explore e n w)"
proof (induction n arbitrary: "is" w)
  case 0
  then show ?case by simp
next
  case (Suc n)
  show ?case
  proof (cases "is")
    case Nil
    then show ?thesis using Suc.prems by (simp add: stuck_def)
  next
    case (Cons i js)
    then obtain a where a: "act e i w = Some a" "run e js a = Some v" using Suc.prems(1) by (auto simp: Option.bind_eq_Some_conv)
    have "v \<in> set (explore e n a)" using Suc.IH [OF a(2) Suc.prems(2)] Suc.prems(3) Cons by simp
    then show ?thesis using explore_step [OF a(1), of n] by blast
  qed
qed

text \<open>When every run that is explored ends in a stuck world with one of some logs, so does every run.\<close>

lemma explored:
  assumes "\<forall>v \<in> set (explore e n w). stuck e v \<and> log v \<in> L" and "run e is w = Some u"
  shows "length is \<le> n \<and> (stuck e u \<longrightarrow> log u \<in> L)"
  using explore_bound [of e n w "is" u] explore_sound [of e "is" w u n] assms by blast

end
