(* ===== verification/Fork_Props.thy ===== *)
theory Fork_Props
  imports Forks
begin

text \<open>The properties of the process demos of \<open>project1\<close>.\<close>

lemmas demo_defs = main_1_1_def main_1_2_def main_1_3_def main_1_4_def main_1_5_1_def main_1_5_2_def main_system_call_def
  line_d_def print_g_def

lemmas run_simps = printed_def start_def start_mem_def eval_nat_numeral act_def go_def leave_def drop_space_def exec_mem_def
  stuck_def slot_all

lemma fork_demo_plain:
  "list_all plain (tl main_1_1)" "list_all plain (tl main_1_2)" "list_all plain (tl main_1_3)" "list_all plain (tl main_1_4)"
  "list_all plain (tl main_1_5_1)" "list_all plain (tl main_1_5_2)"
  by (simp_all add: demo_defs)

lemma fork_demo:
  assumes "prog \<in> {main_1_1, main_1_2, main_1_3, main_1_4, main_1_5_1, main_1_5_2}"
    and "run e is (start p q prog) = Some w"
  shows "length is \<le> 40 \<and> (stuck e w \<longrightarrow> (\<forall>i. tasks w i = None) \<and> log w \<in> fork_logs e p q (tl prog))"
proof -
  have "prog = Fork # tl prog" "list_all plain (tl prog)" "3 + 2 * size_list size (tl prog) \<le> 40"
    using assms(1) fork_demo_plain by (auto simp: demo_defs)
  with fork_runs [of "tl prog" e "is" p q w] assms(2) show ?thesis by simp
qed

text \<open>C34: \<open>fork\<close> copies the memory: in every ended run of \<open>1-4.c\<close>, however the two processes are scheduled,
  the child's global counts 150 and 300 and the parent's 70 and 71; on a terminal the first line of
  the parent comes anywhere among those of the child and its second one after the child has ended,
  elsewhere all output of the child comes first. No schedule is longer than 40 steps, and a run
  that cannot go on has ended. When \<open>fork\<close> fails the program takes itself for the parent.\<close>
theorem fork_copies_memory:
  assumes "run e is (start p q main_1_4) = Some w" and "\<forall>c. child e = Some c \<longrightarrow> 0 < c"
  shows "length is \<le> 40 \<and> (stuck e w \<longrightarrow> (\<forall>i. tasks w i = None) \<and>
    (case child e of
       None \<Rightarrow> log w = [Out (g_line ''parent-after-fork'' p 70), Out (g_line ''parent-before-exit'' p 71), Gone p 0]
     | Some c \<Rightarrow>
         if tty e
         then \<exists>s \<in> shuffles [Out (g_line ''parent-after-fork'' p 70)]
             [Out (g_line ''child-before-return'' c 150), Out (g_line ''child-before-exit'' c 300), Gone c 0].
           log w = s @ [Out (g_line ''parent-before-exit'' p 71), Gone p 0]
         else log w = [Out (g_line ''child-before-return'' c 150), Out (g_line ''child-before-exit'' c 300), Gone c 0,
           Out (g_line ''parent-after-fork'' p 70), Out (g_line ''parent-before-exit'' p 71), Gone p 0]))"
proof -
  note d = fork_demo [OF _ assms(1)]
  have l: "length is \<le> 40" "stuck e w \<longrightarrow> (\<forall>i. tasks w i = None) \<and> log w \<in> fork_logs e p q (tl main_1_4)" using d by simp_all
  then show ?thesis
    using assms(2) by (cases "tty e") (auto simp: fork_logs_def demo_defs printed_def start_mem_def split: option.splits)
qed

text \<open>One schedule for the witnesses: the child runs first, on a terminal, and all calls succeed.\<close>

definition demo_env :: env where
  "demo_env = \<lparr>tty = True, child = Some 2, thread = Some 3, runs = (\<lambda>_. True), shell = (\<lambda>_. ([], 0)), why = []\<rparr>"

lemma fork_copies_memory_witness:
  "\<exists>w. run demo_env (S0 # replicate 6 S1 @ replicate 7 S0) (start 1 0 main_1_4) = Some w \<and> stuck demo_env w \<and>
     (\<exists>s. log w = s @ [Out (g_line ''parent-before-exit'' 1 71), Gone 1 0])"
proof -
  let ?r = "run demo_env (S0 # replicate 6 S1 @ replicate 7 S0) (start 1 0 main_1_4)"
  obtain w where w: "?r = Some w" "stuck demo_env w"
    by (simp add: demo_env_def demo_defs run_simps)
  have "\<forall>c. child demo_env = Some c \<longrightarrow> 0 < c" by (simp add: demo_env_def)
  from fork_copies_memory [OF w(1) this] w show ?thesis by (auto simp: demo_env_def)
qed

text \<open>\<open>1-5-1.c\<close>: \<open>system\<close> comes back, after what the command has written.\<close>

lemma system_returns:
  assumes "run e is (start p q main_1_5_1) = Some w" and "child e = Some c" and "0 < c" and "stuck e w"
  shows "\<exists>s \<in> shuffles (if tty e then [Out (pid_line ''parent process PID: '' p)] else [])
      (if tty e
       then Out (pid_line ''child process1 PID: '' c) # map Out (fst (shell e (bytes_of ''./system_call''))) @
         [Out (pid_line ''child process PID: '' c), Gone c 0]
       else map Out (fst (shell e (bytes_of ''./system_call''))) @
         [Out (pid_line ''child process1 PID: '' c), Out (pid_line ''child process PID: '' c), Gone c 0]).
    log w = s @ (if tty e then [] else [Out (pid_line ''parent process PID: '' p)]) @ [Gone p 0]"
proof -
  have "log w \<in> fork_logs e p q (tl main_1_5_1)" using fork_demo [OF _ assms(1)] assms(4) by simp
  then show ?thesis
    using assms(2,3) by (cases "tty e") (auto simp: fork_logs_def demo_defs pid_line_def printed_def start_mem_def)
qed

text \<open>C35: \<open>execl\<close> in \<open>1-5-2.c\<close> does not come back: in every ended run the child shows the line of
  \<open>system_call\<close> under its own number and exits with that program's code, or, when the file cannot be
  run, the message of \<open>perror\<close> and code 127; the parent ends after it. What the child printed before
  is shown only on a terminal: otherwise it was still in the buffer, which \<open>execl\<close> and \<open>_exit\<close> drop.\<close>
theorem execl_replaces_child:
  assumes "run e is (start p q main_1_5_2) = Some w" and "child e = Some c" and "0 < c"
  shows "length is \<le> 40 \<and> (stuck e w \<longrightarrow> (\<forall>i. tasks w i = None) \<and>
    (\<exists>s \<in> shuffles (if tty e then [Out (pid_line ''parent process PID: '' p)] else [])
        ((if tty e then [Out (pid_line ''child process1 PID: '' c)] else []) @
         (if runs e (bytes_of ''./system_call'') then [Out (pid_line ''system_call running in pid='' c), Gone c 0]
          else [Err (bytes_of ''execl failed: '' @ why e @ [10]), Gone c 127])).
      log w = s @ (if tty e then [] else [Out (pid_line ''parent process PID: '' p)]) @ [Gone p 0]))"
proof -
  have l: "length is \<le> 40" "stuck e w \<longrightarrow> (\<forall>i. tasks w i = None) \<and> log w \<in> fork_logs e p q (tl main_1_5_2)"
    using fork_demo [OF _ assms(1)] by simp_all
  then show ?thesis
    using assms(2,3)
    by (cases "tty e"; cases "runs e (bytes_of ''./system_call'')")
      (auto simp: fork_logs_def demo_defs pid_line_def printed_def start_mem_def exec_mem_def bytes_of_def)
qed

lemma execl_replaces_child_witness:
  "\<exists>w. run demo_env (replicate 3 S0 @ S0 # replicate 6 S1 @ replicate 2 S0) (start 1 0 main_1_5_2) = Some w \<and> stuck demo_env w \<and>
     (\<exists>s \<in> shuffles [Out (pid_line ''parent process PID: '' 1)]
        [Out (pid_line ''child process1 PID: '' 2), Out (pid_line ''system_call running in pid='' 2), Gone 2 0].
      log w = s @ [Gone 1 0])"
proof -
  let ?r = "run demo_env (replicate 3 S0 @ S0 # replicate 6 S1 @ replicate 2 S0) (start 1 0 main_1_5_2)"
  obtain w where w: "?r = Some w" "stuck demo_env w"
    by (simp add: demo_env_def demo_defs run_simps)
  have "child demo_env = Some 2" "(0 :: int) < 2" by (simp_all add: demo_env_def)
  from execl_replaces_child [OF w(1) this] w show ?thesis by (auto simp: demo_env_def)
qed

text \<open>
  With \<open>wait\<close> the parent of \<open>1-1.c\<close> ends last; without it, in \<open>1-2.c\<close>, the child may outlive its parent.
\<close>

lemma wait_orders_exit:
  assumes "run e is (start p q main_1_1) = Some w" and "child e = Some c" and "0 < c" and "stuck e w"
  shows "last (log w) = Gone p 0"
proof -
  have "log w \<in> fork_logs e p q (tl main_1_1)" using fork_demo [OF _ assms(1)] assms(4) by simp
  then show ?thesis
    using assms(2,3) by (cases "tty e") (auto simp: fork_logs_def demo_defs printed_def start_mem_def)
qed

lemma unwaited_child:
  "\<exists>w. run demo_env (replicate 7 S0 @ replicate 6 S1) (start 1 0 main_1_2) = Some w \<and> stuck demo_env w \<and> last (log w) = Gone 2 0"
  by (simp add: demo_env_def demo_defs run_simps)

text \<open>The threads of one process, by exploring all their runs.\<close>

definition HELPER_ARGS :: "bytes list" where
  "HELPER_ARGS = [bytes_of ''./exec_helper'', bytes_of ''argA'', bytes_of ''argB'']"

definition helper_lines :: "int \<Rightarrow> int \<Rightarrow> event list" where
  "helper_lines p q =
     Out (bytes_of ''[exec_helper] hello. my PID='' @ fmt_d p @ bytes_of '', PPID='' @ fmt_d q @ bytes_of ''. argc='' @ fmt_d 3 @ [10]) #
     map (\<lambda>i. Out (bytes_of ''[exec_helper] argv['' @ fmt_d (int i) @ bytes_of '']='' @ HELPER_ARGS ! i @ [10])) [0..<3]"

definition exec_thread_log :: "env \<Rightarrow> int \<Rightarrow> int \<Rightarrow> event list" where
  "exec_thread_log e p q =
     (let main = Out (ids_line ''[main] '' p p []);
          before = (\<lambda>k. Out (ids_line ''[exec-thread] before exec: '' p k []));
          after = Out (bytes_of ''[main] after join (this usually indicates execv failed)'' @ [10]);
          err = (\<lambda>x. Err (bytes_of x @ bytes_of '': '' @ why e @ [10]))
      in case thread e of
           None \<Rightarrow> (if tty e then [main, err ''pthread_create''] else [err ''pthread_create'', main]) @ [Gone p 1]
         | Some k \<Rightarrow>
             (if runs e (bytes_of ''./exec_helper'') then (if tty e then [main, before k] else []) @ helper_lines p q
              else (if tty e then [main, before k, err ''execv failed''] else [err ''execv failed'', main, before k]) @ [after]) @
             [Gone p 0])"

lemma explore_exec:
  "\<forall>v \<in> set (explore e 20 (start p q main_exec_thread)). stuck e v \<and> log v \<in> {exec_thread_log e p q}"
  by (cases "tty e"; cases "runs e (bytes_of ''./exec_helper'')"; cases "thread e")
    (simp_all add: main_exec_thread_def worker_exec_def main_exec_helper_def print_ids_def run_simps exec_thread_log_def helper_lines_def HELPER_ARGS_def)

text \<open>C36: \<open>execv\<close> in a thread replaces the whole process: in every ended run of
  \<open>step3_exec_in_thread.c\<close>, however the threads are scheduled, the output ends with the four lines of
  \<open>exec_helper\<close> under the number of the process and its code 0, and the line after \<open>pthread_join\<close> is
  printed only when \<open>execv\<close> has failed; the two lines before are lost unless standard output is a
  terminal. No run is longer than 20 steps. The failures of \<open>pthread_create\<close> and \<open>execv\<close> are included.\<close>
theorem exec_in_thread:
  assumes "run e is (start p q main_exec_thread) = Some w"
  shows "length is \<le> 20 \<and> (stuck e w \<longrightarrow> log w = exec_thread_log e p q)"
  using explored [OF explore_exec assms] by simp

lemma exec_in_thread_witness:
  "\<exists>w. run demo_env ([S0, S0, S1, S0, S1] @ replicate 5 S1) (start 1 0 main_exec_thread) = Some w \<and> stuck demo_env w \<and>
     log w = exec_thread_log demo_env 1 0"
proof -
  let ?r = "run demo_env ([S0, S0, S1, S0, S1] @ replicate 5 S1) (start 1 0 main_exec_thread)"
  obtain w where w: "?r = Some w" "stuck demo_env w"
    by (simp add: demo_env_def main_exec_thread_def worker_exec_def main_exec_helper_def print_ids_def run_simps)
  from exec_in_thread [OF w(1)] w show ?thesis by simp
qed

text \<open>\<open>step3_system_in_thread.c\<close>: \<open>system\<close> leaves the process and its threads as they were.\<close>

definition system_thread_log :: "env \<Rightarrow> int \<Rightarrow> event list" where
  "system_thread_log e p =
     (let main = Out (ids_line ''[main] '' p p []); (xs, code) = shell e SHELL_CMD in
      case thread e of
        None \<Rightarrow> (let err = Err (bytes_of ''pthread_create'' @ bytes_of '': '' @ why e @ [10]) in if tty e then [main, err] else [err, main]) @ [Gone p 1]
      | Some k \<Rightarrow>
          (let calling = Out (ids_line ''[system-thread] '' p k SYSTEM_TEXT);
               returned = Out (bytes_of ''[system-thread] PID='' @ fmt_d p @ bytes_of '' TID='' @ fmt_d k @
                 bytes_of '' : system() returned rc='' @ fmt_d code @ [10])
           in (if tty e then [main, calling] @ map Out xs @ [returned] else map Out xs @ [main, calling, returned]) @
              [Out (ids_line ''[main] '' p p '' : done''), Gone p 0]))"

lemma explore_system:
  "\<forall>v \<in> set (explore e 20 (start p q main_system_thread)). stuck e v \<and> log v \<in> {system_thread_log e p}"
  by (cases "tty e"; cases "thread e")
    (simp_all add: main_system_thread_def worker_system_def print_ids_def run_simps system_thread_log_def split_beta)

lemma system_in_thread:
  assumes "run e is (start p q main_system_thread) = Some w" 
  shows "length is \<le> 20 \<and> (stuck e w \<longrightarrow> log w = system_thread_log e p)"
  using explored [OF explore_system assms] by simp

end
