(* ===== verification/Pipe.thy ===== *)
theory Pipe
  imports Prelude
begin

text \<open>
  \<open>project2/part2/pipe_communication.c\<close>: two children write \<open>WRITE_COUNT\<close> characters each into one
  pipe, with or without a lock around their loops, and the parent reads what they wrote after both
  have ended. The processes are interleaved one system call at a time. The pipe holds \<open>cap\<close> bytes
  and a write to a full pipe waits; \<open>lockf\<close> waits while another process holds the lock, and a process
  that ends gives it up. How a call turns out (whether \<open>fork\<close> and \<open>write\<close> succeed, how much \<open>read\<close>
  returns) is chosen by the action.
\<close>

section \<open>State\<close>

datatype child = Child1 | Child2

text \<open>The place of a child: before \<open>lockf\<close>, in its loop, asleep, before its last \<open>close\<close>, ended with a status.\<close>

datatype kid = Unforked | Locking | Writing nat | Sleeping | Closing | Gone int

datatype parent = Fork1 | Fork2 | Wait1 | Wait2 | Reading | Reported | ReadError

record pipe_conf =
  chan :: bytes
  holder :: "child option"
  kids :: "child \<Rightarrow> kid"
  par :: parent
  in_pipe :: bytes

datatype outcome = Got nat | Interrupted | Failed

datatype pipe_act = Kid child bool | Par outcome

definition WRITE_COUNT :: nat where "WRITE_COUNT = 2000"

definition mark :: "child \<Rightarrow> u8" where
  "mark c = (case c of Child1 \<Rightarrow> 49 | Child2 \<Rightarrow> 50)"

definition pipe_boot :: pipe_conf where
  "pipe_boot = \<lparr>chan = [], holder = None, kids = (\<lambda>_. Unforked), par = Fork1, in_pipe = []\<rparr>"

section \<open>Steps\<close>

definition unlocked :: "child \<Rightarrow> pipe_conf \<Rightarrow> pipe_conf" where
  "unlocked c s = s\<lparr>holder := if holder s = Some c then None else holder s\<rparr>"

definition go_kid :: "child \<Rightarrow> kid \<Rightarrow> pipe_conf \<Rightarrow> pipe_conf" where
  "go_kid c k s = s\<lparr>kids := (kids s)(c := k)\<rparr>"

definition child_step :: "nat \<Rightarrow> bool \<Rightarrow> nat \<Rightarrow> child \<Rightarrow> bool \<Rightarrow> pipe_conf \<Rightarrow> pipe_conf option" where
  "child_step cap use_lock n c ok s =
     (case kids s c of
        Unforked \<Rightarrow> None
      | Locking \<Rightarrow>
          if \<not> use_lock then Some (go_kid c (Writing 0) s)
          else if holder s = None then Some (go_kid c (Writing 0) (s\<lparr>holder := Some c\<rparr>))
          else None
      | Writing i \<Rightarrow>
          if \<not> i < n then Some (go_kid c Sleeping s)
          else if \<not> ok then Some (go_kid c (Gone 1) (unlocked c s))
          else if length (chan s) < cap then Some (go_kid c (Writing (Suc i)) (s\<lparr>chan := chan s @ [mark c]\<rparr>))
          else None
      | Sleeping \<Rightarrow> Some (go_kid c Closing (if use_lock then unlocked c s else s))
      | Closing \<Rightarrow> Some (go_kid c (Gone 0) (unlocked c s))
      | Gone _ \<Rightarrow> None)"

definition gone :: "kid \<Rightarrow> bool" where
  "gone k = (case k of Gone _ \<Rightarrow> True | _ \<Rightarrow> False)"

definition read_step :: "nat \<Rightarrow> outcome \<Rightarrow> pipe_conf \<Rightarrow> pipe_conf" where
  "read_step n out s =
     (if \<not> length (in_pipe s) < 2 * n then s\<lparr>par := Reported\<rparr>
      else case out of
        Failed \<Rightarrow> s\<lparr>par := ReadError\<rparr>
      | Interrupted \<Rightarrow> s
      | Got k \<Rightarrow>
          if chan s = [] then s\<lparr>par := Reported\<rparr>
          else let m = min (max 1 k) (2 * n - length (in_pipe s)) in
               s\<lparr>in_pipe := in_pipe s @ take m (chan s), chan := drop m (chan s)\<rparr>)"

definition parent_step :: "nat \<Rightarrow> outcome \<Rightarrow> pipe_conf \<Rightarrow> pipe_conf option" where
  "parent_step n out s =
     (case par s of
        Fork1 \<Rightarrow> Some (if out = Failed then s else go_kid Child1 Locking (s\<lparr>par := Fork2\<rparr>))
      | Fork2 \<Rightarrow> Some (if out = Failed then s else go_kid Child2 Locking (s\<lparr>par := Wait1\<rparr>))
      | Wait1 \<Rightarrow> if gone (kids s Child1) \<or> gone (kids s Child2) then Some (s\<lparr>par := Wait2\<rparr>) else None
      | Wait2 \<Rightarrow> if gone (kids s Child1) \<and> gone (kids s Child2) then Some (s\<lparr>par := Reading\<rparr>) else None
      | Reading \<Rightarrow> Some (read_step n out s)
      | Reported \<Rightarrow> None
      | ReadError \<Rightarrow> None)"

definition pipe_next :: "nat \<Rightarrow> bool \<Rightarrow> nat \<Rightarrow> pipe_act \<Rightarrow> pipe_conf \<Rightarrow> pipe_conf option" where
  "pipe_next cap use_lock n a s =
     (case a of Kid c ok \<Rightarrow> child_step cap use_lock n c ok s | Par out \<Rightarrow> parent_step n out s)"

inductive pipe_program :: "nat \<Rightarrow> bool \<Rightarrow> nat \<Rightarrow> pipe_conf \<Rightarrow> bool" for cap use_lock n where
  boot: "pipe_program cap use_lock n pipe_boot"
| move: "pipe_program cap use_lock n s \<Longrightarrow> pipe_next cap use_lock n a s = Some t \<Longrightarrow> pipe_program cap use_lock n t"

text \<open>A schedule; an action that cannot happen is passed over.\<close>

fun pipe_run :: "nat \<Rightarrow> bool \<Rightarrow> nat \<Rightarrow> pipe_act list \<Rightarrow> pipe_conf \<Rightarrow> pipe_conf" where
  "pipe_run cap l n [] s = s"
| "pipe_run cap l n (a # as) s = pipe_run cap l n as (case pipe_next cap l n a s of None \<Rightarrow> s | Some t \<Rightarrow> t)"

lemma pipe_program_run: "pipe_program cap l n s \<Longrightarrow> pipe_program cap l n (pipe_run cap l n as s)"
  by (induction as arbitrary: s) (auto split: option.split intro: pipe_program.move)

section \<open>The report\<close>

text \<open>The two counts and the number of changes from one character to the other.\<close>

definition stats_round :: "bytes \<Rightarrow> nat \<Rightarrow> nat \<times> nat \<times> nat \<Rightarrow> nat \<times> nat \<times> nat" where
  "stats_round x i = (\<lambda>(c1, c2, sw).
     (if x ! i = 49 then c1 + 1 else c1,
      if x ! i \<noteq> 49 \<and> x ! i = 50 then c2 + 1 else c2,
      if i > 0 \<and> x ! i \<noteq> x ! (i - 1) then sw + 1 else sw))"

definition stats :: "bytes \<Rightarrow> nat \<times> nat \<times> nat" where
  "stats x = fold (stats_round x) [0..<length x] (0, 0, 0)"

text \<open>What is printed: the number of bytes, the statistics, the first and the last 120 characters.\<close>

definition report :: "bytes \<Rightarrow> nat \<times> (nat \<times> nat \<times> nat) \<times> bytes \<times> bytes" where
  "report x = (length x, stats x, take 120 x, if length x > 120 then drop (length x - 120) x else x)"

definition turns :: "bytes \<Rightarrow> nat" where
  "turns x = card {i. 0 < i \<and> i < length x \<and> x ! i \<noteq> x ! (i - 1)}"

lemma stats_upto:
  "k \<le> length x \<Longrightarrow> fold (stats_round x) [0..<k] (0, 0, 0) =
    (count_list (take k x) 49, count_list (take k x) 50, card {i. 0 < i \<and> i < k \<and> x ! i \<noteq> x ! (i - 1)})"
proof (induction k)
  case (Suc k)
  have s: "{i. 0 < i \<and> i < Suc k \<and> x ! i \<noteq> x ! (i - 1)} =
    (if 0 < k \<and> x ! k \<noteq> x ! (k - 1) then insert k {i. 0 < i \<and> i < k \<and> x ! i \<noteq> x ! (i - 1)}
     else {i. 0 < i \<and> i < k \<and> x ! i \<noteq> x ! (i - 1)})"
    by (auto simp: less_Suc_eq)
  have f: "finite {i. 0 < i \<and> i < k \<and> x ! i \<noteq> x ! (i - 1)}" by simp
  have u: "fold (stats_round x) [0..<Suc k] (0, 0, 0) = stats_round x k (fold (stats_round x) [0..<k] (0, 0, 0))" by simp
  have t: "take (Suc k) x = take k x @ [x ! k]" using Suc.prems by (simp add: take_Suc_conv_app_nth)
  have ih: "fold (stats_round x) [0..<k] (0, 0, 0) =
    (count_list (take k x) 49, count_list (take k x) 50, card {i. 0 < i \<and> i < k \<and> x ! i \<noteq> x ! (i - 1)})"
    using Suc by simp
  show ?case unfolding u ih s t using f by (auto simp: stats_round_def)
qed simp

lemma stats_eq: "stats x = (count_list x 49, count_list x 50, turns x)"
  using stats_upto [of "length x" x] by (simp add: stats_def turns_def)

lemma count_replicate: "count_list (replicate k a) b = (if a = b then k else 0)"
  by (induction k) auto

lemma turns_two_blocks: "0 < a \<Longrightarrow> 0 < b \<Longrightarrow> x \<noteq> y \<Longrightarrow> turns (replicate a x @ replicate b y) = 1"
proof -
  assume "0 < a" "0 < b" "x \<noteq> y"
  then have "{i. 0 < i \<and> i < length (replicate a x @ replicate b y) \<and>
      (replicate a x @ replicate b y) ! i \<noteq> (replicate a x @ replicate b y) ! (i - 1)} = {a}"
    by (auto simp: nth_append)
  then show ?thesis by (simp add: turns_def)
qed

lemma count_two: "set x \<subseteq> {49, 50 :: u8} \<Longrightarrow> length x = count_list x 49 + count_list x 50"
  by (induction x) auto

section \<open>Invariant\<close>

definition other :: "child \<Rightarrow> child" where
  "other c = (case c of Child1 \<Rightarrow> Child2 | Child2 \<Rightarrow> Child1)"

lemma other_simps [simp]: "other c \<noteq> c" "c \<noteq> other c" "other (other c) = c"
  by (cases c; simp add: other_def)+

lemma child_cases: "d = c \<or> d = other c"
  by (cases c; cases d) (simp_all add: other_def)

lemma mark_simps [simp]: "mark c = mark d \<longleftrightarrow> c = d" "mark c \<in> {49, 50}"
  by (cases c; cases d; simp add: mark_def)+

definition sent :: "pipe_conf \<Rightarrow> bytes" where
  "sent s = in_pipe s @ chan s"

definition cnt :: "pipe_conf \<Rightarrow> child \<Rightarrow> nat" where
  "cnt s c = count_list (sent s) (mark c)"

definition wrote :: "nat \<Rightarrow> kid \<Rightarrow> nat \<Rightarrow> bool" where
  "wrote n k m = (case k of
     Unforked \<Rightarrow> m = 0 | Locking \<Rightarrow> m = 0 | Writing i \<Rightarrow> m = i \<and> i \<le> n
   | Sleeping \<Rightarrow> m = n | Closing \<Rightarrow> m = n | Gone e \<Rightarrow> m \<le> n \<and> (e = 0 \<and> m = n \<or> e = 1))"

definition inside :: "kid \<Rightarrow> bool" where
  "inside k = (case k of Writing _ \<Rightarrow> True | Sleeping \<Rightarrow> True | _ \<Rightarrow> False)"

definition past :: "kid \<Rightarrow> bool" where
  "past k = (case k of Closing \<Rightarrow> True | Gone _ \<Rightarrow> True | _ \<Rightarrow> False)"

definition blocks_of :: "pipe_conf \<Rightarrow> child \<Rightarrow> bool" where
  "blocks_of s c \<longleftrightarrow> sent s = replicate (cnt s c) (mark c) @ replicate (cnt s (other c)) (mark (other c)) \<and>
     (0 < cnt s (other c) \<longrightarrow> past (kids s c))"

definition lock_ok :: "bool \<Rightarrow> pipe_conf \<Rightarrow> bool" where
  "lock_ok l s \<longleftrightarrow> (if l then (\<forall>c. holder s = Some c \<longleftrightarrow> inside (kids s c)) \<and> (\<exists>c. blocks_of s c) else holder s = None)"

definition par_ok :: "nat \<Rightarrow> pipe_conf \<Rightarrow> bool" where
  "par_ok n s \<longleftrightarrow> (case par s of
     Fork1 \<Rightarrow> kids s = (\<lambda>_. Unforked) \<and> in_pipe s = []
   | Fork2 \<Rightarrow> kids s Child2 = Unforked \<and> kids s Child1 \<noteq> Unforked \<and> in_pipe s = []
   | Wait1 \<Rightarrow> (\<forall>c. kids s c \<noteq> Unforked) \<and> in_pipe s = []
   | Wait2 \<Rightarrow> (\<forall>c. kids s c \<noteq> Unforked) \<and> in_pipe s = []
   | Reading \<Rightarrow> (\<forall>c. gone (kids s c))
   | Reported \<Rightarrow> (\<forall>c. gone (kids s c)) \<and> (chan s = [] \<or> 2 * n \<le> length (in_pipe s))
   | ReadError \<Rightarrow> (\<forall>c. gone (kids s c)))"

definition pipe_inv :: "nat \<Rightarrow> bool \<Rightarrow> nat \<Rightarrow> pipe_conf \<Rightarrow> bool" where
  "pipe_inv cap l n s \<longleftrightarrow> set (sent s) \<subseteq> {49, 50} \<and> (\<forall>c. wrote n (kids s c) (cnt s c)) \<and> length (sent s) \<le> cap \<and>
     lock_ok l s \<and> par_ok n s"

lemma pipe_inv_boot: "pipe_inv cap l n pipe_boot"
proof -
  have "blocks_of pipe_boot Child1" by (simp add: blocks_of_def pipe_boot_def sent_def cnt_def)
  then have "lock_ok l pipe_boot" by (auto simp: lock_ok_def pipe_boot_def inside_def)
  then show ?thesis by (simp add: pipe_inv_def pipe_boot_def sent_def cnt_def wrote_def par_ok_def)
qed

text \<open>A step of a child in which nothing is written.\<close>

lemma quiet_step:
  assumes i: "pipe_inv cap l n s" and k: "wrote n k (cnt s c)" "kids s c \<noteq> Unforked" "k \<noteq> Unforked" "\<not> gone (kids s c)"
    and t: "t = go_kid c k (s\<lparr>holder := h\<rparr>)"
    and h: "if l then (\<forall>d. h = Some d \<longleftrightarrow> inside (if d = c then k else kids s d)) else h = None"
    and p: "past (kids s c) \<longrightarrow> past k"
  shows "pipe_inv cap l n t"
proof -
  note I = i [unfolded pipe_inv_def]
  have e: "sent t = sent s" "cnt t = cnt s" "chan t = chan s" "par t = par s" "in_pipe t = in_pipe s" "holder t = h"
    "kids t d = (if d = c then k else kids s d)" for d
    by (simp_all add: t go_kid_def sent_def cnt_def fun_eq_iff)
  have "blocks_of t d" if "blocks_of s d" for d using that p by (auto simp: blocks_of_def e)
  then have "lock_ok l t" using I h by (auto simp: lock_ok_def e split: if_splits)
  moreover have "par_ok n t" using I k by (cases "par s") (auto simp: par_ok_def e fun_eq_iff)
  moreover have "\<forall>d. wrote n (kids t d) (cnt t d)" using I k(1) by (simp add: e)
  ultimately show ?thesis using I by (simp add: pipe_inv_def e)
qed

text \<open>A step of a child that writes its character.\<close>

lemma write_step:
  assumes i: "pipe_inv cap l n s" and k: "kids s c = Writing j" "j < n" "length (chan s) < cap"
    and t: "t = go_kid c (Writing (Suc j)) (s\<lparr>chan := chan s @ [mark c]\<rparr>)"
  shows "pipe_inv cap l n t"
proof -
  note I = i [unfolded pipe_inv_def]
  have e: "sent t = sent s @ [mark c]" "length (chan t) = Suc (length (chan s))" "par t = par s" "in_pipe t = in_pipe s"
    "holder t = holder s" "kids t d = (if d = c then Writing (Suc j) else kids s d)"
    "cnt t d = (if d = c then Suc (cnt s d) else cnt s d)" for d
    by (simp_all add: t go_kid_def sent_def cnt_def)
  have w: "wrote n (Writing j) (cnt s c)" using I k(1) by metis
  then have cj: "cnt s c = j" by (simp add: wrote_def)
  have "\<exists>d. blocks_of t d" if l: l
  proof -
    obtain d where d: "blocks_of s d" using I l unfolding lock_ok_def by auto
    have nh: "\<not> inside (kids s (other c))" 
    proof -
      have h: "holder s = Some d \<longleftrightarrow> inside (kids s d)" for d using I l by (simp add: lock_ok_def)
      have "holder s = Some c" using h [of c] k(1) by (simp add: inside_def)
      then show ?thesis using h [of "other c"] by simp
    qed
    have mine: "blocks_of t c" if "cnt s (other c) = 0" "sent s = replicate j (mark c)"
      using that cj by (simp add: blocks_of_def e replicate_append_same)
    show ?thesis
    proof (cases "d = c")
      case True
      then have "cnt s (other c) = 0" using d k(1) by (auto simp: blocks_of_def past_def)
      then show ?thesis using mine d True cj by (auto simp: blocks_of_def)
    next
      case False
      then have dc: "d = other c" using child_cases [of d c] by blast
      show ?thesis
      proof (cases "past (kids s (other c))")
        case True
        then have "blocks_of t (other c)" using d by (simp add: dc blocks_of_def e replicate_append_same)
        then show ?thesis by blast
      next
        case False
        then have "cnt s (other c) = 0" using I nh
          by (cases "kids s (other c)") (auto simp: wrote_def past_def inside_def dest: spec [of _ "other c"])
        then show ?thesis using mine d dc cj by (auto simp: blocks_of_def)
      qed
    qed
  qed
  moreover have "inside (kids t d) = inside (kids s d)" for d using k(1) by (simp add: e inside_def)
  ultimately have "lock_ok l t" using I by (simp add: lock_ok_def e)
  moreover have "par_ok n t" using I k(1)
    by (cases "par s") (auto simp: par_ok_def e fun_eq_iff gone_def dest: spec [of _ c])
  moreover have "\<forall>d. wrote n (kids t d) (cnt t d)" using I w k(2) cj by (auto simp: e wrote_def)
  moreover have "set (sent t) \<subseteq> {49, 50}" using I mark_simps(2) [of c] by (simp add: e)
  moreover have "in_pipe s = []"
    using I k(1) by (cases "par s") (auto simp: par_ok_def gone_def dest: spec [of _ c])
  then have "length (sent t) \<le> cap" using k(3) e(1) by (simp add: sent_def)
  ultimately show ?thesis by (simp add: pipe_inv_def)
qed

lemma child_step_inv:
  assumes i: "pipe_inv cap l n s" and t: "child_step cap l n c ok s = Some t"
  shows "pipe_inv cap l n t"
proof -
  have w: "wrote n (kids s c) (cnt s c)" using i by (simp add: pipe_inv_def)
  have h: "if l then (\<forall>d. holder s = Some d \<longleftrightarrow> inside (kids s d)) else holder s = None"
    using i by (auto simp: pipe_inv_def lock_ok_def split: if_splits)
  note q = quiet_step [OF i]
  have out: "if l then (\<forall>d. holder (unlocked c s) = Some d \<longleftrightarrow> inside (if d = c then k else kids s d)) else holder (unlocked c s) = None"
    if k: "\<not> inside k" for k
  proof (cases l)
    case True
    then have "inside (kids s d) \<longleftrightarrow> holder s = Some d" for d using h by simp
    then show ?thesis using True k by (auto simp: unlocked_def)
  qed (use h in \<open>simp add: unlocked_def\<close>)
  show ?thesis
  proof (cases "kids s c")
    case Locking
    then consider "\<not> l" "t = go_kid c (Writing 0) s" | "l" "holder s = None" "t = go_kid c (Writing 0) (s\<lparr>holder := Some c\<rparr>)"
      using t by (auto simp: child_step_def split: if_splits)
    then show ?thesis
    proof cases
      case 1
      show ?thesis by (rule q [of "Writing 0" c t None]) (use Locking 1 w h in \<open>simp_all add: wrote_def go_kid_def gone_def past_def\<close>)
    next
      case 2
      show ?thesis by (rule q [of "Writing 0" c t "Some c"]) (use Locking 2 w h in \<open>auto simp: wrote_def gone_def past_def inside_def\<close>)
    qed
  next
    case (Writing j)
    then consider "\<not> j < n" "t = go_kid c Sleeping s" | "t = go_kid c (Gone 1) (unlocked c s)"
      | "j < n" "length (chan s) < cap" "t = go_kid c (Writing (Suc j)) (s\<lparr>chan := chan s @ [mark c]\<rparr>)"
      using t by (auto simp: child_step_def split: if_splits)
    then show ?thesis
    proof cases
      case 1
      show ?thesis by (rule q [of Sleeping c t "holder s"]) (use Writing 1 w h in \<open>auto simp: wrote_def gone_def past_def inside_def go_kid_def\<close>)
    next
      case 2
      show ?thesis
        by (rule q [of "Gone 1" c t "holder (unlocked c s)", OF _ _ _ _ _ out])
          (use Writing 2 w in \<open>auto simp: wrote_def gone_def past_def inside_def unlocked_def\<close>)
    next
      case 3
      then show ?thesis using write_step [OF i Writing] by blast
    qed
  next
    case Sleeping
    then have t: "t = go_kid c Closing (if l then unlocked c s else s)" using t by (simp add: child_step_def)
    have "t = go_kid c Closing (s\<lparr>holder := holder (unlocked c s)\<rparr>)" using h by (auto simp: t go_kid_def unlocked_def)
    from q [OF _ _ _ _ this out] show ?thesis using Sleeping w by (simp add: wrote_def gone_def past_def inside_def)
  next
    case Closing
    then have "t = go_kid c (Gone 0) (s\<lparr>holder := holder (unlocked c s)\<rparr>)" using t by (simp add: child_step_def unlocked_def)
    from q [OF _ _ _ _ this out] show ?thesis using Closing w by (simp add: wrote_def gone_def past_def inside_def)
  qed (use t in \<open>simp_all add: child_step_def\<close>)
qed

text \<open>Steps of the parent: a fork, and everything else, which leaves the children alone.\<close>

lemma fork_step:
  assumes i: "pipe_inv cap l n s" and k: "kids s c = Unforked" and t: "t = go_kid c Locking (s\<lparr>par := p\<rparr>)" and p: "par_ok n t"
  shows "pipe_inv cap l n t"
proof -
  note I = i [unfolded pipe_inv_def]
  have e: "sent t = sent s" "cnt t = cnt s" "chan t = chan s" "holder t = holder s" "kids t d = (if d = c then Locking else kids s d)" for d
    by (simp_all add: t go_kid_def sent_def cnt_def fun_eq_iff)
  have "blocks_of t d" if "blocks_of s d" for d using that k by (auto simp: blocks_of_def e past_def)
  moreover have "inside (kids t d) = inside (kids s d)" for d using k by (simp add: e inside_def)
  ultimately have "lock_ok l t" using I by (auto simp: lock_ok_def e split: if_splits)
  moreover have "wrote n (kids t d) (cnt t d)" for d using I k by (auto simp: e wrote_def dest: spec [of _ c])
  ultimately show ?thesis using I p by (simp add: pipe_inv_def e)
qed

lemma parent_frame:
  assumes i: "pipe_inv cap l n s" and e: "sent t = sent s" "kids t = kids s" "holder t = holder s"
    and p: "par_ok n t"
  shows "pipe_inv cap l n t"
proof -
  have c: "cnt t = cnt s" by (simp add: cnt_def e fun_eq_iff)
  then have "blocks_of t = blocks_of s" by (simp add: blocks_of_def e fun_eq_iff)
  then show ?thesis using i p by (simp add: pipe_inv_def lock_ok_def e c)
qed

lemma parent_step_inv:
  assumes i: "pipe_inv cap l n s" and t: "parent_step n out s = Some t"
  shows "pipe_inv cap l n t"
proof -
  have p: "par_ok n s" using i by (simp add: pipe_inv_def)
  have x: "x \<noteq> Unforked" if "gone x" for x using that by (auto simp: gone_def)
  show ?thesis
  proof (cases "par s")
    case Fork1
    show ?thesis
    proof (cases "out = Failed")
      case False
      then have t: "t = go_kid Child1 Locking (s\<lparr>par := Fork2\<rparr>)" using t Fork1 by (simp add: parent_step_def)
      show ?thesis by (rule fork_step [OF i _ t]) (use p Fork1 in \<open>simp_all add: par_ok_def t go_kid_def\<close>)
    qed (use i t Fork1 in \<open>simp add: parent_step_def\<close>)
  next
    case Fork2
    show ?thesis
    proof (cases "out = Failed")
      case False
      then have t: "t = go_kid Child2 Locking (s\<lparr>par := Wait1\<rparr>)" using t Fork2 by (simp add: parent_step_def)
      have "kids t c \<noteq> Unforked" for c using p Fork2 by (cases c) (simp_all add: par_ok_def t go_kid_def)
      then have "par_ok n t" using p Fork2 by (simp add: par_ok_def t go_kid_def)
      then show ?thesis using fork_step [OF i _ t] p Fork2 by (simp add: par_ok_def)
    qed (use i t Fork2 in \<open>simp add: parent_step_def\<close>)
  next
    case Wait1
    show ?thesis
      by (rule parent_frame [OF i]) (use p t Wait1 in \<open>auto simp: parent_step_def par_ok_def sent_def split: if_splits\<close>)
  next
    case Wait2
    have "gone (kids s c)" for c using t Wait2 by (cases c) (simp_all add: parent_step_def split: if_splits)
    then show ?thesis
      by (intro parent_frame [OF i]) (use p t Wait2 in \<open>auto simp: parent_step_def par_ok_def sent_def split: if_splits\<close>)
  next
    case Reading
    then have g: "\<forall>c. gone (kids s c)" using p by (simp add: par_ok_def)
    have "t = read_step n out s" using t Reading by (simp add: parent_step_def)
    then consider "2 * n \<le> length (in_pipe s)" "t = s\<lparr>par := Reported\<rparr>" | "t = s\<lparr>par := ReadError\<rparr>" | "t = s"
      | "chan s = []" "t = s\<lparr>par := Reported\<rparr>"
      | m where "t = s\<lparr>in_pipe := in_pipe s @ take m (chan s), chan := drop m (chan s)\<rparr>"
      by (cases out) (auto simp: read_step_def Let_def split: if_splits)
    then show ?thesis
      by cases (rule parent_frame [OF i]; use p g Reading in \<open>simp add: par_ok_def sent_def\<close>)+
  qed (use t in \<open>simp_all add: parent_step_def\<close>)
qed

lemma pipe_inv_step: "pipe_inv cap l n s \<Longrightarrow> pipe_next cap l n a s = Some t \<Longrightarrow> pipe_inv cap l n t"
proof -
  assume i: "pipe_inv cap l n s" and t: "pipe_next cap l n a s = Some t"
  show ?thesis
  proof (cases a)
    case (Kid c ok)
    with t have "child_step cap l n c ok s = Some t" by (simp add: pipe_next_def)
    with i show ?thesis by (rule child_step_inv)
  next
    case (Par out)
    with t have "parent_step n out s = Some t" by (simp add: pipe_next_def)
    with i show ?thesis by (rule parent_step_inv)
  qed
qed

lemma pipe_inv: "pipe_program cap l n s \<Longrightarrow> pipe_inv cap l n s"
proof (induction rule: pipe_program.induct)
  case boot
  show ?case by (rule pipe_inv_boot)
next
  case (move s a t)
  show ?case by (rule pipe_inv_step [OF move.IH move.hyps(2)])
qed

section \<open>Progress\<close>

definition kid_rank :: "nat \<Rightarrow> kid \<Rightarrow> nat" where
  "kid_rank n k = (case k of
     Unforked \<Rightarrow> 2 * n + 8 | Locking \<Rightarrow> 2 * n + 6 | Writing i \<Rightarrow> 2 * (n - i) + 5 | Sleeping \<Rightarrow> 3 | Closing \<Rightarrow> 2 | Gone _ \<Rightarrow> 0)"

definition par_rank :: "parent \<Rightarrow> nat" where
  "par_rank p = (case p of
     Fork1 \<Rightarrow> 5 | Fork2 \<Rightarrow> 4 | Wait1 \<Rightarrow> 3 | Wait2 \<Rightarrow> 2 | Reading \<Rightarrow> 1 | Reported \<Rightarrow> 0 | ReadError \<Rightarrow> 0)"

definition pipe_rank :: "nat \<Rightarrow> pipe_conf \<Rightarrow> nat" where
  "pipe_rank n s = kid_rank n (kids s Child1) + kid_rank n (kids s Child2) + par_rank (par s) + length (chan s)"

definition pipe_ended :: "pipe_conf \<Rightarrow> bool" where
  "pipe_ended s \<longleftrightarrow> par s = Reported \<or> par s = ReadError"

lemma pipe_rank_child:
  "pipe_rank n s = kid_rank n (kids s c) + kid_rank n (kids s (other c)) + par_rank (par s) + length (chan s)"
  by (cases c) (simp_all add: pipe_rank_def other_def)

lemma sent_bound:
  assumes "pipe_inv cap l n s"
  shows "length (sent s) = cnt s Child1 + cnt s Child2" "cnt s c \<le> n" "kids s c = Writing j \<Longrightarrow> cnt s c = j"
proof -
  show "length (sent s) = cnt s Child1 + cnt s Child2"
    using assms count_two by (simp add: pipe_inv_def cnt_def mark_def)
  have "wrote n (kids s c) (cnt s c)" using assms by (simp add: pipe_inv_def)
  then show "cnt s c \<le> n" "kids s c = Writing j \<Longrightarrow> cnt s c = j" by (auto simp: wrote_def split: kid.splits)
qed

text \<open>A child that holds the lock, or needs none, can move on if the pipe has room for everything.\<close>

lemma child_moves:
  assumes i: "pipe_inv cap l n s" and cap: "2 * n \<le> cap" and k: "kids s c \<noteq> Unforked" "\<not> gone (kids s c)"
    and h: "kids s c = Locking \<longrightarrow> \<not> l \<or> holder s = None"
  shows "\<exists>t. pipe_next cap l n (Kid c True) s = Some t \<and> pipe_rank n t < pipe_rank n s \<and> par t = par s"
proof -
  have room: "length (chan s) < cap" if "kids s c = Writing j" "j < n" for j
  proof -
    have "cnt s c < n" "cnt s (other c) \<le> n" using sent_bound(2,3) [OF i] that by auto
    then have "length (sent s) < 2 * n" using sent_bound(1) [OF i] by (cases c) (simp_all add: other_def)
    then show ?thesis using cap by (simp add: sent_def)
  qed
  show ?thesis
    using k h room
    by (cases "kids s c")
      (auto simp: pipe_next_def child_step_def pipe_rank_child [of _ _ c] go_kid_def unlocked_def kid_rank_def gone_def)
qed

lemma pipe_progress:
  assumes i: "pipe_inv cap l n s" and cap: "2 * n \<le> cap" and e: "\<not> pipe_ended s"
  shows "\<exists>a t. pipe_next cap l n a s = Some t \<and> pipe_rank n t < pipe_rank n s \<and> par t \<noteq> ReadError"
proof -
  have p: "par_ok n s" using i by (simp add: pipe_inv_def)
  have pe: "par s \<noteq> ReadError" using e by (simp add: pipe_ended_def)
  have go: ?thesis if "parent_step n (Got 1) s = Some t" "pipe_rank n t < pipe_rank n s" "par t \<noteq> ReadError" for t
    using that by (intro exI [of _ "Par (Got 1)"]) (simp add: pipe_next_def)
  have kid: ?thesis if nu: "\<forall>c. kids s c \<noteq> Unforked" and g: "\<not> gone (kids s c)" for c
  proof (cases "kids s c = Locking \<and> l \<and> holder s \<noteq> None")
    case True
    then obtain d where "holder s = Some d" by blast
    moreover have "holder s = Some d \<longleftrightarrow> inside (kids s d)" using i True by (simp add: pipe_inv_def lock_ok_def)
    ultimately have "inside (kids s d)" by blast
    then have "kids s d \<noteq> Unforked \<and> \<not> gone (kids s d) \<and> kids s d \<noteq> Locking" by (cases "kids s d") (simp_all add: inside_def gone_def)
    then show ?thesis using child_moves [OF i cap, of d] pe by metis
  next
    case False
    then show ?thesis using child_moves [OF i cap, of c] nu g pe by metis
  qed
  show ?thesis
  proof (cases "par s")
    case Fork1
    then show ?thesis using p by (intro go) (auto simp: parent_step_def par_ok_def pipe_rank_def go_kid_def kid_rank_def par_rank_def)
  next
    case Fork2
    then show ?thesis using p by (intro go) (auto simp: parent_step_def par_ok_def pipe_rank_def go_kid_def kid_rank_def par_rank_def)
  next
    case Wait1
    then have nu: "\<forall>c. kids s c \<noteq> Unforked" using p by (simp add: par_ok_def)
    show ?thesis
    proof (cases "gone (kids s Child1)")
      case True
      then show ?thesis using Wait1 by (intro go) (auto simp: parent_step_def pipe_rank_def par_rank_def)
    qed (rule kid [OF nu])
  next
    case Wait2
    then have nu: "\<forall>c. kids s c \<noteq> Unforked" using p by (simp add: par_ok_def)
    show ?thesis
    proof (cases "gone (kids s Child1) \<and> gone (kids s Child2)")
      case True
      then show ?thesis using Wait2 by (intro go) (auto simp: parent_step_def pipe_rank_def par_rank_def)
    next
      case False
      then obtain c where "\<not> gone (kids s c)" by blast
      then show ?thesis by (rule kid [OF nu])
    qed
  next
    case Reading
    then have "parent_step n (Got 1) s = Some (read_step n (Got 1) s)" by (simp add: parent_step_def)
    then show ?thesis
    proof (rule go)
      show "pipe_rank n (read_step n (Got 1) s) < pipe_rank n s" using Reading
        by (cases "chan s") (auto simp: read_step_def pipe_rank_def par_rank_def Let_def)
      show "par (read_step n (Got 1) s) \<noteq> ReadError" using Reading by (simp add: read_step_def Let_def)
    qed
  qed (use e in \<open>simp_all add: pipe_ended_def\<close>)
qed

lemma pipe_completes:
  assumes "pipe_inv cap l n s" and cap: "2 * n \<le> cap" and "par s \<noteq> ReadError"
  shows "\<exists>as. par (pipe_run cap l n as s) = Reported"
  using assms(1,3)
proof (induction "pipe_rank n s" arbitrary: s rule: less_induct)
  case less
  show ?case
  proof (cases "pipe_ended s")
    case True
    then show ?thesis using less.prems by (intro exI [of _ "[]"]) (simp add: pipe_ended_def)
  next
    case False
    obtain a t where a: "pipe_next cap l n a s = Some t" "pipe_rank n t < pipe_rank n s" "par t \<noteq> ReadError"
      using pipe_progress [OF less.prems(1) cap False] by blast
    obtain as where "par (pipe_run cap l n as t) = Reported"
      using less.hyps [OF a(2) pipe_inv_step [OF less.prems(1) a(1)] a(3)] by blast
    then show ?thesis using a(1) by (intro exI [of _ "a # as"]) simp
  qed
qed

end
