(* ===== verification/Pipe_Props.thy ===== *)
theory Pipe_Props
  imports Pipe
begin

text \<open>The properties of the pipe program, for any number \<open>n\<close> of characters per child and any capacity.\<close>

definition child_of :: "u8 \<Rightarrow> child" where
  "child_of x = (if x = 49 then Child1 else Child2)"

section \<open>A schedule without the lock\<close>

text \<open>The children write in the order of a given text.\<close>

definition write_acts :: "bytes \<Rightarrow> pipe_act list" where
  "write_acts w = map (\<lambda>x. Kid (child_of x) True) w"

definition mix_acts :: "nat \<Rightarrow> bytes \<Rightarrow> pipe_act list" where
  "mix_acts n w = [Par (Got 1), Par (Got 1), Kid Child1 True, Kid Child2 True] @ write_acts w @
     [Kid Child1 True, Kid Child1 True, Kid Child1 True, Kid Child2 True, Kid Child2 True, Kid Child2 True,
      Par (Got 1), Par (Got 1), Par (Got (2 * n)), Par (Got 1)]"

lemma pipe_run_append: "pipe_run cap l n (as @ bs) s = pipe_run cap l n bs (pipe_run cap l n as s)"
  by (induction as arbitrary: s) simp_all

lemma write_acts_run:
  assumes "set w \<subseteq> {49, 50}" and "i + count_list w 49 \<le> n" and "j + count_list w 50 \<le> n" and "length (chan s) + length w \<le> cap"
    and "kids s Child1 = Writing i" and "kids s Child2 = Writing j"
  shows "pipe_run cap l n (write_acts w) s =
    s\<lparr>chan := chan s @ w, kids := (kids s)(Child1 := Writing (i + count_list w 49), Child2 := Writing (j + count_list w 50))\<rparr>"
  using assms
proof (induction w arbitrary: i j s)
  case Nil
  then have e: "(kids s)(Child1 := Writing i, Child2 := Writing j) = kids s" by (auto simp: fun_eq_iff)
  have "count_list [] x = 0" for x :: u8 by simp
  then show ?case by (simp only: write_acts_def list.map pipe_run.simps add_0_right append_Nil2 e) simp
next
  case (Cons x w)
  show ?case
  proof (cases "x = 49")
    case True
    let ?s = "go_kid Child1 (Writing (Suc i)) (s\<lparr>chan := chan s @ [49]\<rparr>)"
    have "child_step cap l n Child1 True s = Some ?s"
      using Cons.prems True by (simp add: child_step_def mark_def)
    moreover have "pipe_run cap l n (write_acts w) ?s =
      ?s\<lparr>chan := chan ?s @ w, kids := (kids ?s)(Child1 := Writing (Suc i + count_list w 49), Child2 := Writing (j + count_list w 50))\<rparr>"
      by (rule Cons.IH) (use Cons.prems True in \<open>simp_all add: go_kid_def\<close>)
    ultimately show ?thesis using True by (simp add: write_acts_def pipe_next_def child_of_def go_kid_def fun_upd_def cong: if_cong)
  next
    case False
    then have x: "x = 50" using Cons.prems(1) by simp
    let ?s = "go_kid Child2 (Writing (Suc j)) (s\<lparr>chan := chan s @ [50]\<rparr>)"
    have "child_step cap l n Child2 True s = Some ?s"
      using Cons.prems x by (simp add: child_step_def mark_def)
    moreover have "pipe_run cap l n (write_acts w) ?s =
      ?s\<lparr>chan := chan ?s @ w, kids := (kids ?s)(Child1 := Writing (i + count_list w 49), Child2 := Writing (Suc j + count_list w 50))\<rparr>"
      by (rule Cons.IH) (use Cons.prems x in \<open>simp_all add: go_kid_def\<close>)
    ultimately show ?thesis using x by (simp add: write_acts_def pipe_next_def child_of_def go_kid_def fun_upd_def cong: if_cong)
  qed
qed

lemma mix_run:
  assumes w: "set w \<subseteq> {49, 50}" "count_list w 49 = n" "count_list w 50 = n" and cap: "2 * n \<le> cap"
  shows "pipe_run cap False n (mix_acts n w) pipe_boot =
    \<lparr>chan = [], holder = None, kids = (\<lambda>_. Gone 0), par = Reported, in_pipe = w\<rparr>"
proof -
  let ?a = "[Par (Got 1), Par (Got 1), Kid Child1 True, Kid Child2 True]"
  let ?s = "pipe_boot\<lparr>kids := (\<lambda>_. Writing 0), par := Wait1\<rparr>"
  let ?t = "?s\<lparr>chan := w, kids := (\<lambda>_. Writing n)\<rparr>"
  have all: "f(Child1 := x, Child2 := x) = (\<lambda>_. x)" for f :: "child \<Rightarrow> kid" and x
    by (rule ext) (metis child.exhaust fun_upd_apply)
  have len: "length w = 2 * n" using count_two [OF w(1)] w(2,3) by simp
  have 1: "pipe_run cap False n ?a pipe_boot = ?s"
    by (simp add: pipe_next_def parent_step_def child_step_def go_kid_def pipe_boot_def all fun_upd_twist)
  have 2: "pipe_run cap False n (write_acts w) ?s = ?t"
    using write_acts_run [of w 0 n 0 ?s cap False] w len cap by (simp add: pipe_boot_def all)
  let ?b = "[Kid Child1 True, Kid Child1 True, Kid Child1 True, Kid Child2 True, Kid Child2 True, Kid Child2 True]"
  have 3: "pipe_run cap False n ?b ?t = ?t\<lparr>kids := (\<lambda>_. Gone 0)\<rparr>"
    by (simp add: pipe_next_def child_step_def go_kid_def pipe_boot_def unlocked_def all)
  have 4: "pipe_run cap False n [Par (Got 1), Par (Got 1), Par (Got (2 * n)), Par (Got 1)] (?t\<lparr>kids := (\<lambda>_. Gone 0)\<rparr>) =
    \<lparr>chan = [], holder = None, kids = (\<lambda>_. Gone 0), par = Reported, in_pipe = w\<rparr>"
    using len by (cases "n = 0") (auto simp: pipe_next_def parent_step_def read_step_def gone_def pipe_boot_def Let_def)
  show ?thesis unfolding mix_acts_def using 1 2 3 4
    by (metis (no_types, lifting) append_Cons append_Nil pipe_run_append)
qed

section \<open>Properties\<close>

text \<open>C37: When both children end with status 0 the parent reads every character they wrote: it reports
  \<open>n\<close> of each and nothing is left in the pipe. With the lock the characters of a child are not mixed
  with the other's: there is one change of character.\<close>
theorem pipe_reads_everything:
  assumes "pipe_program cap use_lock n s" and "par s = Reported" and "kids s Child1 = Gone 0" and "kids s Child2 = Gone 0"
  shows "\<exists>sw h t. report (in_pipe s) = (2 * n, (n, n, sw), h, t) \<and> length h \<le> 120 \<and> length t \<le> 120 \<and> chan s = [] \<and>
    (use_lock \<longrightarrow> (in_pipe s = replicate n 49 @ replicate n 50 \<or> in_pipe s = replicate n 50 @ replicate n 49) \<and>
      (0 < n \<longrightarrow> sw = 1))"
proof -
  have i: "pipe_inv cap use_lock n s" by (rule pipe_inv [OF assms(1)])
  have w: "wrote n (kids s c) (cnt s c)" for c using i by (simp add: pipe_inv_def)
  have c: "cnt s Child1 = n" "cnt s Child2 = n"
    using w [of Child1] w [of Child2] assms(3,4) by (simp_all add: wrote_def)
  have l: "length (sent s) = 2 * n" using sent_bound(1) [OF i] c by simp
  have "chan s = [] \<or> 2 * n \<le> length (in_pipe s)" using i assms(2) by (simp add: pipe_inv_def par_ok_def)
  then have e: "chan s = []"
  proof
    assume "2 * n \<le> length (in_pipe s)"
    then have "length (chan s) = 0" using l unfolding sent_def length_append by linarith
    then show ?thesis by simp
  qed
  then have x: "in_pipe s = sent s" by (simp add: sent_def)
  have b: "in_pipe s = replicate n 49 @ replicate n 50 \<or> in_pipe s = replicate n 50 @ replicate n 49" if use_lock
  proof -
    obtain d where "blocks_of s d" using i \<open>use_lock\<close> unfolding pipe_inv_def lock_ok_def by auto
    then show ?thesis using c x by (cases d) (simp_all add: blocks_of_def other_def mark_def)
  qed
  have "turns (in_pipe s) = 1" if use_lock "0 < n"
    using b [OF that(1)] turns_two_blocks [of n n "49 :: u8" 50] turns_two_blocks [of n n "50 :: u8" 49] that(2) by auto
  moreover have "stats (in_pipe s) = (n, n, turns (in_pipe s))" using c by (simp add: stats_eq x cnt_def mark_def)
  ultimately show ?thesis using b l e x by (auto simp: report_def)
qed

text \<open>Without the lock every mixture can come out: for each text of \<open>n\<close> characters of either kind there is
  a run that reports it, if the pipe has room for all of them.\<close>
lemma pipe_any_mixture:
  assumes "set w \<subseteq> {49, 50}" and "count_list w 49 = n" and "count_list w 50 = n" and "2 * n \<le> cap"
  shows "\<exists>s. pipe_program cap False n s \<and> par s = Reported \<and> kids s = (\<lambda>_. Gone 0) \<and> in_pipe s = w"
  using mix_run [OF assms] pipe_program_run [OF pipe_program.boot, of cap False n "mix_acts n w"] by auto

lemma pipe_reads_everything_witness:
  "\<exists>s sw. pipe_program 4 False 2 s \<and> fst (snd (report (in_pipe s))) = (2, 2, sw)"
proof -
  let ?w = "[50, 49, 50, 49 :: u8]" and ?s = "\<lparr>chan = [], holder = None, kids = (\<lambda>_. Gone 0), par = Reported, in_pipe = [50, 49, 50, 49]\<rparr>"
  have "pipe_run 4 False 2 (mix_acts 2 ?w) pipe_boot = ?s" by (rule mix_run) simp_all
  then have p: "pipe_program 4 False 2 ?s" using pipe_program_run [OF pipe_program.boot, of 4 False 2 "mix_acts 2 ?w"] by simp
  from pipe_reads_everything [OF p] p show ?thesis by auto
qed

text \<open>C38: The parent waits for its children before it reads. If the pipe has room for all they write, every
  state in which no read has failed can still go on to the report; if it has not, there is no report
  unless a child has failed.\<close>
theorem pipe_needs_room:
  assumes "pipe_program cap use_lock n s"
  shows "(2 * n \<le> cap \<longrightarrow> par s \<noteq> ReadError \<longrightarrow> (\<exists>as. par (pipe_run cap use_lock n as s) = Reported)) \<and>
    (cap < 2 * n \<longrightarrow> par s = Reported \<longrightarrow> kids s Child1 = Gone 1 \<or> kids s Child2 = Gone 1)"
proof -
  have i: "pipe_inv cap use_lock n s" by (rule pipe_inv [OF assms])
  have "par s = Reported \<Longrightarrow> kids s Child1 = Gone 1 \<or> kids s Child2 = Gone 1" if "cap < 2 * n"
  proof (rule ccontr)
    assume r: "par s = Reported" and c: "\<not> (kids s Child1 = Gone 1 \<or> kids s Child2 = Gone 1)"
    have "\<forall>c. gone (kids s c)" using i r by (simp add: pipe_inv_def par_ok_def)
    moreover have "wrote n (kids s c) (cnt s c)" for c using i by (simp add: pipe_inv_def)
    ultimately have w: "gone (kids s d) \<and> wrote n (kids s d) (cnt s d)" for d by blast
    have "cnt s d = n" if "kids s d \<noteq> Gone 1" for d
      using w [of d] that by (cases "kids s d") (auto simp: gone_def wrote_def)
    then have "length (sent s) = 2 * n" using sent_bound(1) [OF i] c by simp
    then show False using i that by (simp add: pipe_inv_def)
  qed
  then show ?thesis using pipe_completes [OF i] by blast
qed

lemma pipe_needs_room_witness: "\<exists>as. par (pipe_run 65536 True WRITE_COUNT as pipe_boot) = Reported"
  using pipe_needs_room [OF pipe_program.boot [of 65536 True WRITE_COUNT]] by (simp add: WRITE_COUNT_def pipe_boot_def)

end
