(* ===== verification/Softint.thy ===== *)
theory Softint
  imports Prelude
begin

text \<open>
  \<open>project2/part1/softint.c\<close> in its default build (\<open>SIGUSR1\<close>, \<open>SIGUSR2\<close>): a parent waits for
  a signal from the terminal or the alarm clock and then signals its two children, which wait for it.
  The processes are interleaved one system call at a time. A signal that is sent is pending until it
  is delivered, which may happen between any two steps; the test of a flag in \<open>wait_flag\<close> and the
  \<open>pause\<close> after it are two steps. Standard output is a terminal: a line appears when it is printed.
\<close>

section \<open>State\<close>

datatype sig = SIGINT | SIGQUIT | SIGALRM | SIGUSR1 | SIGUSR2 | SIGPIPE

definition signo :: "sig \<Rightarrow> nat" where
  "signo g = (case g of SIGINT \<Rightarrow> 2 | SIGQUIT \<Rightarrow> 3 | SIGALRM \<Rightarrow> 14 | SIGUSR1 \<Rightarrow> 10 | SIGUSR2 \<Rightarrow> 12 | SIGPIPE \<Rightarrow> 13)"

definition CHILD1_SIG :: sig where "CHILD1_SIG = SIGUSR1"
definition CHILD2_SIG :: sig where "CHILD2_SIG = SIGUSR2"

datatype handler = SIG_DFL | SIG_IGN | Parent_trigger | Child1_handler | Child2_handler

text \<open>Where a process is; \<open>Setup k\<close> is before its \<open>k\<close>-th call that prepares the signals.\<close>

datatype place =
    Unborn | Setup nat | Fork1 | Fork2 | Ready nat | Telling | Testing | Pausing | Paused | Saying | Leaving
  | Say_trip | Kill2 | Say2 | Kill1 | Say1 | Waitpid1 | Waitpid2 | Say_end | Exited int | Killed sig

datatype who = Dad | Kid1 | Kid2

record proc =
  at :: place
  disp :: "sig \<Rightarrow> handler"
  pend :: "sig \<Rightarrow> bool"
  parent_tripped :: bool
  last_parent_sig :: nat
  child1_got :: bool
  child2_got :: bool

datatype line = Stop_test nat | Child_killed who | Parent_killed

record sys =
  procs :: "who \<Rightarrow> proc"
  ready_pipe :: "who list"
  alarm_set :: bool
  out :: "(who \<times> line) list"

datatype act = Step who bool | Raise sig | Deliver who sig

definition blank_proc :: proc where
  "blank_proc = \<lparr>at = Unborn, disp = (\<lambda>_. SIG_DFL), pend = (\<lambda>_. False), parent_tripped = False, last_parent_sig = 0,
     child1_got = False, child2_got = False\<rparr>"

definition soft_boot :: sys where
  "soft_boot = \<lparr>procs = (\<lambda>w. if w = Dad then blank_proc\<lparr>at := Setup 0\<rparr> else blank_proc), ready_pipe = [], alarm_set = False, out = []\<rparr>"

section \<open>Signals\<close>

definition alive :: "proc \<Rightarrow> bool" where
  "alive p = (case at p of Unborn \<Rightarrow> False | Exited _ \<Rightarrow> False | Killed _ \<Rightarrow> False | _ \<Rightarrow> True)"

definition set_handler :: "sig \<Rightarrow> handler \<Rightarrow> proc \<Rightarrow> proc" where
  "set_handler g h p = p\<lparr>disp := (disp p)(g := h)\<rparr>"

definition ignore_signal :: "sig \<Rightarrow> proc \<Rightarrow> proc" where
  "ignore_signal g p = p\<lparr>disp := (disp p)(g := SIG_IGN)\<rparr>"

definition parent_trigger_handler :: "sig \<Rightarrow> proc \<Rightarrow> proc" where
  "parent_trigger_handler g p = p\<lparr>last_parent_sig := signo g, parent_tripped := True\<rparr>"

definition child1_handler :: "proc \<Rightarrow> proc" where
  "child1_handler p = p\<lparr>child1_got := True\<rparr>"

definition child2_handler :: "proc \<Rightarrow> proc" where
  "child2_handler p = p\<lparr>child2_got := True\<rparr>"

text \<open>A handler that returns ends a \<open>pause\<close>; the default action of all these signals ends the process.\<close>

definition resume :: "proc \<Rightarrow> proc" where
  "resume p = p\<lparr>at := if at p = Paused then Testing else at p\<rparr>"

definition take_signal :: "sig \<Rightarrow> proc \<Rightarrow> proc" where
  "take_signal g p =
     (let q = p\<lparr>pend := (pend p)(g := False)\<rparr> in
      case disp p g of
        SIG_DFL \<Rightarrow> q\<lparr>at := Killed g\<rparr>
      | SIG_IGN \<Rightarrow> q
      | Parent_trigger \<Rightarrow> resume (parent_trigger_handler g q)
      | Child1_handler \<Rightarrow> resume (child1_handler q)
      | Child2_handler \<Rightarrow> resume (child2_handler q))"

definition send :: "sig \<Rightarrow> proc \<Rightarrow> proc" where
  "send g p = (if alive p then p\<lparr>pend := (pend p)(g := True)\<rparr> else p)"

definition upd :: "who \<Rightarrow> proc \<Rightarrow> sys \<Rightarrow> sys" where
  "upd w p s = s\<lparr>procs := (procs s)(w := p)\<rparr>"

text \<open>Ctrl+C and Ctrl+\ reach every process, the alarm clock only the parent, and once.\<close>

definition raise_signal :: "sig \<Rightarrow> sys \<Rightarrow> sys option" where
  "raise_signal g s =
     (if g = SIGINT \<or> g = SIGQUIT then Some (s\<lparr>procs := (\<lambda>w. send g (procs s w))\<rparr>)
      else if g = SIGALRM \<and> alarm_set s then Some (upd Dad (send g (procs s Dad)) (s\<lparr>alarm_set := False\<rparr>))
      else None)"

section \<open>The processes\<close>

text \<open>One step of \<open>wait_flag\<close>; \<open>next\<close> is where it returns to.\<close>

definition wait_flag :: "bool \<Rightarrow> place \<Rightarrow> proc \<Rightarrow> proc option" where
  "wait_flag flag nxt p =
     (case at p of
        Testing \<Rightarrow> Some (p\<lparr>at := if flag then nxt else Pausing\<rparr>)
      | Pausing \<Rightarrow> Some (p\<lparr>at := Paused\<rparr>)
      | _ \<Rightarrow> None)"

definition forked :: "proc \<Rightarrow> proc" where
  "forked p = p\<lparr>at := Setup 0, pend := (\<lambda>_. False)\<rparr>"

definition own_flag :: "who \<Rightarrow> proc \<Rightarrow> bool" where
  "own_flag w p = (case w of Dad \<Rightarrow> parent_tripped p | Kid1 \<Rightarrow> child1_got p | Kid2 \<Rightarrow> child2_got p)"

definition child_sig :: "who \<Rightarrow> sig" where
  "child_sig w = (if w = Kid1 then CHILD1_SIG else CHILD2_SIG)"

definition child_handler :: "who \<Rightarrow> handler" where
  "child_handler w = (if w = Kid1 then Child1_handler else Child2_handler)"

definition say :: "who \<Rightarrow> line \<Rightarrow> sys \<Rightarrow> sys" where
  "say w l s = s\<lparr>out := out s @ [(w, l)]\<rparr>"

definition jump :: "who \<Rightarrow> place \<Rightarrow> sys \<Rightarrow> sys" where
  "jump w a s = upd w ((procs s w)\<lparr>at := a\<rparr>) s"

text \<open>
  The body of either child. A child closes its own read end first; the parent holds the read end until it
  has both reports or is gone. A write to the pipe without a reader raises \<open>SIGPIPE\<close>; if the writer
  survives that the failed write is passed over.
\<close>

definition reader :: "sys \<Rightarrow> bool" where
  "reader s = (case at (procs s Dad) of Setup _ \<Rightarrow> True | Fork1 \<Rightarrow> True | Fork2 \<Rightarrow> True | Ready _ \<Rightarrow> True | _ \<Rightarrow> False)"

definition child_step :: "who \<Rightarrow> sys \<Rightarrow> sys option" where
  "child_step w s =
     (let p = procs s w in
      case at p of
        Setup k \<Rightarrow>
          if k = 0 then Some (upd w ((ignore_signal SIGINT p)\<lparr>at := Setup 1\<rparr>) s)
          else if k = 1 then Some (upd w ((ignore_signal SIGQUIT p)\<lparr>at := Setup 2\<rparr>) s)
          else Some (upd w ((set_handler (child_sig w) (child_handler w) p)\<lparr>at := Telling\<rparr>) s)
      | Telling \<Rightarrow>
          if reader s then Some (upd w (p\<lparr>at := Testing\<rparr>) (s\<lparr>ready_pipe := ready_pipe s @ [w]\<rparr>))
          else let q = take_signal SIGPIPE p in Some (upd w (if alive q then q\<lparr>at := Testing\<rparr> else q) s)
      | Saying \<Rightarrow> Some (jump w Leaving (say w (Child_killed w) s))
      | Leaving \<Rightarrow> Some (jump w (Exited 0) s)
      | _ \<Rightarrow> map_option (\<lambda>q. upd w q s) (wait_flag (own_flag w p) Saying p))"

text \<open>A child no longer holds the write end of the pipe.\<close>

definition told :: "proc \<Rightarrow> bool" where
  "told p = (case at p of Unborn \<Rightarrow> False | Setup _ \<Rightarrow> False | Telling \<Rightarrow> False | _ \<Rightarrow> True)"

definition ended :: "proc \<Rightarrow> bool" where
  "ended p = (case at p of Exited _ \<Rightarrow> True | Killed _ \<Rightarrow> True | _ \<Rightarrow> False)"

definition dad_step :: "bool \<Rightarrow> sys \<Rightarrow> sys option" where
  "dad_step ok s =
     (let p = procs s Dad in
      case at p of
        Setup k \<Rightarrow>
          if k = 0 then Some (upd Dad ((set_handler SIGINT Parent_trigger p)\<lparr>at := Setup 1\<rparr>) s)
          else if k = 1 then Some (upd Dad ((set_handler SIGQUIT Parent_trigger p)\<lparr>at := Setup 2\<rparr>) s)
          else if k = 2 then Some (upd Dad ((set_handler SIGALRM Parent_trigger p)\<lparr>at := Setup 3\<rparr>) s)
          else Some (jump Dad Fork1 (s\<lparr>alarm_set := True\<rparr>))
      | Fork1 \<Rightarrow> Some (if ok then jump Dad Fork2 (upd Kid1 (forked p) s) else jump Dad (Exited 1) s)
      | Fork2 \<Rightarrow> Some (if ok then jump Dad (Ready 0) (upd Kid2 (forked p) s) else jump Dad (Exited 1) s)
      | Ready got \<Rightarrow>
          if \<not> got < 2 then Some (jump Dad Testing s)
          else if ready_pipe s \<noteq> [] then
            Some (jump Dad (Ready (got + min (2 - got) (length (ready_pipe s)))) (s\<lparr>ready_pipe := drop (2 - got) (ready_pipe s)\<rparr>))
          else if told (procs s Kid1) \<and> told (procs s Kid2) then Some (jump Dad Testing s)
          else None
      | Say_trip \<Rightarrow> Some (jump Dad Kill2 (say Dad (Stop_test (last_parent_sig p)) s))
      | Kill2 \<Rightarrow> Some (jump Dad Say2 (upd Kid2 (send CHILD2_SIG (procs s Kid2)) s))
      | Say2 \<Rightarrow> Some (jump Dad Kill1 (say Dad (Stop_test (signo CHILD2_SIG)) s))
      | Kill1 \<Rightarrow> Some (jump Dad Say1 (upd Kid1 (send CHILD1_SIG (procs s Kid1)) s))
      | Say1 \<Rightarrow> Some (jump Dad Waitpid1 (say Dad (Stop_test (signo CHILD1_SIG)) s))
      | Waitpid1 \<Rightarrow> if ended (procs s Kid1) then Some (jump Dad Waitpid2 s) else None
      | Waitpid2 \<Rightarrow> if ended (procs s Kid2) then Some (jump Dad Say_end s) else None
      | Say_end \<Rightarrow> Some (jump Dad (Exited 0) (say Dad Parent_killed s))
      | _ \<Rightarrow> map_option (\<lambda>q. upd Dad q s) (wait_flag (own_flag Dad p) Say_trip p))"

definition soft_next :: "act \<Rightarrow> sys \<Rightarrow> sys option" where
  "soft_next a s =
     (case a of
        Step w ok \<Rightarrow> if w = Dad then dad_step ok s else child_step w s
      | Raise g \<Rightarrow> raise_signal g s
      | Deliver w g \<Rightarrow> if alive (procs s w) \<and> pend (procs s w) g then Some (upd w (take_signal g (procs s w)) s) else None)"

inductive soft_program :: "sys \<Rightarrow> bool" where
  boot: "soft_program soft_boot"
| move: "soft_program s \<Longrightarrow> soft_next a s = Some t \<Longrightarrow> soft_program t"

text \<open>A schedule; an action that cannot happen is passed over.\<close>

fun soft_run :: "act list \<Rightarrow> sys \<Rightarrow> sys" where
  "soft_run [] s = s"
| "soft_run (a # as) s = soft_run as (case soft_next a s of None \<Rightarrow> s | Some t \<Rightarrow> t)"

lemma soft_program_run: "soft_program s \<Longrightarrow> soft_program (soft_run as s)"
  by (induction as arbitrary: s) (auto split: option.split intro: soft_program.move)

section \<open>Invariant\<close>

definition born :: "proc \<Rightarrow> bool" where
  "born p \<longleftrightarrow> at p \<noteq> Unborn"

definition said :: "proc \<Rightarrow> bool" where
  "said p \<longleftrightarrow> at p = Leaving \<or> at p = Exited 0"

definition kid_places :: "place \<Rightarrow> bool" where
  "kid_places a = (case a of Unborn \<Rightarrow> True | Setup _ \<Rightarrow> True | Telling \<Rightarrow> True | Testing \<Rightarrow> True | Pausing \<Rightarrow> True
     | Paused \<Rightarrow> True | Saying \<Rightarrow> True | Leaving \<Rightarrow> True | Exited e \<Rightarrow> e = 0 | Killed g \<Rightarrow> g = SIGPIPE | _ \<Rightarrow> False)"

text \<open>A child is sent its signal only after it has installed the handler for it.\<close>

definition kid_ok :: "who \<Rightarrow> proc \<Rightarrow> bool" where
  "kid_ok w p \<longleftrightarrow> kid_places (at p) \<and> (born p \<longrightarrow> disp p SIGPIPE = SIG_DFL) \<and>
     (born p \<longrightarrow> disp p SIGINT \<noteq> SIG_DFL \<and> disp p SIGQUIT \<noteq> SIG_DFL) \<and>
     (\<forall>g. pend p g \<longrightarrow> g = SIGINT \<or> g = SIGQUIT \<or> g = child_sig w \<and> told p) \<and>
     (told p \<or> at p = Telling \<longrightarrow> disp p (child_sig w) = child_handler w)"

definition dad_ok :: "proc \<Rightarrow> bool" where
  "dad_ok p \<longleftrightarrow>
     (case at p of
        Setup k \<Rightarrow> (\<forall>g. pend p g \<longrightarrow> g = SIGINT \<or> g = SIGQUIT) \<and> (\<forall>g. disp p g = SIG_DFL \<or> disp p g = Parent_trigger) \<and>
          (0 < k \<longrightarrow> disp p SIGINT = Parent_trigger) \<and> (1 < k \<longrightarrow> disp p SIGQUIT = Parent_trigger) \<and>
          (2 < k \<longrightarrow> disp p SIGALRM = Parent_trigger)
      | Exited _ \<Rightarrow> True
      | Killed _ \<Rightarrow> True
      | a \<Rightarrow> (\<forall>g. pend p g \<longrightarrow> g = SIGINT \<or> g = SIGQUIT \<or> g = SIGALRM) \<and>
          disp p SIGINT = Parent_trigger \<and> disp p SIGQUIT = Parent_trigger \<and> disp p SIGALRM = Parent_trigger \<and>
          (a = Say_trip \<longrightarrow> parent_tripped p)) \<and>
     (parent_tripped p \<longrightarrow> last_parent_sig p \<in> {2, 3, 14}) \<and> disp p SIGPIPE = SIG_DFL"

text \<open>How far the children are at each place of the parent; \<open>r\<close> reports are in the pipe.\<close>

definition phase :: "place \<Rightarrow> proc \<Rightarrow> proc \<Rightarrow> nat \<Rightarrow> bool \<Rightarrow> bool" where
  "phase a p1 p2 r alarmed =
     (case a of
        Setup _ \<Rightarrow> \<not> born p1 \<and> \<not> born p2 \<and> r = 0 \<and> \<not> alarmed
      | Fork1 \<Rightarrow> \<not> born p1 \<and> \<not> born p2 \<and> r = 0
      | Fork2 \<Rightarrow> born p1 \<and> \<not> born p2 \<and> r = of_bool (told p1)
      | Ready got \<Rightarrow> born p1 \<and> born p2 \<and> got + r = of_bool (told p1) + of_bool (told p2)
      | Waitpid2 \<Rightarrow> told p1 \<and> told p2 \<and> ended p1
      | Say_end \<Rightarrow> told p1 \<and> told p2 \<and> ended p1 \<and> ended p2
      | Exited e \<Rightarrow> (e = 0 \<longrightarrow> told p1 \<and> told p2 \<and> ended p1 \<and> ended p2) \<and> (e \<noteq> 0 \<longrightarrow> e = 1 \<and> \<not> born p2)
      | Killed _ \<Rightarrow> \<not> born p1 \<and> \<not> born p2
      | a \<Rightarrow> told p1 \<and> told p2 \<and> a \<noteq> Unborn \<and> a \<noteq> Telling \<and> a \<noteq> Saying \<and> a \<noteq> Leaving)"

definition lines_of :: "who \<Rightarrow> sys \<Rightarrow> line list" where
  "lines_of w s = map snd (filter (\<lambda>e. fst e = w) (out s))"

definition stage :: "place \<Rightarrow> nat" where
  "stage a = (case a of Kill2 \<Rightarrow> 1 | Say2 \<Rightarrow> 1 | Kill1 \<Rightarrow> 2 | Say1 \<Rightarrow> 2 | Waitpid1 \<Rightarrow> 3 | Waitpid2 \<Rightarrow> 3 | Say_end \<Rightarrow> 3
     | Exited e \<Rightarrow> if e = 0 then 4 else 0 | _ \<Rightarrow> 0)"

definition dad_lines :: "nat \<Rightarrow> line list" where
  "dad_lines g = [Stop_test g, Stop_test (signo CHILD2_SIG), Stop_test (signo CHILD1_SIG), Parent_killed]"

definition out_ok :: "sys \<Rightarrow> bool" where
  "out_ok s \<longleftrightarrow> (\<exists>g \<in> {2, 3, 14}. lines_of Dad s = take (stage (at (procs s Dad))) (dad_lines g)) \<and>
     (\<forall>w. w \<noteq> Dad \<longrightarrow> lines_of w s = (if said (procs s w) then [Child_killed w] else [])) \<and>
     (at (procs s Dad) = Exited 0 \<longrightarrow> out s \<noteq> [] \<and> last (out s) = (Dad, Parent_killed))"

definition soft_inv :: "sys \<Rightarrow> bool" where
  "soft_inv s \<longleftrightarrow> (\<forall>w. w \<noteq> Dad \<longrightarrow> kid_ok w (procs s w)) \<and> dad_ok (procs s Dad) \<and>
     phase (at (procs s Dad)) (procs s Kid1) (procs s Kid2) (length (ready_pipe s)) (alarm_set s) \<and> out_ok s"

lemma soft_inv_boot: "soft_inv soft_boot"
  by (simp add: soft_inv_def soft_boot_def blank_proc_def kid_ok_def dad_ok_def phase_def out_ok_def kid_places_def born_def told_def
      lines_of_def stage_def said_def) blast

section \<open>Signals keep it\<close>

lemma send_at [simp]: "at (send g p) = at p" "disp (send g p) = disp p"
  by (simp_all add: send_def)

lemma at_only:
  "at q = at p \<Longrightarrow> born q = born p" "at q = at p \<Longrightarrow> told q = told p" "at q = at p \<Longrightarrow> ended q = ended p"
  "at q = at p \<Longrightarrow> said q = said p"
  by (simp_all add: born_def told_def ended_def said_def)

lemma kid_send: "kid_ok w p \<Longrightarrow> g = SIGINT \<or> g = SIGQUIT \<or> g = child_sig w \<and> told p \<Longrightarrow> kid_ok w (send g p)"
  using at_only [OF send_at(1), of g p] by (auto simp: kid_ok_def send_def split: if_splits)

lemma dad_send:
  "dad_ok p \<Longrightarrow> g = SIGINT \<or> g = SIGQUIT \<or> g = SIGALRM \<and> (\<forall>k. at p \<noteq> Setup k) \<Longrightarrow> dad_ok (send g p)"
  by (cases "at p") (auto simp: dad_ok_def send_def)

text \<open>A signal that is not left to its default action.\<close>

lemma take_shape:
  assumes "disp p g \<noteq> SIG_DFL"
  shows "disp (take_signal g p) = disp p" "pend (take_signal g p) = (pend p)(g := False)"
    "at (take_signal g p) = at p \<or> at p = Paused \<and> at (take_signal g p) = Testing"
  using assms by (cases "disp p g"; simp add: take_signal_def Let_def resume_def parent_trigger_handler_def
    child1_handler_def child2_handler_def)+

lemma paused_testing:
  assumes "at q = at p \<or> at p = Paused \<and> at q = Testing"
  shows "born q = born p" "told q = told p" "ended q = ended p" "said q = said p" "kid_places (at q) = kid_places (at p)"
    "at q = Telling \<longleftrightarrow> at p = Telling"
  using assms by (auto simp: born_def told_def ended_def said_def kid_places_def)

lemma kid_take:
  assumes k: "kid_ok w p" "w \<noteq> Dad" and g: "pend p g" "alive p"
  shows "kid_ok w (take_signal g p) \<and> born (take_signal g p) = born p \<and> told (take_signal g p) = told p \<and>
    ended (take_signal g p) = ended p \<and> said (take_signal g p) = said p"
proof -
  have "born p" using g(2) by (auto simp: alive_def born_def)
  then have d: "disp p g \<noteq> SIG_DFL" using k g by (cases w) (auto simp: kid_ok_def child_handler_def child_sig_def)
  note t = take_shape [OF d] and a = paused_testing [OF take_shape(3) [OF d]]
  have "kid_ok w (take_signal g p)" using k(1) by (simp add: kid_ok_def t(1,2) a)
  with a show ?thesis by simp
qed

lemma dad_disp:
  assumes "dad_ok p" and "pend p g" and "alive p"
  shows "disp p g = Parent_trigger \<or> disp p g = SIG_DFL \<and> (\<exists>k. at p = Setup k)" "g = SIGINT \<or> g = SIGQUIT \<or> g = SIGALRM"
  using assms by (cases "at p"; auto simp: dad_ok_def alive_def)+

lemma dad_take:
  assumes k: "dad_ok p" and g: "pend p g" "alive p"
  shows "dad_ok (take_signal g p) \<and> stage (at (take_signal g p)) = stage (at p) \<and>
    (at (take_signal g p) = at p \<or> at p = Paused \<and> at (take_signal g p) = Testing \<or>
     at (take_signal g p) = Killed g \<and> (\<exists>k. at p = Setup k))"
proof (cases "disp p g = Parent_trigger")
  case True
  then have t: "take_signal g p = p\<lparr>pend := (pend p)(g := False), last_parent_sig := signo g, parent_tripped := True,
      at := if at p = Paused then Testing else at p\<rparr>"
    by (simp add: take_signal_def Let_def parent_trigger_handler_def resume_def)
  have s: "signo g \<in> {2, 3, 14}" using dad_disp(2) [OF assms] by (auto simp: signo_def)
  show ?thesis unfolding t using k s by (cases "at p") (simp_all add: dad_ok_def stage_def)
next
  case False
  then obtain k where d: "disp p g = SIG_DFL" "at p = Setup k" using dad_disp(1) [OF assms] by blast
  then have "take_signal g p = p\<lparr>pend := (pend p)(g := False), at := Killed g\<rparr>" by (simp add: take_signal_def Let_def)
  then show ?thesis using k d by (simp add: dad_ok_def stage_def)
qed

lemma phase_cong:
  "born q1 = born p1 \<Longrightarrow> told q1 = told p1 \<Longrightarrow> ended q1 = ended p1 \<Longrightarrow> born q2 = born p2 \<Longrightarrow> told q2 = told p2 \<Longrightarrow>
    ended q2 = ended p2 \<Longrightarrow> phase a q1 q2 r m = phase a p1 p2 r m"
  by (cases a) (simp_all add: phase_def)

lemma inv_kid:
  assumes i: "soft_inv s" and w: "w \<noteq> Dad" and q: "kid_ok w q" "born q = born (procs s w)" "told q = told (procs s w)"
    "ended q = ended (procs s w)" "said q = said (procs s w)"
  shows "soft_inv (upd w q s)"
proof -
  note I = i [unfolded soft_inv_def]
  have "phase a (procs (upd w q s) Kid1) (procs (upd w q s) Kid2) r m = phase a (procs s Kid1) (procs s Kid2) r m" for a r m
    by (rule phase_cong) (use w q in \<open>auto simp: upd_def\<close>)
  moreover have "out_ok (upd w q s)" using I w q(5) by (auto simp: out_ok_def upd_def lines_of_def)
  ultimately show ?thesis using I w q(1) by (auto simp: soft_inv_def upd_def)
qed

lemma inv_dad:
  assumes i: "soft_inv s" and q: "dad_ok q" "stage (at q) = stage (at (procs s Dad))" "at q \<noteq> Exited 0"
    "phase (at q) (procs s Kid1) (procs s Kid2) (length (ready_pipe s)) (alarm_set s)"
  shows "soft_inv (upd Dad q s)"
proof -
  note I = i [unfolded soft_inv_def]
  have "lines_of w (upd Dad q s) = lines_of w s" for w by (simp add: lines_of_def upd_def)
  then have "out_ok (upd Dad q s)" using I q by (auto simp: out_ok_def upd_def)
  then show ?thesis using I q by (auto simp: soft_inv_def upd_def)
qed

lemma raise_inv:
  assumes i: "soft_inv s" and t: "raise_signal g s = Some t"
  shows "soft_inv t"
proof -
  note I = i [unfolded soft_inv_def]
  have ph: "phase a (send x p1) (send y p2) r m = phase a p1 p2 r m" for a x y p1 p2 r m
    by (rule phase_cong) (rule at_only [OF send_at(1)])+
  show ?thesis
  proof (cases "g = SIGINT \<or> g = SIGQUIT")
    case True
    then have t: "t = s\<lparr>procs := (\<lambda>w. send g (procs s w))\<rparr>" using t by (auto simp: raise_signal_def)
    have "out_ok t" using I by (simp add: t out_ok_def lines_of_def at_only(4) [OF send_at(1)])
    moreover have "dad_ok (procs t Dad)" using I True dad_send by (auto simp: t)
    moreover have "kid_ok w (procs t w)" if "w \<noteq> Dad" for w using I True kid_send that by (auto simp: t)
    ultimately show ?thesis using I by (simp add: soft_inv_def t ph)
  next
    case False
    then have t: "t = upd Dad (send g (procs s Dad)) (s\<lparr>alarm_set := False\<rparr>)" "g = SIGALRM" "alarm_set s"
      using t by (auto simp: raise_signal_def split: if_splits)
    have ns: "\<forall>k. at (procs s Dad) \<noteq> Setup k" using I t(3) by (auto simp: phase_def)
    have "out_ok t" using I by (simp add: t(1) upd_def out_ok_def lines_of_def)
    moreover have "dad_ok (procs t Dad)" using I t(2) ns dad_send by (simp add: t(1) upd_def)
    moreover have "phase (at (procs s Dad)) p1 p2 r False = phase (at (procs s Dad)) p1 p2 r True" for p1 p2 r
      using ns by (cases "at (procs s Dad)") (simp_all add: phase_def)
    ultimately show ?thesis using I t(3) by (simp add: soft_inv_def t(1) upd_def)
  qed
qed

lemma deliver_inv:
  assumes i: "soft_inv s" and g: "pend (procs s w) g" "alive (procs s w)"
  shows "soft_inv (upd w (take_signal g (procs s w)) s)"
proof (cases "w = Dad")
  case False
  have "kid_ok w (procs s w)" using i False by (simp add: soft_inv_def)
  from kid_take [OF this False g] show ?thesis by (intro inv_kid [OF i False]) simp_all
next
  case True
  note I = i [unfolded soft_inv_def]
  have d: "dad_ok (procs s Dad)" using I by simp
  note t = dad_take [OF d g [unfolded True]]
  have "phase (at (take_signal g (procs s Dad))) (procs s Kid1) (procs s Kid2) (length (ready_pipe s)) (alarm_set s)"
  proof -
    have "phase (at (procs s Dad)) (procs s Kid1) (procs s Kid2) (length (ready_pipe s)) (alarm_set s)" using I by simp
    moreover have "at (take_signal g (procs s Dad)) = at (procs s Dad) \<or>
        at (procs s Dad) = Paused \<and> at (take_signal g (procs s Dad)) = Testing \<or>
        at (take_signal g (procs s Dad)) = Killed g \<and> (\<exists>k. at (procs s Dad) = Setup k)"
      using t by blast
    ultimately show ?thesis by (elim disjE conjE exE) (simp_all add: phase_def)
  qed
  moreover have "at (take_signal g (procs s Dad)) \<noteq> Exited 0" using t g(2) True by (auto simp: alive_def)
  ultimately show ?thesis using inv_dad [OF i, of "take_signal g (procs s Dad)"] t True by simp
qed

section \<open>The processes keep it\<close>

lemma lines_say [simp]: "lines_of w (say v l s) = lines_of w s @ (if v = w then [l] else [])"
  by (simp add: lines_of_def say_def)

lemma lines_upd [simp]: "lines_of w (upd v q s) = lines_of w s" "lines_of w (jump v a s) = lines_of w s"
  by (simp_all add: lines_of_def upd_def jump_def)

lemma kid_jump: "kid_ok w p \<Longrightarrow> told p \<Longrightarrow> at p \<noteq> Unborn \<Longrightarrow> kid_places a \<Longrightarrow> told (p\<lparr>at := a\<rparr>) \<Longrightarrow> kid_ok w (p\<lparr>at := a\<rparr>)"
  by (simp add: kid_ok_def born_def)

lemma child_inv:
  assumes i: "soft_inv s" and w: "w \<noteq> Dad" and t: "child_step w s = Some t"
  shows "soft_inv t"
proof -
  note I = i [unfolded soft_inv_def]
  let ?p = "procs s w"
  have k: "kid_ok w ?p" using I w by simp
  note defs = born_def told_def ended_def said_def kid_places_def kid_ok_def
  have quiet: ?thesis if "t = upd w q s" "kid_ok w q" "born q = born ?p" "told q = told ?p" "ended q = ended ?p" "said q = said ?p" for q
    unfolding that(1) by (rule inv_kid [OF i w that(2-6)])
  have ph: "phase (at (procs s Dad)) (procs s Kid1) (procs s Kid2) (length (ready_pipe s)) (alarm_set s)" using I by simp
  show ?thesis
  proof (cases "at ?p")
    case (Setup m)
    consider "t = upd w ((ignore_signal SIGINT ?p)\<lparr>at := Setup 1\<rparr>) s" | "t = upd w ((ignore_signal SIGQUIT ?p)\<lparr>at := Setup 2\<rparr>) s"
      | "t = upd w ((set_handler (child_sig w) (child_handler w) ?p)\<lparr>at := Telling\<rparr>) s"
      using t Setup by (auto simp: child_step_def Let_def split: if_splits)
    then show ?thesis
    proof cases
      case 1
      show ?thesis by (rule quiet [OF 1]) (use k Setup w in \<open>auto simp: defs ignore_signal_def\<close>)
    next
      case 2
      show ?thesis by (rule quiet [OF 2]) (use k Setup w in \<open>auto simp: defs ignore_signal_def\<close>)
    next
      case 3
      show ?thesis by (rule quiet [OF 3])
        (use k Setup w in \<open>auto simp: defs set_handler_def child_sig_def child_handler_def CHILD1_SIG_def CHILD2_SIG_def\<close>)
    qed
  next
    case Telling
    show ?thesis
    proof (cases "reader s")
      case False
      have "disp ?p SIGPIPE = SIG_DFL" using k Telling by (simp add: kid_ok_def born_def)
      then have t: "t = upd w (?p\<lparr>pend := (pend ?p)(SIGPIPE := False), at := Killed SIGPIPE\<rparr>) s"
        using t Telling False by (simp add: child_step_def Let_def take_signal_def alive_def)
      have kt: "kid_ok w (?p\<lparr>pend := (pend ?p)(SIGPIPE := False), at := Killed SIGPIPE\<rparr>)" using k Telling by (auto simp: defs)
      have "phase (at (procs s Dad)) (procs t Kid1) (procs t Kid2) (length (ready_pipe s)) (alarm_set s)"
        using ph Telling w False by (cases w; cases "at (procs s Dad)") (auto simp: phase_def t upd_def reader_def defs split: if_splits)
      moreover have "out_ok t" using I Telling w by (auto simp: out_ok_def t upd_def lines_of_def defs)
      ultimately show ?thesis using I kt w by (auto simp: soft_inv_def t upd_def)
    next
    case True
    then have t: "t = upd w (?p\<lparr>at := Testing\<rparr>) (s\<lparr>ready_pipe := ready_pipe s @ [w]\<rparr>)" using t Telling by (simp add: child_step_def Let_def)
    have kt: "kid_ok w (?p\<lparr>at := Testing\<rparr>)" using k Telling by (auto simp: defs)
    have "phase (at (procs s Dad)) (procs t Kid1) (procs t Kid2) (Suc (length (ready_pipe s))) (alarm_set s)"
      using ph Telling w by (cases w; cases "at (procs s Dad)") (auto simp: phase_def t upd_def defs)
    moreover have "out_ok t" using I Telling w by (auto simp: out_ok_def t upd_def lines_of_def defs)
    ultimately show ?thesis using I kt w by (auto simp: soft_inv_def t upd_def)
    qed
  next
    case Saying
    then have t: "t = upd w (?p\<lparr>at := Leaving\<rparr>) (say w (Child_killed w) s)"
      using t by (simp add: child_step_def Let_def jump_def say_def)
    have kt: "kid_ok w (?p\<lparr>at := Leaving\<rparr>)" using k Saying by (auto simp: defs)
    have "phase (at (procs s Dad)) (procs t Kid1) (procs t Kid2) (length (ready_pipe s)) (alarm_set s)"
      using ph Saying w by (cases w; cases "at (procs s Dad)") (auto simp: phase_def t upd_def say_def defs)
    moreover have "at (procs s Dad) \<noteq> Exited 0"
      using ph Saying w by (cases w) (auto simp: phase_def defs)
    then have "out_ok t" using I Saying w by (auto simp: out_ok_def t upd_def lines_of_def say_def defs)
    ultimately show ?thesis using I kt w by (auto simp: soft_inv_def t upd_def say_def)
  next
    case Leaving
    then have t: "t = upd w (?p\<lparr>at := Exited 0\<rparr>) s"
      using t by (simp add: child_step_def Let_def jump_def)
    have kt: "kid_ok w (?p\<lparr>at := Exited 0\<rparr>)" using k Leaving by (auto simp: defs)
    have "phase (at (procs s Dad)) (procs t Kid1) (procs t Kid2) (length (ready_pipe s)) (alarm_set s)"
      using ph Leaving w by (cases w; cases "at (procs s Dad)") (auto simp: phase_def t upd_def defs)
    moreover have "out_ok t" using I Leaving w by (auto simp: out_ok_def t upd_def lines_of_def defs)
    ultimately show ?thesis using I kt w by (auto simp: soft_inv_def t upd_def)
  next
    case Testing
    then have t: "t = upd w (?p\<lparr>at := if own_flag w ?p then Saying else Pausing\<rparr>) s"
      using t by (simp add: child_step_def Let_def wait_flag_def)
    show ?thesis by (rule quiet [OF t]) (use k Testing in \<open>auto simp: defs\<close>)
  next
    case Pausing
    then have t: "t = upd w (?p\<lparr>at := Paused\<rparr>) s" using t by (simp add: child_step_def Let_def wait_flag_def)
    show ?thesis by (rule quiet [OF t]) (use k Pausing in \<open>auto simp: defs\<close>)
  qed (use t in \<open>simp_all add: child_step_def Let_def wait_flag_def\<close>)
qed

definition late :: "place \<Rightarrow> bool" where
  "late a = (case a of Setup _ \<Rightarrow> False | Exited _ \<Rightarrow> False | Killed _ \<Rightarrow> False | _ \<Rightarrow> True)"

lemma dad_jump:
  "dad_ok p \<Longrightarrow> late (at p) \<Longrightarrow> (a = Say_trip \<longrightarrow> parent_tripped p) \<Longrightarrow> (\<forall>k. a \<noteq> Setup k) \<Longrightarrow> dad_ok (p\<lparr>at := a\<rparr>)"
  by (cases "at p"; cases a) (simp_all add: dad_ok_def late_def)

text \<open>The parent forks.\<close>

lemma fork_inv:
  assumes i: "soft_inv s" and w: "w = Kid1 \<and> at (procs s Dad) = Fork1 \<and> a = Fork2 \<or> w = Kid2 \<and> at (procs s Dad) = Fork2 \<and> a = Ready 0"
    and t: "t = jump Dad a (upd w (forked (procs s Dad)) s)"
  shows "soft_inv t"
proof -
  note I = i [unfolded soft_inv_def]
  have d: "dad_ok (procs s Dad)" and ph: "phase (at (procs s Dad)) (procs s Kid1) (procs s Kid2) (length (ready_pipe s)) (alarm_set s)"
    using I by simp_all
  have k: "kid_ok w (forked (procs s Dad))"
    using d w by (auto simp: dad_ok_def forked_def kid_ok_def kid_places_def born_def told_def)
  have "dad_ok ((procs s Dad)\<lparr>at := a\<rparr>)" using w by (intro dad_jump [OF d]) (auto simp: late_def)
  moreover have "phase a (procs t Kid1) (procs t Kid2) (length (ready_pipe s)) (alarm_set s)"
    using ph w by (auto simp: phase_def t upd_def jump_def forked_def born_def told_def)
  moreover have "out_ok t"
    using I ph w by (auto simp: out_ok_def t stage_def said_def forked_def phase_def born_def upd_def jump_def lines_of_def)
  ultimately show ?thesis using I k w by (auto simp: soft_inv_def t upd_def jump_def)
qed

text \<open>The parent prints.\<close>

lemma dad_says:
  assumes i: "soft_inv s" and a: "late (at (procs s Dad))" "a \<noteq> Say_trip" "\<forall>k. a \<noteq> Setup k"
    and l: "stage a = Suc (stage (at (procs s Dad)))" "\<And>g. lines_of Dad s = take (stage (at (procs s Dad))) (dad_lines g) \<Longrightarrow>
      g \<in> {2, 3, 14} \<Longrightarrow> \<exists>h \<in> {2, 3, 14}. lines_of Dad s @ [l] = take (stage a) (dad_lines h)"
    and e: "a = Exited 0 \<longrightarrow> l = Parent_killed"
    and ph: "phase a (procs s Kid1) (procs s Kid2) (length (ready_pipe s)) (alarm_set s)"
  shows "soft_inv (jump Dad a (say Dad l s))"
proof -
  note I = i [unfolded soft_inv_def]
  let ?t = "jump Dad a (say Dad l s)"
  have "dad_ok ((procs s Dad)\<lparr>at := a\<rparr>)" using I a by (intro dad_jump) auto
  moreover have "\<exists>g \<in> {2, 3, 14}. lines_of Dad ?t = take (stage a) (dad_lines g)"
  proof -
    obtain g where "g \<in> {2, 3, 14}" "lines_of Dad s = take (stage (at (procs s Dad))) (dad_lines g)"
      using I unfolding out_ok_def by blast
    from l(2) [OF this(2,1)] show ?thesis by simp
  qed
  then have "out_ok ?t" using I e by (auto simp: out_ok_def jump_def upd_def say_def lines_of_def)
  ultimately show ?thesis using I ph by (simp add: soft_inv_def jump_def upd_def say_def)
qed

text \<open>The parent signals a child.\<close>

lemma kill_inv:
  assumes i: "soft_inv s" and w: "w = Kid2 \<and> at (procs s Dad) = Kill2 \<and> a = Say2 \<or> w = Kid1 \<and> at (procs s Dad) = Kill1 \<and> a = Say1"
  shows "soft_inv (jump Dad a (upd w (send (child_sig w) (procs s w)) s))"
proof -
  let ?s = "upd w (send (child_sig w) (procs s w)) s"
  note I = i [unfolded soft_inv_def]
  have ph: "phase (at (procs s Dad)) (procs s Kid1) (procs s Kid2) (length (ready_pipe s)) (alarm_set s)" using I by simp
  have wd: "w \<noteq> Dad" using w by auto
  have "told (procs s w)" using ph w by (auto simp: phase_def)
  then have "kid_ok w (send (child_sig w) (procs s w))" using I wd by (intro kid_send) auto
  then have j: "soft_inv ?s" by (intro inv_kid [OF i wd]) (simp_all add: at_only [OF send_at(1)])
  have pd: "procs ?s Dad = procs s Dad" using wd by (simp add: upd_def)
  show ?thesis unfolding jump_def pd
  proof (rule inv_dad [OF j])
    show "dad_ok ((procs s Dad)\<lparr>at := a\<rparr>)" using I w by (intro dad_jump) (auto simp: late_def)
    show "stage (at ((procs s Dad)\<lparr>at := a\<rparr>)) = stage (at (procs ?s Dad))" using w by (auto simp: pd stage_def)
    have "phase (at (procs s Dad)) (procs ?s Kid1) (procs ?s Kid2) (length (ready_pipe ?s)) (alarm_set ?s)"
      using j pd by (simp add: soft_inv_def)
    then show "phase (at ((procs s Dad)\<lparr>at := a\<rparr>)) (procs ?s Kid1) (procs ?s Kid2) (length (ready_pipe ?s)) (alarm_set ?s)"
      using w by (auto simp: phase_def)
  qed (use w in auto)
qed

lemma dad_lines_last:
  "dad_lines g = [Stop_test g, Stop_test 12, Stop_test 10, Parent_killed]"
  by (simp add: dad_lines_def signo_def CHILD1_SIG_def CHILD2_SIG_def)

lemma dad_inv:
  assumes i: "soft_inv s" and t: "dad_step ok s = Some t"
  shows "soft_inv t"
proof -
  note I = i [unfolded soft_inv_def]
  let ?p = "procs s Dad"
  have d: "dad_ok ?p" and ph: "phase (at ?p) (procs s Kid1) (procs s Kid2) (length (ready_pipe s)) (alarm_set s)"
    using I by simp_all
  have move: "soft_inv (upd Dad q s)" if "dad_ok q" "stage (at q) = stage (at ?p)" "at q \<noteq> Exited 0"
      "phase (at q) (procs s Kid1) (procs s Kid2) (length (ready_pipe s)) (alarm_set s)" for q
    by (rule inv_dad [OF i that])
  have go: "soft_inv (jump Dad a s)" if "late (at ?p)" "a = Say_trip \<longrightarrow> parent_tripped ?p" "\<forall>k. a \<noteq> Setup k" "stage a = stage (at ?p)"
      "a \<noteq> Exited 0" "phase a (procs s Kid1) (procs s Kid2) (length (ready_pipe s)) (alarm_set s)" for a
    unfolding jump_def by (rule move) (use that dad_jump [OF d] in simp_all)
  have sg: "signo CHILD1_SIG = 10" "signo CHILD2_SIG = 12" by (simp_all add: signo_def CHILD1_SIG_def CHILD2_SIG_def)
  note defs = late_def stage_def phase_def
  show ?thesis
  proof (cases "at ?p")
    case (Setup k)
    then consider "k = 0" "t = upd Dad ((set_handler SIGINT Parent_trigger ?p)\<lparr>at := Setup 1\<rparr>) s"
      | "k = 1" "t = upd Dad ((set_handler SIGQUIT Parent_trigger ?p)\<lparr>at := Setup 2\<rparr>) s"
      | "k = 2" "t = upd Dad ((set_handler SIGALRM Parent_trigger ?p)\<lparr>at := Setup 3\<rparr>) s"
      | "2 < k" "t = jump Dad Fork1 (s\<lparr>alarm_set := True\<rparr>)"
      using t by (auto simp: dad_step_def Let_def split: if_splits)
    then show ?thesis
    proof cases
      case 4
      have "dad_ok (?p\<lparr>at := Fork1\<rparr>)" using d Setup 4 by (auto simp: dad_ok_def)
      moreover have "out_ok t" using I Setup by (simp add: 4 out_ok_def stage_def jump_def upd_def lines_of_def)
      moreover have "phase Fork1 (procs s Kid1) (procs s Kid2) (length (ready_pipe s)) True" using ph Setup by (simp add: phase_def)
      ultimately show ?thesis using I by (simp add: soft_inv_def 4 jump_def upd_def)
    next
      case 1
      show ?thesis unfolding 1(2) by (rule move) (use 1 d ph Setup in \<open>auto simp: dad_ok_def set_handler_def stage_def phase_def\<close>)
    next
      case 2
      show ?thesis unfolding 2(2) by (rule move) (use 2 d ph Setup in \<open>auto simp: dad_ok_def set_handler_def stage_def phase_def\<close>)
    next
      case 3
      show ?thesis unfolding 3(2) by (rule move) (use 3 d ph Setup in \<open>auto simp: dad_ok_def set_handler_def stage_def phase_def\<close>)
    qed
  next
    case Fork1
    then have "t = (if ok then jump Dad Fork2 (upd Kid1 (forked ?p) s) else jump Dad (Exited 1) s)"
      using t by (simp add: dad_step_def Let_def)
    then show ?thesis using fork_inv [OF i, of Kid1 Fork2] go [of "Exited 1"] Fork1 ph by (simp add: defs)
  next
    case Fork2
    then have "t = (if ok then jump Dad (Ready 0) (upd Kid2 (forked ?p) s) else jump Dad (Exited 1) s)"
      using t by (simp add: dad_step_def Let_def)
    then show ?thesis using fork_inv [OF i, of Kid2 "Ready 0"] go [of "Exited 1"] Fork2 ph by (simp add: defs)
  next
    case (Ready got)
    have n: "got + length (ready_pipe s) = of_bool (told (procs s Kid1)) + of_bool (told (procs s Kid2))"
      using ph Ready by (simp add: phase_def)
    consider "\<not> got < 2 \<or> told (procs s Kid1) \<and> told (procs s Kid2)" "t = jump Dad Testing s"
      | "t = jump Dad (Ready (got + min (2 - got) (length (ready_pipe s)))) (s\<lparr>ready_pipe := drop (2 - got) (ready_pipe s)\<rparr>)"
      using t Ready by (auto simp: dad_step_def Let_def split: if_splits)
    then show ?thesis
    proof cases
      case 1
      then have "told (procs s Kid1) \<and> told (procs s Kid2)" using n by (auto simp: of_bool_def split: if_splits)
      then show ?thesis unfolding 1 using Ready by (intro go) (simp_all add: defs)
    next
      case 2
      let ?a = "Ready (got + min (2 - got) (length (ready_pipe s)))"
      have "dad_ok (?p\<lparr>at := ?a\<rparr>)" using Ready by (intro dad_jump [OF d]) (simp_all add: late_def)
      moreover have "out_ok t" using I Ready by (simp add: 2 out_ok_def stage_def jump_def upd_def lines_of_def)
      moreover have "phase ?a (procs s Kid1) (procs s Kid2) (length (drop (2 - got) (ready_pipe s))) (alarm_set s)"
        using ph Ready by (simp add: phase_def min_def)
      ultimately show ?thesis using I by (simp add: soft_inv_def 2 jump_def upd_def)
    qed
  next
    case Testing
    then have "t = jump Dad (if parent_tripped ?p then Say_trip else Pausing) s"
      using t by (simp add: dad_step_def Let_def wait_flag_def own_flag_def jump_def)
    then show ?thesis using go [of Say_trip] go [of Pausing] ph Testing by (simp add: defs)
  next
    case Pausing
    then have "t = jump Dad Paused s" using t by (simp add: dad_step_def Let_def wait_flag_def jump_def)
    then show ?thesis using go [of Paused] ph Pausing by (simp add: defs)
  next
    case Say_trip
    then have t: "t = jump Dad Kill2 (say Dad (Stop_test (last_parent_sig ?p)) s)" using t by (simp add: dad_step_def Let_def)
    have "last_parent_sig ?p \<in> {2, 3, 14}" using d Say_trip by (simp add: dad_ok_def)
    then show ?thesis unfolding t
      by (intro dad_says [OF i]) (use Say_trip ph in \<open>auto simp: defs dad_lines_def\<close>)
  next
    case Kill2
    then have "t = jump Dad Say2 (upd Kid2 (send (child_sig Kid2) (procs s Kid2)) s)"
      using t by (simp add: dad_step_def Let_def child_sig_def)
    then show ?thesis using kill_inv [OF i, of Kid2 Say2] Kill2 by simp
  next
    case Say2
    then have t: "t = jump Dad Kill1 (say Dad (Stop_test 12) s)" using t by (simp add: dad_step_def Let_def sg)
    show ?thesis unfolding t by (intro dad_says [OF i]) (use Say2 ph in \<open>auto simp: defs dad_lines_last numeral_2_eq_2\<close>)
  next
    case Kill1
    then have "t = jump Dad Say1 (upd Kid1 (send (child_sig Kid1) (procs s Kid1)) s)"
      using t by (simp add: dad_step_def Let_def child_sig_def)
    then show ?thesis using kill_inv [OF i, of Kid1 Say1] Kill1 by simp
  next
    case Say1
    then have t: "t = jump Dad Waitpid1 (say Dad (Stop_test 10) s)" using t by (simp add: dad_step_def Let_def sg)
    show ?thesis unfolding t
      by (intro dad_says [OF i]) (use Say1 ph in \<open>auto simp: defs dad_lines_last numeral_2_eq_2 numeral_3_eq_3\<close>)
  next
    case Waitpid1
    then have "ended (procs s Kid1)" "t = jump Dad Waitpid2 s" using t by (auto simp: dad_step_def Let_def split: if_splits)
    then show ?thesis using go [of Waitpid2] ph Waitpid1 by (simp add: defs)
  next
    case Waitpid2
    then have "ended (procs s Kid2)" "t = jump Dad Say_end s" using t by (auto simp: dad_step_def Let_def split: if_splits)
    then show ?thesis using go [of Say_end] ph Waitpid2 by (simp add: defs)
  next
    case Say_end
    then have t: "t = jump Dad (Exited 0) (say Dad Parent_killed s)" using t by (simp add: dad_step_def Let_def)
    show ?thesis unfolding t
      by (intro dad_says [OF i]) (use Say_end ph in \<open>auto simp: defs dad_lines_last numeral_3_eq_3\<close>)
  qed (use t in \<open>simp_all add: dad_step_def Let_def wait_flag_def\<close>)
qed

lemma soft_inv_step: "soft_inv s \<Longrightarrow> soft_next a s = Some t \<Longrightarrow> soft_inv t"
proof -
  assume i: "soft_inv s" and t: "soft_next a s = Some t"
  show ?thesis
  proof (cases a)
    case (Step w ok)
    then show ?thesis using t dad_inv [OF i] child_inv [OF i] by (cases "w = Dad") (simp_all add: soft_next_def)
  next
    case (Raise g)
    then show ?thesis using t raise_inv [OF i] by (simp add: soft_next_def)
  next
    case (Deliver w g)
    then show ?thesis using t deliver_inv [OF i] by (auto simp: soft_next_def split: if_splits)
  qed
qed

lemma soft_inv: "soft_program s \<Longrightarrow> soft_inv s"
proof (induction rule: soft_program.induct)
  case boot
  show ?case by (rule soft_inv_boot)
next
  case (move s a t)
  show ?case by (rule soft_inv_step [OF move.IH move.hyps(2)])
qed

section \<open>Who is killed\<close>

text \<open>
  A child that is killed is the first one, killed by \<open>SIGPIPE\<close> after the parent left because the second
  \<open>fork\<close> failed.
\<close>

definition killed_ok :: "sys \<Rightarrow> bool" where
  "killed_ok s \<longleftrightarrow> (\<forall>w g. w \<noteq> Dad \<and> at (procs s w) = Killed g \<longrightarrow>
     w = Kid1 \<and> g = SIGPIPE \<and> at (procs s Dad) = Exited 1 \<and> at (procs s Kid2) = Unborn)"

lemma killed_ok_same: "killed_ok s \<Longrightarrow> (\<And>w. at (procs t w) = at (procs s w)) \<Longrightarrow> killed_ok t"
  by (simp add: killed_ok_def)

lemma killed_dad: "killed_ok s \<Longrightarrow> dad_step ok s = Some t \<Longrightarrow> killed_ok t"
  by (cases "at (procs s Dad)")
    (auto simp: killed_ok_def dad_step_def Let_def upd_def jump_def say_def forked_def wait_flag_def split: if_splits)

lemma killed_kid:
  assumes i: "soft_inv s" and k: "killed_ok s" and w: "w \<noteq> Dad" and t: "child_step w s = Some t"
  shows "killed_ok t"
proof (cases "at (procs s w) = Telling \<and> \<not> reader s")
  case True
  have ph: "phase (at (procs s Dad)) (procs s Kid1) (procs s Kid2) (length (ready_pipe s)) (alarm_set s)" using i by (simp add: soft_inv_def)
  have "kid_ok w (procs s w)" using i w by (simp add: soft_inv_def)
  then have "disp (procs s w) SIGPIPE = SIG_DFL" using True by (simp add: kid_ok_def born_def)
  then have t: "t = upd w ((procs s w)\<lparr>pend := (pend (procs s w))(SIGPIPE := False), at := Killed SIGPIPE\<rparr>) s"
    using t True by (simp add: child_step_def Let_def take_signal_def alive_def)
  have "at (procs s Dad) = Exited 1 \<and> at (procs s Kid2) = Unborn \<and> w = Kid1"
    using ph True w by (cases w; cases "at (procs s Dad)") (auto simp: phase_def reader_def told_def born_def ended_def split: if_splits)
  then have d: "at (procs s Dad) = Exited 1" "at (procs s Kid2) = Unborn" "w = Kid1" by blast+
  have "v = Kid1 \<or> v = Kid2" if "v \<noteq> Dad" for v using that by (cases v) auto
  then show ?thesis using d unfolding killed_ok_def t upd_def by fastforce
next
  case False
  have o: "procs t v = procs s v" if "v \<noteq> w" for v
    using t that by (auto simp: child_step_def Let_def upd_def jump_def say_def split: place.splits if_splits)
  have "at (procs s w) \<noteq> Unborn \<and> (\<forall>g. at (procs t w) \<noteq> Killed g)"
    using t False by (cases "at (procs s w)") (auto simp: child_step_def Let_def upd_def jump_def say_def wait_flag_def split: if_splits)
  then show ?thesis using k o w unfolding killed_ok_def by metis
qed

lemma killed_next:
  assumes i: "soft_inv s" and k: "killed_ok s" and t: "soft_next a s = Some t"
  shows "killed_ok t"
proof (cases a)
  case (Step w ok)
  then show ?thesis using t killed_dad [OF k] killed_kid [OF i k] by (cases "w = Dad") (simp_all add: soft_next_def)
next
  case (Raise g)
  then show ?thesis using t
    by (intro killed_ok_same [OF k]) (auto simp: soft_next_def raise_signal_def upd_def split: if_splits)
next
  case (Deliver w g)
  then have t: "t = upd w (take_signal g (procs s w)) s" "pend (procs s w) g" "alive (procs s w)"
    using t by (auto simp: soft_next_def split: if_splits)
  show ?thesis
  proof (cases "w = Dad")
    case True
    then have "\<forall>v g. v \<noteq> Dad \<longrightarrow> at (procs s v) \<noteq> Killed g" using k t(3) by (auto simp: killed_ok_def alive_def)
    then show ?thesis using True by (simp add: killed_ok_def t(1) upd_def)
  next
    case False
    have "kid_ok w (procs s w)" using i False by (simp add: soft_inv_def)
    from kid_take [OF this False t(2,3)] have "ended (take_signal g (procs s w)) = ended (procs s w)" by simp
    moreover have "\<not> ended (procs s w)" "at (procs s w) \<noteq> Unborn" using t(3) by (auto simp: alive_def ended_def split: place.splits)
    ultimately have "\<forall>h. at (take_signal g (procs s w)) \<noteq> Killed h" by (auto simp: ended_def)
    then show ?thesis using k False \<open>at (procs s w) \<noteq> Unborn\<close> by (auto simp: killed_ok_def t(1) upd_def)
  qed
qed

lemma killed_ok: "soft_program s \<Longrightarrow> killed_ok s"
proof (induction rule: soft_program.induct)
  case boot
  show ?case by (simp add: killed_ok_def soft_boot_def blank_proc_def)
next
  case (move s a t)
  show ?case by (rule killed_next [OF soft_inv [OF move.hyps(1)] move.IH move.hyps(2)])
qed

end
