(* ===== verification/Soft_Props.thy ===== *)
theory Soft_Props
  imports Softint
begin

text \<open>The properties of the program with the two children, and a schedule for each of its two ends.\<close>

section \<open>Schedules\<close>

text \<open>The parent gets ready, forks both children, they report, it reads both reports and the alarm rings.\<close>

definition start_acts :: "act list" where
  "start_acts = replicate 6 (Step Dad True) @ replicate 4 (Step Kid1 True) @ replicate 4 (Step Kid2 True) @
     replicate 2 (Step Dad True) @ [Raise SIGALRM, Deliver Dad SIGALRM] @ replicate 2 (Step Dad True)"

text \<open>Each child finds its flag set and leaves, then the parent ends.\<close>

definition good_acts :: "act list" where
  "good_acts = start_acts @ replicate 4 (Step Dad True) @ [Deliver Kid1 SIGUSR1, Deliver Kid2 SIGUSR2] @
     replicate 3 (Step Kid1 True) @ replicate 3 (Step Kid2 True) @ replicate 3 (Step Dad True)"

text \<open>The first child tests its flag, then the signal comes, then it pauses.\<close>

definition late_acts :: "act list" where
  "late_acts = start_acts @ [Step Kid1 True] @ replicate 4 (Step Dad True) @ [Deliver Kid1 SIGUSR1, Step Kid1 True]"

lemma good_run:
  "at (procs (soft_run good_acts soft_boot) Dad) = Exited 0"
  by code_simp

text \<open>The second fork fails, then the first child reports.\<close>

definition pipe_acts :: "act list" where
  "pipe_acts = replicate 5 (Step Dad True) @ [Step Dad False] @ replicate 4 (Step Kid1 True)"

lemma pipe_run: "at (procs (soft_run pipe_acts soft_boot) Kid1) = Killed SIGPIPE"
  by code_simp

section \<open>Waiting for ever\<close>

definition stuck :: "sys \<Rightarrow> bool" where
  "stuck s \<longleftrightarrow> soft_inv s \<and> at (procs s Kid1) = Paused \<and> \<not> pend (procs s Kid1) CHILD1_SIG \<and>
     disp (procs s Kid1) SIGINT = SIG_IGN \<and> disp (procs s Kid1) SIGQUIT = SIG_IGN \<and>
     at (procs s Dad) = Waitpid1"

lemma late_run: "stuck (soft_run late_acts soft_boot)" "child1_got (procs (soft_run late_acts soft_boot) Kid1)"
proof -
  have "at (procs (soft_run late_acts soft_boot) Kid1) = Paused" "\<not> pend (procs (soft_run late_acts soft_boot) Kid1) CHILD1_SIG"
    "disp (procs (soft_run late_acts soft_boot) Kid1) SIGINT = SIG_IGN" "disp (procs (soft_run late_acts soft_boot) Kid1) SIGQUIT = SIG_IGN"
    "at (procs (soft_run late_acts soft_boot) Dad) = Waitpid1" "child1_got (procs (soft_run late_acts soft_boot) Kid1)"
    by code_simp+
  moreover have "soft_inv (soft_run late_acts soft_boot)"
    by (rule soft_inv [OF soft_program_run [OF soft_program.boot]])
  ultimately show "stuck (soft_run late_acts soft_boot)" "child1_got (procs (soft_run late_acts soft_boot) Kid1)"
    by (simp_all add: stuck_def)
qed

lemma stuck_next:
  assumes s: "stuck s" and t: "soft_next a s = Some t"
  shows "stuck t"
proof -
  have i: "soft_inv t" using s t soft_inv_step by (auto simp: stuck_def)
  have k: "kid_ok Kid1 (procs s Kid1)" "dad_ok (procs s Dad)" using s by (simp_all add: stuck_def soft_inv_def)
  show ?thesis
  proof (cases a)
    case (Step w ok)
    have "w = Kid2"
      using t s Step by (cases w) (auto simp: stuck_def soft_next_def dad_step_def child_step_def wait_flag_def Let_def ended_def)
    then have c: "child_step Kid2 s = Some t" using t Step by (simp add: soft_next_def)
    have "procs t Kid1 = procs s Kid1" "procs t Dad = procs s Dad"
      using c by (auto simp: child_step_def Let_def upd_def jump_def say_def split: place.splits if_splits)
    then show ?thesis using s i by (simp add: stuck_def)
  next
    case (Raise g)
    then have "raise_signal g s = Some t" using t by (simp add: soft_next_def)
    then show ?thesis using s i
      by (auto simp: stuck_def raise_signal_def upd_def send_def CHILD1_SIG_def split: if_splits)
  next
    case (Deliver w g)
    then have t: "t = upd w (take_signal g (procs s w)) s" "pend (procs s w) g" "alive (procs s w)"
      using t by (auto simp: soft_next_def split: if_splits)
    show ?thesis
    proof (cases w)
      case Kid1
      have "g = SIGINT \<or> g = SIGQUIT" using k(1) t(2) s Kid1 by (auto simp: kid_ok_def stuck_def child_sig_def)
      then have "take_signal g (procs s Kid1) = (procs s Kid1)\<lparr>pend := (pend (procs s Kid1))(g := False)\<rparr>"
        using s by (auto simp: stuck_def take_signal_def Let_def)
      then show ?thesis using s i by (simp add: stuck_def t(1) Kid1 upd_def)
    next
      case Dad
      have "at (take_signal g (procs s Dad)) = Waitpid1"
        using dad_disp(1) [OF k(2)] t(2,3) s Dad
        by (auto simp: stuck_def take_signal_def Let_def parent_trigger_handler_def resume_def)
      then show ?thesis using s i by (simp add: stuck_def t(1) Dad upd_def)
    next
      case Kid2
      then show ?thesis using s i by (simp add: stuck_def t(1) upd_def)
    qed
  qed
qed

lemma stuck_run: "stuck s \<Longrightarrow> stuck (soft_run as s)"
  by (induction as arbitrary: s) (auto split: option.split intro: stuck_next)

section \<open>Properties\<close>

text \<open>C39: The parent signals a child only after the child has installed its handler, so that no child is
  killed by a signal of the parent, of the terminal or of the clock. A child is killed in one way only: the second \<open>fork\<close>
  fails and the parent leaves with status 1, and the first child, with no reader left on the pipe, is
  killed by \<open>SIGPIPE\<close> when it reports; some run does this. When the parent has returned,
  both children have ended with status 0, each printed its line once, the parent's lines are
  the number of the signal that came, 12, 10 and the closing line, in that order, and the closing line is
  the last of all.\<close>
theorem signals_reach_handlers:
  assumes "soft_program s"
  shows "(\<forall>w g. w \<noteq> Dad \<and> at (procs s w) = Killed g \<longrightarrow>
      w = Kid1 \<and> g = SIGPIPE \<and> at (procs s Dad) = Exited 1 \<and> at (procs s Kid2) = Unborn) \<and>
    (at (procs s Dad) = Exited 0 \<longrightarrow>
      at (procs s Kid1) = Exited 0 \<and> at (procs s Kid2) = Exited 0 \<and> last (out s) = (Dad, Parent_killed) \<and>
      lines_of Kid1 s = [Child_killed Kid1] \<and> lines_of Kid2 s = [Child_killed Kid2] \<and>
      (\<exists>g \<in> {2, 3, 14}. lines_of Dad s = [Stop_test g, Stop_test 12, Stop_test 10, Parent_killed])) \<and>
    (\<exists>t. soft_program t \<and> at (procs t Kid1) = Killed SIGPIPE)"
proof -
  have i: "soft_inv s" by (rule soft_inv [OF assms])
  have k: "kid_places (at (procs s Kid1))" "kid_places (at (procs s Kid2))" using i by (simp_all add: soft_inv_def kid_ok_def)
  have d: "\<forall>w g. w \<noteq> Dad \<and> at (procs s w) = Killed g \<longrightarrow>
      w = Kid1 \<and> g = SIGPIPE \<and> at (procs s Dad) = Exited 1 \<and> at (procs s Kid2) = Unborn"
    using killed_ok [OF assms] by (simp add: killed_ok_def)
  have e: "at p = Exited 0 \<or> (\<exists>g. at p = Killed g)" if "kid_places (at p)" "ended p" for p
    using that by (cases "at p") (simp_all add: kid_places_def ended_def)
  have r: "at (procs s Kid1) = Exited 0 \<and> at (procs s Kid2) = Exited 0" if a: "at (procs s Dad) = Exited 0"
  proof -
    have "ended (procs s Kid1)" "ended (procs s Kid2)" using i a by (simp_all add: soft_inv_def phase_def)
    moreover have "at (procs s Kid1) \<noteq> Killed g" "at (procs s Kid2) \<noteq> Killed g" for g using d a by auto
    ultimately show ?thesis using e k by blast
  qed
  have o: "out_ok s" using i by (simp add: soft_inv_def)
  have x: "\<exists>t. soft_program t \<and> at (procs t Kid1) = Killed SIGPIPE"
    using pipe_run soft_program_run [OF soft_program.boot] by blast
  show ?thesis using d x r o by (auto simp: out_ok_def said_def stage_def dad_lines_last)
qed

lemma signals_reach_handlers_witness:
  "at (procs (soft_run good_acts soft_boot) Kid1) = Exited 0 \<and> last (out (soft_run good_acts soft_boot)) = (Dad, Parent_killed)"
  using signals_reach_handlers [OF soft_program_run [OF soft_program.boot], of good_acts] good_run by simp

text \<open>C40: A wake-up can be lost: if a child's signal comes between the test of its flag and \<open>pause\<close>, the flag is set, the
  child pauses all the same, and whatever happens from then on the parent never returns.\<close>
theorem wakeup_can_be_lost:
  "\<exists>as. child1_got (procs (soft_run as soft_boot) Kid1) \<and>
    (\<forall>bs. at (procs (soft_run bs (soft_run as soft_boot)) Kid1) = Paused \<and>
      at (procs (soft_run bs (soft_run as soft_boot)) Dad) = Waitpid1)"
  using late_run stuck_run unfolding stuck_def by blast

end
