(* ===== verification/Spec2Isabelle.thy ===== *)
theory Spec2Isabelle
  imports Fs_Props Cli_Props Users_Props Memsim_Props Console_Props Thread_Props Fork_Props Pipe_Props Soft_Props
begin

text \<open>
  A verification of the programs of an operating systems course: the small ext2-like file system of
  \<open>project3\<close>, the allocator simulator and the two inter-process programs of \<open>project2\<close>, and the
  process and thread programs of \<open>project1\<close>. Every definition that models code is a translation of
  the C function it is named after; what is proved is stated on whole calls, whole processes or
  whole runs.

  \<^bold>\<open>How the code is modelled.\<close> Fixed-width integers are words, \<open>int\<close> is \<open>int\<close> where it cannot
  overflow; bytes are 8-bit words and a C buffer is a list of them; a struct is a record. A function
  that changes globals takes the state and returns the new one; the result type is an option where
  the C code may leave defined behaviour (an access outside a buffer, an uninitialised value), and
  then \<open>None\<close> is that case, so that a proof of \<open>Some\<close> is a proof that the call is defined; in
  \<open>allocate_mem\<close> of the simulator \<open>None\<close> is a recursion without end, and its properties state that it
  returns. There is one exception to this reading of \<open>None\<close>: the code transfers whole blocks of 512 bytes from
  and to \<open>g_sb\<close> and \<open>g_gd\<close>, objects of 64 and 20 bytes (\<open>sync_sb\<close>, \<open>sync_gd\<close>, \<open>load_sb\<close>,
  \<open>load_gd\<close>). Every mount and every allocation does this, so with \<open>None\<close> nothing could be said; the model gives
  each object 512 bytes of its own, the excess in \<open>sb_slack\<close> and \<open>gd_slack\<close>, and does not show what the
  excess does to the globals that a compiler puts behind them. Error codes
  are the values of the source. What is not in the repository is an argument: the host's files, the paths it
  refuses to open and its clock, the uninitialised bytes behind a heap buffer, whether \<open>malloc\<close>, \<open>fork\<close>,
  \<open>execv\<close>, \<open>sem_init\<close> or \<open>pthread_create\<close> succeeds, the local time zone, the order in which
  processes run. Everything a definition needs to be evaluated on an input is executable; only the
  properties quantify.

  \<^bold>\<open>Shared theories.\<close> \<open>Prelude\<close>: the machine types, slices and splices of byte buffers, little-endian
  fields, \<open>strncpy\<close>, C strings and decimal output, with the collections \<open>slice_simps\<close>, \<open>frame_simps\<close> and
  \<open>inv_intros\<close>. \<open>Cstdlib\<close>: \<open>atoi\<close>, \<open>puts\<close> and padding, with the round trip of \<open>%d\<close> and \<open>atoi\<close>.

  \<^bold>\<open>The file system.\<close> In the order of the layers of \<open>project3\<close>, each on the ones before:

  \<^item> \<open>Layout\<close> (\<open>include/fs.h\<close>): constants, error codes, the on-disk structs with their byte encodings,
    and the record \<open>fs\<close> of all global variables together with the host's files.
  \<^item> \<open>Device\<close> (\<open>src/dev.c\<close>): block transfer. The locale \<open>block_device\<close> states what the layers above
    use (a block written is read back, others stay); its interpretation \<open>disk\<close> is on the code's own
    functions.
  \<^item> \<open>Bitmap\<close>, \<open>Allocator\<close> (\<open>src/bitmap.c\<close>): the bitmaps, allocation, release and the free counters.
    The locale \<open>allocator\<close> is interpreted twice, as \<open>blocks\<close> and \<open>inodes\<close>. The block bitmap has 4096
    bits and the scan runs over 4611 numbers, so that allocation is defined only while one of the
    4096 is free; the properties carry this as room in \<open>nfree_blocks\<close>.
  \<^item> \<open>Inode\<close> (\<open>src/inode.c\<close>): the inode table and truncation. \<open>Volume\<close>: the invariant \<open>vol_inv\<close> of a mounted
    volume (live inodes own distinct marked data blocks, none shared; counters agree with the
    bitmaps). \<open>Edit\<close>: a local copy of an inode being edited while the table is still the old one.
  \<^item> \<open>Dir\<close> (\<open>src/dir.c\<close>): entries, lookup, insertion, removal and paths; a directory is seen as the
    association list of its used slots, of which there are at most 80.
  \<^item> \<open>Blockmap\<close>, \<open>FileIO\<close>, \<open>Opening\<close> (\<open>src/file.c\<close>): permissions, the block map of 10 direct and 128
    indirect blocks (a file has at most 138, \<open>FILE_MAX\<close> bytes), the read and write loops, descriptors,
    opening and creation. \<open>file_step\<close> is what a call through one descriptor leaves alone. \<open>Calls\<close>:
    arbitrary sequences of descriptor calls, typed by the table of open files.
  \<^item> \<open>Removal\<close>: truncation and release of an inode of a consistent volume. \<open>Security\<close>, \<open>Users\<close>
    (\<open>src/security.c\<close>): the user table and the session file, and what the account functions do to the
    table as a list of lines. The code scans a file it has read as if it were terminated: \<open>c_lines\<close> are
    the lines such a scan meets, those of the file and then those that happen to be behind it, and
    whether it ends. The properties hold for whatever is there.
  \<^item> \<open>Format\<close> (\<open>src/fs.c\<close>): formatting and mounting; \<open>fresh_volume\<close> is what formatting leaves. \<open>Demo\<close>: that
    volume on a host without files, for the witnesses.
  \<^item> \<open>Cli\<close> (\<open>src/cli.c\<close>, \<open>src/util.c\<close>): every command, the dispatch and \<open>main\<close>; a run of \<open>main\<close> is one
    process, from fresh globals to its exit code, its output and the host's files. \<open>Store\<close>: the map from
    names to texts that \<open>writef\<close>, \<open>readf\<close> and \<open>delete\<close> implement, and the relation that links it to the
    volume. The bounds there are those of a fresh volume: 77 free directory slots, 4000 of its free
    blocks.

  The properties are in \<open>Fs_Props\<close> (files, descriptors, directories, allocation, formatting),
  \<open>Cli_Props\<close> (processes) and \<open>Users_Props\<close> (accounts).

  \<^bold>\<open>The allocator simulator.\<close> \<open>Memsim\<close> (\<open>project2/part3/memsim.c\<close>): the lists of free and allocated
  blocks, first, best and worst fit, merging, compaction. The insertion sorts on linked lists are one
  locale \<open>linked_sort\<close> with an interpretation for each of the four orders. \<open>malloc\<close> answers by an oracle
  of the state. \<open>mem_inv\<close> is the invariant. \<open>Console\<close>: the same program as it is used, from the bytes
  typed to the bytes printed; \<open>turns n\<close> is at most \<open>n\<close> rounds of the endless loop of \<open>main\<close>, and as many
  turns as bytes were typed are enough, because every turn that does not see the end of the input
  takes at least one. \<open>answers\<close> and \<open>follow\<close> are the specification it is compared with: the input as a list
  of lines, each a number or not, and the session they stand for. Properties in \<open>Memsim_Props\<close> and \<open>Console_Props\<close>.

  \<^bold>\<open>Threads and processes.\<close> These are state machines whose runs interleave single accesses, statements
  or system calls; a reachable state is given by an inductive predicate or by a list of who steps.

  \<^item> \<open>Threads\<close>, \<open>Locks\<close>, \<open>Race\<close> (\<open>project1/part3/spinlock.c\<close>, \<open>part2/step2_semaphore.c\<close>,
    \<open>part2/step1_race.c\<close>): two workers and \<open>main\<close>. The locale \<open>mutex\<close> derives mutual exclusion from what
    acquiring and releasing do; it is interpreted as \<open>spin\<close> and \<open>sem\<close>. A failing \<open>sem_init\<close> or
    \<open>pthread_create\<close> ends the program. Properties in \<open>Thread_Props\<close>.
  \<^item> \<open>Forks\<close> (\<open>project1/part1\<close>, \<open>part2/step3_exec_in_thread.c\<close>, \<open>part2/step3_system_in_thread.c\<close>,
    \<open>part2/exec_helper.c\<close>): programs as lists of statements over the memory of a process, two tasks,
    and an environment that decides what calls return. \<open>talk\<close> is what one process shows by itself;
    a run of two shows an interleaving of their talks, cut by \<open>wait\<close>. Buffered output is part of the
    memory: \<open>fork\<close> copies it and \<open>exec\<close> drops it. \<open>explore\<close> tries all runs of the two threads; 20 steps
    of fuel are enough, which is part of what is proved. Properties in \<open>Fork_Props\<close>.
  \<^item> \<open>Pipe\<close> (\<open>project2/part2/pipe_communication.c\<close>): two writers, a pipe of any capacity, an optional
    lock. \<open>Softint\<close> (\<open>project2/part1/softint.c\<close>): signals that are pending until delivered, flags and
    \<open>pause\<close>, and the pipe whose last reader may be gone. Properties in \<open>Pipe_Props\<close> and \<open>Soft_Props\<close>.

  \<^bold>\<open>What the properties show.\<close> Reading and writing are exact on bytes, sizes and holes and touch
  nothing else; no sequence of descriptor calls can damage the volume; paths resolve segment by
  segment; directories grow and shrink by one entry; truncation frees exactly what was owned;
  formatting leaves a consistent volume; the three commands on files implement a map; accounts
  follow the table (and what is behind it in memory). The simulator keeps its invariant under any input, serves requests by its
  policy and finds memory when there is enough. The locks protect and the programs that use them can
  always finish; the unprotected ones do not protect, with bounds on what they can do. Several
  properties state a defect as it is in the code: the bitmap overrun, the lost wake-up, passwords
  that only root can change, output that \<open>exec\<close> drops.

  \<^bold>\<open>Not modelled.\<close> A write to the host's files or an \<open>fclose\<close> that fails, a failing \<open>realloc\<close>, \<open>sigaction\<close> or
  \<open>pipe\<close>, and the freeing of memory before a process ends. \<open>proc_start\<close>, the start of the processes the
  properties of the command line are about, is on a host that refuses no file; what \<open>fs_format\<close> does on one
  that refuses \<open>disk.img\<close> is part of its property. Threads run under sequential consistency. Names
  and arguments are byte strings without zero bytes where a statement says so. The uncovered lines of
  the sources are includes, prototypes and comments, the wrapper around \<open>gettid\<close>, and the last
  statements of some \<open>main\<close> functions.
\<close>

end
